(* ===== verification/Prelude.thy ===== *)
theory Prelude
  imports Main "HOL-Library.Word"
begin

unbundle bit_operations_syntax

text \<open>
  Shared vocabulary of the development: the machine integers of the kernel
  (x86, 32 bit), the faults an operation can end in, and the generic lemmas on
  words and lists that the component theories rely on.

  \<^item> \<open>uint8_t\<close>, \<open>uint16_t\<close>, \<open>uint32_t\<close> and \<open>uint64_t\<close> are words; \<open>+\<close>, \<open>-\<close> and \<open>*\<close> wrap as in C++.
  \<^item> \<open>Cpu::throwException\<close> does not return (\<open>device/cpu/Cpu.h\<close> declares it
    \<open>noreturn\<close>; it ends in the blue screen), so a raised exception is a value of \<open>fault\<close>.
  \<^item> \<open>BadAccess\<close> is an access outside the object the code indexes (or through a null
    pointer), which C++ leaves undefined; \<open>Spins\<close> is a busy-wait that no step of the
    calling thread can end.
\<close>

section \<open>Machine types and faults\<close>

type_synonym u8 = "8 word"
type_synonym u16 = "16 word"
type_synonym u32 = "32 word"
type_synonym u64 = "64 word"

text \<open>The software exceptions of \<open>Cpu::Exception\<close>.\<close>

datatype cpu_exception =
    NULLPOINTER
  | OUT_OF_BOUNDS
  | INVALID_ARGUMENT
  | KEY_NOT_FOUND
  | ILLEGAL_STATE
  | OUT_OF_MEMORY
  | OUT_OF_PHYS_MEMORY
  | OUT_OF_PAGE_MEMORY
  | ILLEGAL_PAGE_ACCESS
  | UNKNOWN_TYPE
  | PAGING_ERROR
  | UNSUPPORTED_OPERATION

datatype fault = Thrown cpu_exception | BadAccess | Spins

type_synonym 'a outcome = "fault + 'a"

abbreviation UINT32_MAX :: u32 where
  "UINT32_MAX \<equiv> 0xFFFFFFFF"

text \<open>Sequencing of operations that may fault: the first fault ends the computation.\<close>

definition andThen :: "'a outcome \<Rightarrow> ('a \<Rightarrow> 'b outcome) \<Rightarrow> 'b outcome" where
  "andThen r f = (case r of Inl e \<Rightarrow> Inl e | Inr x \<Rightarrow> f x)"

text \<open>Reading and writing a raw C array by index.\<close>

definition readAt :: "'a list \<Rightarrow> u32 \<Rightarrow> 'a outcome" where
  "readAt xs i = (if unat i < length xs then Inr (xs ! unat i) else Inl BadAccess)"

definition writeAt :: "'a list \<Rightarrow> u32 \<Rightarrow> 'a \<Rightarrow> 'a list outcome" where
  "writeAt xs i x = (if unat i < length xs then Inr (xs[unat i := x]) else Inl BadAccess)"

section \<open>Lemmas on outcomes\<close>

lemma andThen_simps [simp]:
  "andThen (Inl e) f = Inl e"
  "andThen (Inr x) f = f x"
  by (simp_all add: andThen_def)

lemma andThen_Inr_iff:
  "andThen r f = Inr y \<longleftrightarrow> (\<exists>x. r = Inr x \<and> f x = Inr y)"
  by (cases r) auto

lemma readAt_Inr [simp]: "unat i < length xs \<Longrightarrow> readAt xs i = Inr (xs ! unat i)"
  by (simp add: readAt_def)

lemma writeAt_Inr [simp]: "unat i < length xs \<Longrightarrow> writeAt xs i x = Inr (xs[unat i := x])"
  by (simp add: writeAt_def)

section \<open>Lemmas on 32-bit words\<close>

text \<open>
  \<open>word_nat\<close> collects the rules that move word arithmetic to \<open>nat\<close> when no wrap-around
  occurs.
\<close>

named_theorems word_nat

lemmas [word_nat] = word_less_nat_alt word_le_nat_alt unat_div unat_mod

lemma unat_u32_bound [simp]: "unat (x :: u32) < 4294967296"
  using unsigned_less [of x] by simp

lemma unat_u8_bound [simp]: "unat (x :: u8) < 256"
  using unsigned_less [of x] by simp

lemma unat_minus_1_u32 [simp]: "unat (- 1 :: u32) = 4294967295"
  by (simp add: unsigned_minus_1_eq_mask mask_eq_exp_minus_1)

lemma unat_add_u32 [word_nat]:
  "unat (a :: u32) + unat b < 4294967296 \<Longrightarrow> unat (a + b) = unat a + unat b"
  by (simp add: unat_word_ariths)

lemma unat_sub_u32 [word_nat]:
  "unat (b :: u32) \<le> unat a \<Longrightarrow> unat (a - b) = unat a - unat b"
  by (simp add: unat_sub word_le_nat_alt)

lemma unat_mult_u32 [word_nat]:
  "unat (a :: u32) * unat b < 4294967296 \<Longrightarrow> unat (a * b) = unat a * unat b"
  by (simp add: unat_word_ariths)

lemma unat_Suc_u32:
  "(i :: u32) < n \<Longrightarrow> unat (i + 1) = Suc (unat i)"
  using unat_u32_bound [of n] unat_add_u32 [of i 1]
  by (simp add: word_less_nat_alt del: unat_u32_bound)

lemma of_nat_unat_u32 [simp]: "n < 4294967296 \<Longrightarrow> unat (of_nat n :: u32) = n"
  by (simp add: unat_of_nat take_bit_eq_mod)

lemma u32_eq_iff: "(a :: u32) = b \<longleftrightarrow> unat a = unat b"
  by (rule word_unat_eq_iff)

section \<open>Lemmas on lists\<close>

lemma nth_list_update_if:
  "j < length xs \<Longrightarrow> xs[i := x] ! j = (if i = j then x else xs ! j)"
  by (simp add: nth_list_update)

end
