(* ===== verification/Bitmaps.thy ===== *)
theory Bitmaps
  imports Prelude
begin

text \<open>
  \<open>lib/bit/Bitmap\<close> and \<open>lib/async/AtomicBitmap\<close>: a bitmap over an array of
  32-bit words, the most significant bit of a word standing for its lowest block, and the
  first-fit search \<open>findAndSet\<close> the bitmap based memory managers allocate with.

  The record has the fields of the class. \<open>bm_wf\<close> is the class invariant: the array has
  \<open>arraySize\<close> words and holds every block. Under it no operation indexes the array out of
  range, since each one returns early for \<open>block \<ge> blocks\<close>; the exception is \<open>dump\<close>,
  whose loop runs one word too far and is therefore modelled with checked reads.
\<close>

section \<open>State\<close>

record bitmap =
  bm_words :: "u32 list"
  bm_arraySize :: u32
  bm_blocks :: u32

definition Bitmap_arraySize :: "u32 \<Rightarrow> u32" where
  "Bitmap_arraySize blockCount =
     (if blockCount mod 32 = 0 then blockCount div 32 else blockCount div 32 + 1)"

definition Bitmap_new :: "u32 \<Rightarrow> bitmap" where
  "Bitmap_new blockCount =
     \<lparr>bm_words = replicate (unat (Bitmap_arraySize blockCount)) 0,
      bm_arraySize = Bitmap_arraySize blockCount,
      bm_blocks = blockCount\<rparr>"

definition Bitmap_getSize :: "bitmap \<Rightarrow> u32" where
  "Bitmap_getSize bm = bm_blocks bm"

section \<open>Single blocks\<close>

definition Bitmap_mask :: "u32 \<Rightarrow> u32" where
  "Bitmap_mask block = push_bit (unat (31 - block mod 32)) 1"

definition Bitmap_set :: "bitmap \<Rightarrow> u32 \<Rightarrow> bitmap" where
  "Bitmap_set bm block =
     (if block \<ge> bm_blocks bm then bm
      else (let index = unat (block div 32)
            in bm\<lparr>bm_words := (bm_words bm)[index := bm_words bm ! index OR Bitmap_mask block]\<rparr>))"

definition Bitmap_unset :: "bitmap \<Rightarrow> u32 \<Rightarrow> bitmap" where
  "Bitmap_unset bm block =
     (if block \<ge> bm_blocks bm then bm
      else (let index = unat (block div 32)
            in bm\<lparr>bm_words := (bm_words bm)[index := bm_words bm ! index AND NOT (Bitmap_mask block)]\<rparr>))"

definition Bitmap_check :: "bitmap \<Rightarrow> u32 \<Rightarrow> bool \<Rightarrow> bool" where
  "Bitmap_check bm block isSet =
     (if block \<ge> bm_blocks bm then False
      else (let w = bm_words bm ! unat (block div 32)
            in if isSet then w AND Bitmap_mask block \<noteq> 0 else w AND Bitmap_mask block = 0))"

section \<open>Ranges\<close>

text \<open>
  The loops \<open>for (i = 0; i < length; i++)\<close>: the first argument counts the iterations
  that are left, \<open>i\<close> is the loop variable.
\<close>

fun setRange_loop :: "nat \<Rightarrow> u32 \<Rightarrow> u32 \<Rightarrow> bitmap \<Rightarrow> bitmap" where
  "setRange_loop 0 startBlock i bm = bm"
| "setRange_loop (Suc n) startBlock i bm =
     (if startBlock + i \<ge> bm_blocks bm then bm
      else setRange_loop n startBlock (i + 1) (Bitmap_set bm (startBlock + i)))"

definition Bitmap_setRange :: "bitmap \<Rightarrow> u32 \<Rightarrow> u32 \<Rightarrow> bitmap" where
  "Bitmap_setRange bm startBlock len = setRange_loop (unat len) startBlock 0 bm"

fun unsetRange_loop :: "nat \<Rightarrow> u32 \<Rightarrow> u32 \<Rightarrow> bitmap \<Rightarrow> bitmap" where
  "unsetRange_loop 0 startBlock i bm = bm"
| "unsetRange_loop (Suc n) startBlock i bm =
     (if startBlock + i \<ge> bm_blocks bm then bm
      else unsetRange_loop n startBlock (i + 1) (Bitmap_unset bm (startBlock + i)))"

definition Bitmap_unsetRange :: "bitmap \<Rightarrow> u32 \<Rightarrow> u32 \<Rightarrow> bitmap" where
  "Bitmap_unsetRange bm startBlock len = unsetRange_loop (unat len) startBlock 0 bm"

fun checkRange_loop :: "nat \<Rightarrow> u32 \<Rightarrow> u32 \<Rightarrow> bitmap \<Rightarrow> bool \<Rightarrow> bool" where
  "checkRange_loop 0 startBlock i bm isSet = True"
| "checkRange_loop (Suc n) startBlock i bm isSet =
     (if startBlock + i \<ge> bm_blocks bm then True
      else if \<not> Bitmap_check bm (startBlock + i) isSet then False
      else checkRange_loop n startBlock (i + 1) bm isSet)"

definition Bitmap_checkRange :: "bitmap \<Rightarrow> u32 \<Rightarrow> u32 \<Rightarrow> bool \<Rightarrow> bool" where
  "Bitmap_checkRange bm startBlock len isSet = checkRange_loop (unat len) startBlock 0 bm isSet"

text \<open>
  The constructor that reserves blocks does not initialise \<open>blocks\<close>, which keeps its
  default member initialiser 0 (\<open>Bitmap.h\<close>).
\<close>

definition Bitmap_new_reserved :: "u32 \<Rightarrow> u32 \<Rightarrow> bitmap" where
  "Bitmap_new_reserved blockCount reservedBlocksAtBeginning =
     Bitmap_setRange
       \<lparr>bm_words = replicate (unat (Bitmap_arraySize blockCount)) 0,
        bm_arraySize = Bitmap_arraySize blockCount,
        bm_blocks = 0\<rparr>
       0 reservedBlocksAtBeginning"

section \<open>Search\<close>

function Bitmap_findNext :: "bitmap \<Rightarrow> u32 \<Rightarrow> bool \<Rightarrow> u32" where
  "Bitmap_findNext bm i isSet =
     (if i < bm_blocks bm
      then if Bitmap_check bm i isSet then i else Bitmap_findNext bm (i + 1) isSet
      else bm_blocks bm)"
  by pat_completeness auto
termination
  by (relation "measure (\<lambda>(bm, i, isSet). unat (bm_blocks bm) - unat i)")
    (auto simp: unat_Suc_u32 word_less_nat_alt)

declare Bitmap_findNext.simps [simp del]

lemma findNext_bounds:
  "i \<le> bm_blocks bm \<Longrightarrow> i \<le> Bitmap_findNext bm i s \<and> Bitmap_findNext bm i s \<le> bm_blocks bm"
proof (induction bm i s rule: Bitmap_findNext.induct)
  case (1 bm i s)
  show ?case
  proof (cases "i < bm_blocks bm \<and> \<not> Bitmap_check bm i s")
    case True
    then have "i + 1 \<le> bm_blocks bm" "i \<le> i + 1"
      by (simp_all add: word_le_nat_alt word_less_nat_alt unat_Suc_u32 [of i "bm_blocks bm"])
    with 1 True show ?thesis
      by (auto simp: Bitmap_findNext.simps [of bm i s] intro: order_trans)
  next
    case False
    with 1 show ?thesis by (auto simp: Bitmap_findNext.simps [of bm i s])
  qed
qed

lemma findNext_end [simp]: "Bitmap_findNext bm (bm_blocks bm) s = bm_blocks bm"
  by (simp add: Bitmap_findNext.simps)

lemma findNext_hit:
  "Bitmap_findNext bm i s < bm_blocks bm \<Longrightarrow> Bitmap_check bm (Bitmap_findNext bm i s) s"
proof (induction bm i s rule: Bitmap_findNext.induct)
  case (1 bm i s)
  then show ?case
    by (cases "i < bm_blocks bm"; cases "Bitmap_check bm i s")
      (auto simp: Bitmap_findNext.simps [of bm i s])
qed

lemma findNext_progress:
  assumes "i < bm_blocks bm"
  shows "i < Bitmap_findNext bm (Bitmap_findNext bm i True) False"
proof -
  let ?j = "Bitmap_findNext bm i True"
  let ?k = "Bitmap_findNext bm ?j False"
  have j: "i \<le> ?j" "?j \<le> bm_blocks bm"
    using findNext_bounds [of i bm True] assms by auto
  have k: "?j \<le> ?k" using findNext_bounds [of ?j bm False] j by auto
  have "?k \<noteq> i"
  proof
    assume "?k = i"
    with j k have "?j = i" by simp
    with assms findNext_hit [of bm i True] have "Bitmap_check bm i True" by simp
    moreover from \<open>?k = i\<close> assms findNext_hit [of bm ?j False]
    have "Bitmap_check bm i False" by simp
    ultimately show False by (auto simp: Bitmap_check_def Let_def split: if_splits)
  qed
  with j k show ?thesis by simp
qed

function findAndSet_loop :: "bitmap \<Rightarrow> u32 \<Rightarrow> u32 \<Rightarrow> bitmap \<times> u32" where
  "findAndSet_loop bm blockCount currentBlock =
     (if currentBlock < bm_blocks bm
      then (let nextSet = Bitmap_findNext bm currentBlock True
            in if nextSet - currentBlock \<ge> blockCount
               then (Bitmap_setRange bm currentBlock blockCount, currentBlock)
               else findAndSet_loop bm blockCount (Bitmap_findNext bm nextSet False))
      else (bm, bm_blocks bm))"
  by pat_completeness auto
termination
proof (relation "measure (\<lambda>(bm, n, i). unat (bm_blocks bm) - unat i)", goal_cases)
  case (2 bm n i x)
  then show ?case
    using findNext_progress [of i bm] by (simp add: word_less_nat_alt)
qed auto

declare findAndSet_loop.simps [simp del]

definition Bitmap_findAndSet :: "bitmap \<Rightarrow> u32 \<Rightarrow> bitmap \<times> u32" where
  "Bitmap_findAndSet bm blockCount = findAndSet_loop bm blockCount 0"

text \<open>
  \<open>dump\<close> prints the words of the array; its value here is the list of the words it
  reads. The loop condition is \<open>idx <= arraySize\<close>.
\<close>

fun dump_loop :: "nat \<Rightarrow> u32 \<Rightarrow> bitmap \<Rightarrow> u32 list outcome" where
  "dump_loop 0 idx bm = Inr []"
| "dump_loop (Suc n) idx bm =
     andThen (readAt (bm_words bm) idx) (\<lambda>w.
     andThen (dump_loop n (idx + 1) bm) (\<lambda>ws. Inr (w # ws)))"

definition Bitmap_dump :: "bitmap \<Rightarrow> u32 list outcome" where
  "Bitmap_dump bm = dump_loop (Suc (unat (bm_arraySize bm))) 0 bm"

section \<open>AtomicBitmap\<close>

text \<open>
  \<open>lock bts\<close> and \<open>lock btr\<close> set and clear the addressed bit of the word in one step
  and leave its old value in the carry flag; \<open>findAndSet\<close> leaves its loop at the first
  block whose old bit was clear.
\<close>

definition AtomicBitmap_set :: "bitmap \<Rightarrow> u32 \<Rightarrow> bitmap" where
  "AtomicBitmap_set bm block =
     (if block \<ge> bm_blocks bm then bm
      else (let index = unat (block div 32); n = unat (31 - block mod 32)
            in bm\<lparr>bm_words := (bm_words bm)[index := set_bit n (bm_words bm ! index)]\<rparr>))"

definition AtomicBitmap_unset :: "bitmap \<Rightarrow> u32 \<Rightarrow> bitmap" where
  "AtomicBitmap_unset bm block =
     (if block \<ge> bm_blocks bm then bm
      else (let index = unat (block div 32); n = unat (31 - block mod 32)
            in bm\<lparr>bm_words := (bm_words bm)[index := unset_bit n (bm_words bm ! index)]\<rparr>))"

function AtomicBitmap_findAndSet_loop :: "bitmap \<Rightarrow> u32 \<Rightarrow> bitmap \<times> u32" where
  "AtomicBitmap_findAndSet_loop bm i =
     (if i < bm_blocks bm
      then (let index = unat (i div 32); n = unat (31 - i mod 32); w = bm_words bm ! index;
                bm' = bm\<lparr>bm_words := (bm_words bm)[index := set_bit n w]\<rparr>
            in if \<not> bit w n then (bm', i) else AtomicBitmap_findAndSet_loop bm' (i + 1))
      else (bm, i))"
  by pat_completeness auto
termination
  by (relation "measure (\<lambda>(bm, i). unat (bm_blocks bm) - unat i)")
    (auto simp: unat_Suc_u32 word_less_nat_alt)

declare AtomicBitmap_findAndSet_loop.simps [simp del]

definition AtomicBitmap_findAndSet :: "bitmap \<Rightarrow> bitmap \<times> u32" where
  "AtomicBitmap_findAndSet bm = AtomicBitmap_findAndSet_loop bm 0"

section \<open>Abstraction and invariant\<close>

text \<open>
  \<open>bm_get bm k\<close> is the bit of block \<open>k\<close>; \<open>bm_free_run bm s n\<close> says that the
  \<open>n\<close> blocks from \<open>s\<close> exist and are all unset.
\<close>

definition bm_get :: "bitmap \<Rightarrow> nat \<Rightarrow> bool" where
  "bm_get bm k \<longleftrightarrow> bit (bm_words bm ! (k div 32)) (31 - k mod 32)"

definition bm_wf :: "bitmap \<Rightarrow> bool" where
  "bm_wf bm \<longleftrightarrow> length (bm_words bm) = unat (bm_arraySize bm)
     \<and> unat (bm_blocks bm) \<le> 32 * length (bm_words bm)"

definition bm_free_run :: "bitmap \<Rightarrow> nat \<Rightarrow> nat \<Rightarrow> bool" where
  "bm_free_run bm s n \<longleftrightarrow>
     s + n \<le> unat (bm_blocks bm) \<and> (\<forall>k. s \<le> k \<and> k < s + n \<longrightarrow> \<not> bm_get bm k)"

lemma bit_index: "unat (31 - (b :: u32) mod 32) = 31 - unat b mod 32"
proof -
  have "unat (b mod 32) \<le> 31"
    using mod_less_divisor [of 32 "unat b"] by (simp add: unat_mod)
  then show ?thesis
    by (subst unat_sub_u32) (simp_all add: unat_mod)
qed

lemma word_index: "unat ((b :: u32) div 32) = unat b div 32"
  by (simp add: unat_div)

lemma bit_mask_u32: "bit (Bitmap_mask b) k \<longleftrightarrow> k = 31 - unat b mod 32"
  unfolding Bitmap_mask_def bit_index by (auto simp: bit_exp_iff)

lemma mask_test: "(w AND Bitmap_mask b \<noteq> 0) = bit w (31 - unat b mod 32)"
proof
  assume "w AND Bitmap_mask b \<noteq> 0"
  then obtain k where "bit (w AND Bitmap_mask b) k" by (auto simp: bit_eq_iff)
  then show "bit w (31 - unat b mod 32)" by (auto simp: bit_and_iff bit_mask_u32)
next
  assume "bit w (31 - unat b mod 32)"
  then have "bit (w AND Bitmap_mask b) (31 - unat b mod 32)"
    by (simp add: bit_and_iff bit_mask_u32)
  then show "w AND Bitmap_mask b \<noteq> 0" by auto
qed

lemma check_get:
  "Bitmap_check bm b s \<longleftrightarrow> b < bm_blocks bm \<and> (bm_get bm (unat b) = s)"
  using mask_test [of "bm_words bm ! unat (b div 32)" b]
  by (auto simp: Bitmap_check_def bm_get_def word_index Let_def not_le)

lemma bm_index_in_range:
  assumes "bm_wf bm" "k < unat (bm_blocks bm)"
  shows "k div 32 < length (bm_words bm)"
proof -
  from assms have "k < 32 * length (bm_words bm)" by (simp add: bm_wf_def)
  then show ?thesis by (simp add: less_mult_imp_div_less mult.commute)
qed

lemma bm_same_bit:
  "(31 - k mod 32 = 31 - j mod 32 \<and> k div 32 = j div 32) \<longleftrightarrow> (k :: nat) = j"
proof
  assume eq: "31 - k mod 32 = 31 - j mod 32 \<and> k div 32 = j div 32"
  have "k mod 32 < 32" "j mod 32 < 32" by simp_all
  with eq have "k mod 32 = j mod 32" by linarith
  with eq show "k = j" by (metis div_mult_mod_eq)
qed simp

lemma bm_wf_new: "bm_wf (Bitmap_new n)"
proof -
  have "unat n \<le> 32 * unat (Bitmap_arraySize n)"
  proof (cases "n mod 32 = 0")
    case True
    then have "unat n mod 32 = 0" by (simp add: unat_mod [of n 32, simplified, symmetric])
    with True show ?thesis by (simp add: Bitmap_arraySize_def unat_div) presburger
  next
    case False
    have "unat n div 32 + unat (1 :: u32) < 4294967296"
      using unat_u32_bound [of n] by (simp del: unat_u32_bound)
    then have "unat (n div 32 + 1) = unat n div 32 + 1"
      by (subst unat_add_u32) (simp_all add: unat_div)
    with False show ?thesis by (simp add: Bitmap_arraySize_def)
  qed
  then show ?thesis by (simp add: bm_wf_def Bitmap_new_def)
qed

lemma bm_get_new: "k < unat n \<Longrightarrow> \<not> bm_get (Bitmap_new n) k"
  using bm_index_in_range [OF bm_wf_new, of k n]
  by (simp add: bm_get_def Bitmap_new_def)

lemma set_frame [simp]:
  "bm_blocks (Bitmap_set bm b) = bm_blocks bm"
  "bm_arraySize (Bitmap_set bm b) = bm_arraySize bm"
  "length (bm_words (Bitmap_set bm b)) = length (bm_words bm)"
  by (simp_all add: Bitmap_set_def Let_def)

lemma unset_frame [simp]:
  "bm_blocks (Bitmap_unset bm b) = bm_blocks bm"
  "bm_arraySize (Bitmap_unset bm b) = bm_arraySize bm"
  "length (bm_words (Bitmap_unset bm b)) = length (bm_words bm)"
  by (simp_all add: Bitmap_unset_def Let_def)

lemma bm_wf_set [simp]: "bm_wf (Bitmap_set bm b) = bm_wf bm"
  by (simp add: bm_wf_def)

lemma bm_wf_unset [simp]: "bm_wf (Bitmap_unset bm b) = bm_wf bm"
  by (simp add: bm_wf_def)

lemma get_set:
  assumes "bm_wf bm" "k < unat (bm_blocks bm)"
  shows "bm_get (Bitmap_set bm b) k \<longleftrightarrow> k = unat b \<or> bm_get bm k"
proof (cases "b < bm_blocks bm")
  case True
  then have "unat b div 32 < length (bm_words bm)"
    using assms(1) by (simp add: bm_index_in_range word_less_nat_alt)
  with True bm_index_in_range [OF assms] bm_same_bit [of k "unat b"] show ?thesis
    by (auto simp: bm_get_def Bitmap_set_def Let_def word_index nth_list_update_if
        bit_or_iff bit_mask_u32)
next
  case False
  with assms show ?thesis by (auto simp: Bitmap_set_def word_le_nat_alt not_less)
qed

lemma get_unset:
  assumes "bm_wf bm" "k < unat (bm_blocks bm)"
  shows "bm_get (Bitmap_unset bm b) k \<longleftrightarrow> k \<noteq> unat b \<and> bm_get bm k"
proof (cases "b < bm_blocks bm")
  case True
  then have "unat b div 32 < length (bm_words bm)"
    using assms(1) by (simp add: bm_index_in_range word_less_nat_alt)
  with True bm_index_in_range [OF assms] bm_same_bit [of k "unat b"] show ?thesis
    by (auto simp: bm_get_def Bitmap_unset_def Let_def word_index nth_list_update_if
        bit_and_iff bit_not_iff bit_mask_u32)
next
  case False
  with assms show ?thesis by (auto simp: Bitmap_unset_def word_le_nat_alt not_less)
qed

section \<open>Ranges and search\<close>

lemma setRange_loop_frame [simp]:
  "bm_blocks (setRange_loop n s i bm) = bm_blocks bm"
  "bm_wf (setRange_loop n s i bm) = bm_wf bm"
  by (induction n arbitrary: i bm) auto

lemma setRange_frame [simp]:
  "bm_blocks (Bitmap_setRange bm s n) = bm_blocks bm"
  "bm_wf (Bitmap_setRange bm s n) = bm_wf bm"
  by (simp_all add: Bitmap_setRange_def)

lemma get_setRange_loop:
  assumes "bm_wf bm" "k < unat (bm_blocks bm)" "unat s + unat i + n < 4294967296"
  shows "bm_get (setRange_loop n s i bm) k \<longleftrightarrow>
    unat s + unat i \<le> k \<and> k < unat s + unat i + n \<or> bm_get bm k"
  using assms
proof (induction n arbitrary: i bm)
  case 0
  then show ?case by auto
next
  case (Suc n)
  have si: "unat (s + i) = unat s + unat i" using Suc.prems by (simp add: unat_add_u32)
  have i1: "unat (i + 1) = unat i + 1" using Suc.prems unat_add_u32 [of i 1] by simp
  show ?case
  proof (cases "s + i \<ge> bm_blocks bm")
    case True
    with Suc.prems si show ?thesis by (auto simp: word_le_nat_alt)
  next
    case False
    with Suc.prems i1 have "bm_get (setRange_loop (Suc n) s i bm) k \<longleftrightarrow>
      unat s + (unat i + 1) \<le> k \<and> k < unat s + (unat i + 1) + n \<or> bm_get (Bitmap_set bm (s + i)) k"
      using Suc.IH [of "Bitmap_set bm (s + i)" "i + 1"] by simp
    with Suc.prems si show ?thesis by (auto simp: get_set)
  qed
qed

lemma get_setRange:
  assumes "bm_wf bm" "k < unat (bm_blocks bm)" "unat s + unat n < 4294967296"
  shows "bm_get (Bitmap_setRange bm s n) k \<longleftrightarrow> unat s \<le> k \<and> k < unat s + unat n \<or> bm_get bm k"
  using get_setRange_loop [of bm k s 0 "unat n"] assms by (simp add: Bitmap_setRange_def)

lemma findNext_skips:
  "i \<le> bm_blocks bm \<Longrightarrow> unat i \<le> k \<Longrightarrow> k < unat (Bitmap_findNext bm i s) \<Longrightarrow> bm_get bm k \<noteq> s"
proof (induction bm i s rule: Bitmap_findNext.induct)
  case (1 bm i s)
  show ?case
  proof (cases "i < bm_blocks bm")
    case True
    note lt = True
    show ?thesis
    proof (cases "Bitmap_check bm i s")
      case True
      with lt 1 show ?thesis by (simp add: Bitmap_findNext.simps [of bm i s])
    next
      case False
      with lt have nx: "Bitmap_findNext bm i s = Bitmap_findNext bm (i + 1) s"
        by (simp add: Bitmap_findNext.simps [of bm i s])
      from lt False have here: "bm_get bm (unat i) \<noteq> s" by (simp add: check_get)
      from lt have le: "i + 1 \<le> bm_blocks bm" and suc: "unat (i + 1) = Suc (unat i)"
        by (simp_all add: word_le_nat_alt word_less_nat_alt unat_Suc_u32 [of i "bm_blocks bm"])
      show ?thesis
      proof (cases "k = unat i")
        case False
        with suc "1.prems" have "unat (i + 1) \<le> k" by simp
        with 1 lt \<open>\<not> Bitmap_check bm i s\<close> le nx show ?thesis by simp
      qed (use here in simp)
    qed
  next
    case False
    with 1 show ?thesis by (simp add: Bitmap_findNext.simps [of bm i s] word_le_nat_alt word_less_nat_alt)
  qed
qed

text \<open>One round of the first-fit search: no free run starts before the next candidate.\<close>

lemma findNext_no_run:
  assumes "i < bm_blocks bm" "Bitmap_findNext bm i True - i < n"
    and "unat i \<le> s" "s < unat (Bitmap_findNext bm (Bitmap_findNext bm i True) False)"
  shows "\<not> bm_free_run bm s (unat n)"
proof
  let ?j = "Bitmap_findNext bm i True"
  assume run: "bm_free_run bm s (unat n)"
  have j: "i \<le> ?j" "?j \<le> bm_blocks bm"
    using findNext_bounds [of i bm True] assms by auto
  have len: "unat ?j - unat i < unat n"
    using assms(2) j by (simp add: word_less_nat_alt word_le_nat_alt unat_sub_u32)
  show False
  proof (cases "s < unat ?j")
    case True
    with len assms(3) have cross: "unat ?j < s + unat n" by linarith
    with run have "?j < bm_blocks bm" by (simp add: bm_free_run_def word_less_nat_alt)
    then have "bm_get bm (unat ?j)" using findNext_hit [of bm i True] by (simp add: check_get)
    with run cross True show False by (simp add: bm_free_run_def)
  next
    case False
    with assms(4) j have "bm_get bm s"
      using findNext_skips [of ?j bm s False] by simp
    with run len show False by (simp add: bm_free_run_def)
  qed
qed

lemma findAndSet_loop_first_fit:
  assumes "bm_wf bm" "0 < n" "findAndSet_loop bm n i = (bm', b)"
    and "i \<le> bm_blocks bm" "\<forall>s < unat i. \<not> bm_free_run bm s (unat n)"
  shows "(b = bm_blocks bm \<and> bm' = bm \<and> (\<forall>s. \<not> bm_free_run bm s (unat n)))
    \<or> (b < bm_blocks bm \<and> bm_free_run bm (unat b) (unat n)
        \<and> (\<forall>s < unat b. \<not> bm_free_run bm s (unat n)) \<and> bm' = Bitmap_setRange bm b n)"
  using assms
proof (induction bm n i rule: findAndSet_loop.induct)
  case (1 bm n i)
  note IH = "1.IH" and prems = "1.prems"
  show ?case
  proof (cases "i < bm_blocks bm")
    case False
    with prems have i: "i = bm_blocks bm" by simp
    from prems(3) False have "bm' = bm" "b = bm_blocks bm"
      by (auto simp: findAndSet_loop.simps [of bm n i])
    moreover have "\<not> bm_free_run bm s (unat n)" for s
      using prems(2,5) i by (cases "s < unat i") (auto simp: bm_free_run_def word_less_nat_alt)
    ultimately show ?thesis by blast
  next
    case True
    let ?j = "Bitmap_findNext bm i True"
    have j: "i \<le> ?j" "?j \<le> bm_blocks bm"
      using findNext_bounds [of i bm True] True by auto
    show ?thesis
    proof (cases "?j - i \<ge> n")
      case hit: True
      with True prems(3) have res: "b = i" "bm' = Bitmap_setRange bm i n"
        by (auto simp: findAndSet_loop.simps [of bm n i] Let_def)
      have len: "unat n \<le> unat ?j - unat i"
        using hit j by (simp add: word_le_nat_alt unat_sub_u32)
      have "bm_free_run bm (unat i) (unat n)"
        unfolding bm_free_run_def
      proof (intro conjI allI impI)
        show "unat i + unat n \<le> unat (bm_blocks bm)"
          using len j by (simp add: word_le_nat_alt)
        fix k assume "unat i \<le> k \<and> k < unat i + unat n"
        with len have "unat i \<le> k" "k < unat ?j" by linarith+
        then show "\<not> bm_get bm k"
          using findNext_skips [of i bm k True] True by simp
      qed
      with res True prems(5) show ?thesis by blast
    next
      case False
      let ?k = "Bitmap_findNext bm ?j False"
      have k: "?k \<le> bm_blocks bm" using findNext_bounds [of ?j bm False] j by auto
      have none: "\<forall>s < unat ?k. \<not> bm_free_run bm s (unat n)"
        using prems(5) findNext_no_run [OF True, of n] False by (metis not_le)
      from True False prems(3) have "findAndSet_loop bm n ?k = (bm', b)"
        by (simp add: findAndSet_loop.simps [of bm n i] Let_def)
      from IH [OF True refl False prems(1,2) this k none] show ?thesis .
    qed
  qed
qed

lemma findAndSet_first_fit:
  assumes "bm_wf bm" "0 < n" "Bitmap_findAndSet bm n = (bm', b)"
  shows "(b = bm_blocks bm \<and> bm' = bm \<and> (\<forall>s. \<not> bm_free_run bm s (unat n)))
    \<or> (b < bm_blocks bm \<and> bm_free_run bm (unat b) (unat n)
        \<and> (\<forall>s < unat b. \<not> bm_free_run bm s (unat n)) \<and> bm' = Bitmap_setRange bm b n)"
  using findAndSet_loop_first_fit [of bm n 0] assms by (simp add: Bitmap_findAndSet_def)

lemma get_findAndSet:
  assumes "bm_wf bm" "bm_free_run bm (unat b) (unat n)" "k < unat (bm_blocks bm)"
  shows "bm_get (Bitmap_setRange bm b n) k \<longleftrightarrow> unat b \<le> k \<and> k < unat b + unat n \<or> bm_get bm k"
proof -
  from assms(2) have "unat b + unat n \<le> unat (bm_blocks bm)" by (simp add: bm_free_run_def)
  then have "unat b + unat n < 4294967296" using unat_u32_bound [of "bm_blocks bm"] by linarith
  with assms show ?thesis by (simp add: get_setRange)
qed

section \<open>The contract of a block set\<close>

text \<open>
  What the memory managers rely on: marking and unmarking a block changes the answer of
  \<open>check\<close> for that block only. Both bitmap classes provide it.
\<close>

locale block_set =
  fixes size_of :: "'b \<Rightarrow> u32"
    and mark :: "'b \<Rightarrow> u32 \<Rightarrow> 'b"
    and unmark :: "'b \<Rightarrow> u32 \<Rightarrow> 'b"
    and marked :: "'b \<Rightarrow> u32 \<Rightarrow> bool \<Rightarrow> bool"
    and inv :: "'b \<Rightarrow> bool"
  assumes inv_mark: "inv b \<Longrightarrow> inv (mark b x)"
    and inv_unmark: "inv b \<Longrightarrow> inv (unmark b x)"
    and size_mark: "size_of (mark b x) = size_of b"
    and size_unmark: "size_of (unmark b x) = size_of b"
    and marked_range: "marked b x s \<Longrightarrow> x < size_of b"
    and marked_dual: "x < size_of b \<Longrightarrow> marked b x False \<longleftrightarrow> \<not> marked b x True"
    and marked_mark: "inv b \<Longrightarrow> y < size_of b \<Longrightarrow> marked (mark b x) y True \<longleftrightarrow> y = x \<or> marked b y True"
    and marked_unmark:
      "inv b \<Longrightarrow> y < size_of b \<Longrightarrow> marked (unmark b x) y True \<longleftrightarrow> y \<noteq> x \<and> marked b y True"
begin

lemma unmark_mark:
  assumes "inv b" "marked b x False"
  shows "marked (unmark (mark b x) x) y s \<longleftrightarrow> marked b y s"
proof (cases "y < size_of b")
  case True
  have "\<not> marked b x True" using assms marked_range marked_dual by blast
  with True assms show ?thesis
    by (cases s) (auto simp: marked_dual size_mark size_unmark marked_unmark marked_mark inv_mark)
next
  case False
  then show ?thesis using marked_range size_mark size_unmark by metis
qed

lemma mark_keeps_others:
  "inv b \<Longrightarrow> y \<noteq> x \<Longrightarrow> y < size_of b \<Longrightarrow> marked (mark b x) y s \<longleftrightarrow> marked b y s"
  by (cases s) (auto simp: marked_dual size_mark marked_mark)

end

interpretation bitmap_blocks: block_set bm_blocks Bitmap_set Bitmap_unset Bitmap_check bm_wf
  by unfold_locales
    (auto simp: check_get get_set get_unset word_less_nat_alt u32_eq_iff)

lemma AtomicBitmap_set_eq: "AtomicBitmap_set bm b = Bitmap_set bm b"
  by (simp add: AtomicBitmap_set_def Bitmap_set_def Bitmap_mask_def set_bit_eq_or Let_def push_bit_eq_mult)

lemma AtomicBitmap_unset_eq: "AtomicBitmap_unset bm b = Bitmap_unset bm b"
  by (simp add: AtomicBitmap_unset_def Bitmap_unset_def Bitmap_mask_def unset_bit_eq_and_not
      Let_def push_bit_eq_mult)

interpretation atomic_blocks: block_set bm_blocks AtomicBitmap_set AtomicBitmap_unset Bitmap_check bm_wf
  by unfold_locales
    (auto simp: AtomicBitmap_set_eq AtomicBitmap_unset_eq check_get get_set get_unset
      word_less_nat_alt u32_eq_iff)

lemma set_already:
  assumes "bm_wf bm" "b < bm_blocks bm" "bm_get bm (unat b)"
  shows "AtomicBitmap_set bm b = bm"
proof -
  have "set_bit (31 - unat b mod 32) (bm_words bm ! (unat b div 32)) = bm_words bm ! (unat b div 32)"
    using assms(3) by (simp add: bm_get_def set_bit_eq_idem_iff)
  then show ?thesis
    by (simp add: AtomicBitmap_set_def bit_index word_index Let_def)
qed

lemma atomic_loop_step:
  assumes "i < bm_blocks bm"
  shows "AtomicBitmap_findAndSet_loop bm i =
    (if \<not> bm_get bm (unat i) then (AtomicBitmap_set bm i, i)
     else AtomicBitmap_findAndSet_loop (AtomicBitmap_set bm i) (i + 1))"
proof -
  from assms have "\<not> bm_blocks bm \<le> i" by simp
  with assms show ?thesis
    by (simp add: AtomicBitmap_findAndSet_loop.simps [of bm i] AtomicBitmap_set_def Let_def
        bm_get_def bit_index word_index)
qed

lemma atomic_loop_eq:
  "bm_wf bm \<Longrightarrow> i \<le> bm_blocks bm \<Longrightarrow>
   AtomicBitmap_findAndSet_loop bm i =
     (let j = Bitmap_findNext bm i False in (if j < bm_blocks bm then AtomicBitmap_set bm j else bm, j))"
proof (induction "unat (bm_blocks bm) - unat i" arbitrary: i)
  case 0
  then have i: "i = bm_blocks bm" by (simp add: word_le_nat_alt u32_eq_iff)
  show ?case
    unfolding i AtomicBitmap_findAndSet_loop.simps [of bm "bm_blocks bm"]
    by (simp add: Let_def)
next
  case (Suc n)
  then have lt: "i < bm_blocks bm" by (simp add: word_less_nat_alt)
  have s: "unat (i + 1) = Suc (unat i)" using lt by (rule unat_Suc_u32)
  show ?case
  proof (cases "bm_get bm (unat i)")
    case True
    have "AtomicBitmap_findAndSet_loop bm (i + 1) =
      (let j = Bitmap_findNext bm (i + 1) False
       in (if j < bm_blocks bm then AtomicBitmap_set bm j else bm, j))"
      using Suc.prems Suc.hyps lt s by (simp add: word_le_nat_alt word_less_nat_alt)
    with True lt Suc.prems show ?thesis
      by (simp add: atomic_loop_step set_already Bitmap_findNext.simps [of bm i] check_get)
  next
    case False
    with lt show ?thesis
      by (simp add: atomic_loop_step Bitmap_findNext.simps [of bm i] check_get)
  qed
qed

lemma setRange_one: "b < bm_blocks bm \<Longrightarrow> Bitmap_setRange bm b 1 = Bitmap_set bm b"
  by (simp add: Bitmap_setRange_def)

lemma findAndSet_loop_one:
  "i \<le> bm_blocks bm \<Longrightarrow> findAndSet_loop bm 1 i =
     (let j = Bitmap_findNext bm i False in (if j < bm_blocks bm then Bitmap_set bm j else bm, j))"
proof (induction bm "1 :: u32" i rule: findAndSet_loop.induct)
  case (1 bm i)
  show ?case
  proof (cases "i < bm_blocks bm")
    case False
    with 1 have i: "i = bm_blocks bm" by simp
    show ?thesis
      unfolding i findAndSet_loop.simps [of bm 1 "bm_blocks bm"]
      by (simp add: Let_def)
  next
    case True
    show ?thesis
    proof (cases "bm_get bm (unat i)")
      case set: True
      then have j: "Bitmap_findNext bm i True = i"
        using True by (simp add: Bitmap_findNext.simps [of bm i] check_get)
      have le: "Bitmap_findNext bm i False \<le> bm_blocks bm"
        using findNext_bounds [of i bm False] True by simp
      have again: "Bitmap_findNext bm (Bitmap_findNext bm i False) False = Bitmap_findNext bm i False"
        using le findNext_hit [of bm i False]
        by (cases "Bitmap_findNext bm i False < bm_blocks bm")
          (simp_all add: Bitmap_findNext.simps [of bm "Bitmap_findNext bm i False"])
      have "findAndSet_loop bm 1 i = findAndSet_loop bm 1 (Bitmap_findNext bm i False)"
        using True j by (simp add: findAndSet_loop.simps [of bm 1 i] Let_def)
      with "1.hyps" [OF True refl] j le again show ?thesis by simp
    next
      case False
      have "i \<le> Bitmap_findNext bm i True"
        using findNext_bounds [of i bm True] True by simp
      moreover have "Bitmap_findNext bm i True \<noteq> i"
        using findNext_hit [of bm i True] True False by (auto simp: check_get)
      ultimately have "1 \<le> Bitmap_findNext bm i True - i"
        by (simp add: word_le_nat_alt unat_sub_u32 u32_eq_iff)
      with True False show ?thesis
        by (simp add: findAndSet_loop.simps [of bm 1 i] Bitmap_findNext.simps [of bm i False]
            check_get Let_def setRange_one)
    qed
  qed
qed

lemma atomic_findAndSet_eq:
  assumes "bm_wf bm"
  shows "AtomicBitmap_findAndSet bm = Bitmap_findAndSet bm 1"
  using assms
  by (simp add: AtomicBitmap_findAndSet_def Bitmap_findAndSet_def atomic_loop_eq
      findAndSet_loop_one AtomicBitmap_set_eq Let_def)

section \<open>Properties\<close>

text \<open>C18. \<open>Bitmap::findAndSet\<close> is a correct first-fit search. For a positive block count it
  either returns \<open>blocks\<close>, leaves the bitmap unchanged, and then no run of that many
  unset blocks exists, or it returns the lowest block at which such a run starts, and afterwards exactly the
  blocks of that run have become set.\<close>

theorem Bitmap_findAndSet_correct:
  assumes "bm_wf bm" "0 < n" "Bitmap_findAndSet bm n = (bm', b)"
  shows "bm_wf bm' \<and>
    (if b = Bitmap_getSize bm then bm' = bm \<and> (\<forall>s. \<not> bm_free_run bm s (unat n))
     else bm_free_run bm (unat b) (unat n) \<and> (\<forall>s < unat b. \<not> bm_free_run bm s (unat n))
       \<and> (\<forall>k < unat (bm_blocks bm).
            bm_get bm' k \<longleftrightarrow> unat b \<le> k \<and> k < unat b + unat n \<or> bm_get bm k))"
  using findAndSet_first_fit [OF assms] assms(1)
  by (auto simp: Bitmap_getSize_def get_findAndSet)

theorem Bitmap_findAndSet_correct_witness:
  "bm_wf (Bitmap_set (Bitmap_new 40) 1) \<and> bm_free_run (Bitmap_set (Bitmap_new 40) 1) 2 33
   \<and> \<not> bm_free_run (Bitmap_set (Bitmap_new 40) 1) 0 33"
proof -
  have wf: "bm_wf (Bitmap_set (Bitmap_new 40) 1)" by (simp add: bm_wf_new)
  have run: "Bitmap_findAndSet (Bitmap_set (Bitmap_new 40) 1) 33 =
    (\<lparr>bm_words = [0x7FFFFFFF, 0xE0000000], bm_arraySize = 2, bm_blocks = 40\<rparr>, 2)"
    by code_simp
  have "Bitmap_getSize (Bitmap_set (Bitmap_new 40) 1) = 40" by code_simp
  then show ?thesis
    using wf Bitmap_findAndSet_correct [OF wf _ run] by simp
qed

text \<open>C26. \<open>AtomicBitmap::findAndSet()\<close>, the loop around \<open>lock bts\<close>, computes the same
  block and the same bitmap as the reference search \<open>Bitmap::findAndSet(1)\<close>.\<close>

theorem AtomicBitmap_findAndSet_refines:
  assumes "bm_wf bm"
  shows "AtomicBitmap_findAndSet bm = Bitmap_findAndSet bm 1"
  using assms by (rule atomic_findAndSet_eq)

theorem AtomicBitmap_findAndSet_refines_witness:
  "bm_wf (Bitmap_set (Bitmap_new 40) 0)
   \<and> AtomicBitmap_findAndSet (Bitmap_set (Bitmap_new 40) 0)
     = Bitmap_findAndSet (Bitmap_set (Bitmap_new 40) 0) 1"
proof -
  have "bm_wf (Bitmap_set (Bitmap_new 40) 0)" by (simp add: bm_wf_new)
  then show ?thesis using AtomicBitmap_findAndSet_refines by blast
qed

text \<open>The constructor \<open>Bitmap(blockCount, reservedBlocksAtBeginning)\<close> reserves nothing and
  yields a bitmap without blocks: whatever is requested, \<open>findAndSet\<close> reports that no
  block is free.\<close>

lemma Bitmap_new_reserved_has_no_blocks:
  "Bitmap_getSize (Bitmap_new_reserved blockCount reserved) = 0
   \<and> Bitmap_findAndSet (Bitmap_new_reserved blockCount reserved) n
     = (Bitmap_new_reserved blockCount reserved, 0)"
proof -
  have "bm_blocks (Bitmap_new_reserved blockCount reserved) = 0"
    by (simp add: Bitmap_new_reserved_def)
  then show ?thesis
    by (simp add: Bitmap_getSize_def Bitmap_findAndSet_def findAndSet_loop.simps)
qed

end
