(* ===== verification/Byte_Memory.thy ===== *)
theory Byte_Memory
  imports Prelude
begin

text \<open>
  The memory the kernel code works on: a byte for every 32-bit address, the little-endian
  32-bit accesses of the compiled code, the block operations of \<open>lib/libc/string.c\<close> on it,
  and \<open>MemoryUtil::alignUp\<close>.
\<close>

section \<open>Memory\<close>

type_synonym memory = "u32 \<Rightarrow> u8"

definition load32 :: "memory \<Rightarrow> u32 \<Rightarrow> u32" where
  "load32 m a = ucast (m a) OR push_bit 8 (ucast (m (a + 1)))
     OR push_bit 16 (ucast (m (a + 2))) OR push_bit 24 (ucast (m (a + 3)))"

definition store32 :: "memory \<Rightarrow> u32 \<Rightarrow> u32 \<Rightarrow> memory" where
  "store32 m a v = m(a := ucast v, a + 1 := ucast (drop_bit 8 v),
     a + 2 := ucast (drop_bit 16 v), a + 3 := ucast (drop_bit 24 v))"

text \<open>
  \<open>memcpy\<close>, \<open>memset\<close> and \<open>memmove\<close>: byte loops with the index \<open>i\<close> counting up to
  \<open>n\<close>. \<open>memmove\<close> copies through a temporary buffer obtained from \<open>malloc\<close>; the
  buffer is a list of bytes here.
\<close>

fun memcpy_loop :: "nat \<Rightarrow> u32 \<Rightarrow> memory \<Rightarrow> u32 \<Rightarrow> u32 \<Rightarrow> memory" where
  "memcpy_loop 0 i m dest src = m"
| "memcpy_loop (Suc k) i m dest src = memcpy_loop k (i + 1) (m(dest + i := m (src + i))) dest src"

definition memcpy :: "memory \<Rightarrow> u32 \<Rightarrow> u32 \<Rightarrow> u32 \<Rightarrow> memory" where
  "memcpy m dest src n = memcpy_loop (unat n) 0 m dest src"

fun memset_loop :: "nat \<Rightarrow> u32 \<Rightarrow> memory \<Rightarrow> u32 \<Rightarrow> u8 \<Rightarrow> memory" where
  "memset_loop 0 i m s c = m"
| "memset_loop (Suc k) i m s c = memset_loop k (i + 1) (m(s + i := c)) s c"

definition memset :: "memory \<Rightarrow> u32 \<Rightarrow> u32 \<Rightarrow> u32 \<Rightarrow> memory" where
  "memset m s c n = memset_loop (unat n) 0 m s (ucast c)"

fun copy_out :: "nat \<Rightarrow> memory \<Rightarrow> u32 \<Rightarrow> u8 list" where
  "copy_out 0 m src = []"
| "copy_out (Suc k) m src = m src # copy_out k m (src + 1)"

fun copy_in :: "u8 list \<Rightarrow> memory \<Rightarrow> u32 \<Rightarrow> memory" where
  "copy_in [] m dest = m"
| "copy_in (b # bs) m dest = copy_in bs (m(dest := b)) (dest + 1)"

definition memmove :: "memory \<Rightarrow> u32 \<Rightarrow> u32 \<Rightarrow> u32 \<Rightarrow> memory" where
  "memmove m dest src n = copy_in (copy_out (unat n) m src) m dest"

definition alignUp :: "u32 \<Rightarrow> u32 \<Rightarrow> u32" where
  "alignUp value alignment =
     (if alignment = 0 then value else (value + (alignment - 1)) AND NOT (alignment - 1))"

section \<open>Word accesses\<close>

lemma load_store_same [simp]: "load32 (store32 m a v) a = v"
proof -
  have "load32 (store32 m a v) a = ucast (ucast v :: u8) OR push_bit 8 (ucast (ucast (drop_bit 8 v) :: u8))
     OR push_bit 16 (ucast (ucast (drop_bit 16 v) :: u8)) OR push_bit 24 (ucast (ucast (drop_bit 24 v) :: u8))"
    by (simp add: load32_def store32_def)
  also have "\<dots> = v"
  proof (rule bit_word_eqI, goal_cases)
    case (1 n)
    then consider "n < 8" | "8 \<le> n" "n < 16" | "16 \<le> n" "n < 24" | "24 \<le> n" "n < 32"
      by fastforce
    then show ?case
      by cases (auto simp: bit_or_iff bit_push_bit_iff bit_unsigned_iff bit_drop_bit_eq)
  qed
  finally show ?thesis .
qed

definition apart :: "u32 \<Rightarrow> u32 \<Rightarrow> bool" where
  "apart a b \<longleftrightarrow> (\<forall>i \<in> {0, 1, 2, 3}. \<forall>j \<in> {0, 1, 2, 3}. a + i \<noteq> b + j)"

lemma load_store_apart: "apart a b \<Longrightarrow> load32 (store32 m b v) a = load32 m a"
proof -
  assume "apart a b"
  then have "(store32 m b v) (a + i) = m (a + i)" if "i \<in> {0, 1, 2, 3}" for i
    using that by (auto simp: apart_def store32_def)
  from this [of 0] this [of 1] this [of 2] this [of 3] show ?thesis
    by (simp add: load32_def)
qed

lemma unat_add_small:
  assumes "unat (a :: u32) + k < 4294967296" "k < 4294967296"
  shows "unat (a + of_nat k) = unat a + k"
  using assms by (subst unat_add_u32) simp_all

lemma apartI:
  assumes "unat a + 4 \<le> unat b \<or> unat b + 4 \<le> unat a"
    and "unat a + 3 < 4294967296" "unat b + 3 < 4294967296"
  shows "apart a b"
proof -
  have s: "unat (c + 1) = unat c + 1" "unat (c + 2) = unat c + 2" "unat (c + 3) = unat c + 3"
    if "unat c + 3 < 4294967296" for c :: u32
    using that unat_add_small [of c 1] unat_add_small [of c 2] unat_add_small [of c 3] by simp_all
  show ?thesis
    using assms s [of a] s [of b] unfolding apart_def u32_eq_iff by (auto simp: s)
qed

lemma store_frame:
  assumes "unat b + 3 < 4294967296" "unat x < unat b \<or> unat b + 4 \<le> unat x"
  shows "store32 m b v x = m x"
proof -
  have "unat (b + 1) = unat b + 1" "unat (b + 2) = unat b + 2" "unat (b + 3) = unat b + 3"
    using assms(1) unat_add_small [of b 1] unat_add_small [of b 2] unat_add_small [of b 3] by simp_all
  with assms(2) have "x \<noteq> b" "x \<noteq> b + 1" "x \<noteq> b + 2" "x \<noteq> b + 3"
    unfolding u32_eq_iff by linarith+
  then show ?thesis by (simp add: store32_def)
qed

section \<open>Alignment\<close>

lemma and_not_mask: "(x :: 'a :: len word) AND NOT (mask k) = x - take_bit k x"
proof -
  have "(x AND mask k) + (x AND NOT (mask k)) = (x AND mask k) OR (x AND NOT (mask k))"
    by (rule disjunctive_add) (simp add: bit_simps)
  also have "\<dots> = x" by (rule bit_eqI) (auto simp: bit_simps)
  finally show ?thesis by (simp add: take_bit_eq_mask algebra_simps)
qed

lemma unat_and_not_mask: "unat ((x :: 'a :: len word) AND NOT (mask k)) = unat x div 2 ^ k * 2 ^ k"
proof -
  have t: "unat (take_bit k x) = unat x mod 2 ^ k" by (simp only: unsigned_take_bit_eq take_bit_eq_mod [where 'a = nat])
  have "take_bit k x \<le> x" by (simp add: word_le_nat_alt t)
  then have "unat (x - take_bit k x) = unat x - unat x mod 2 ^ k" by (simp add: unat_sub t)
  then show ?thesis unfolding and_not_mask by (simp add: minus_mod_eq_div_mult)
qed

lemma unat_alignUp:
  assumes "k < 32" "unat v + 2 ^ k - 1 < 4294967296"
  shows "unat (alignUp v (2 ^ k)) = (unat v + (2 ^ k - 1)) div 2 ^ k * 2 ^ k"
proof -
  have m: "(2 ^ k :: u32) - 1 = mask k" by (simp add: mask_eq_exp_minus_1)
  have um: "unat (mask k :: u32) = 2 ^ k - 1"
  proof -
    have e: "(mask k :: u32) = of_nat (2 ^ k - 1)" by (simp add: mask_eq_exp_minus_1 of_nat_diff)
    have "(2 :: nat) ^ k < 2 ^ 32" using assms(1) by (intro power_strict_increasing) simp_all
    then have "take_bit 32 (2 ^ k - 1 :: nat) = 2 ^ k - 1" by (intro take_bit_nat_eq_self) simp
    then show ?thesis unfolding e unsigned_of_nat by simp
  qed
  have "unat (v + mask k) = unat v + (2 ^ k - 1)" using assms(2) um by (subst unat_add_u32) simp_all
  then show ?thesis
    using assms(1) by (simp add: alignUp_def m unat_and_not_mask)
qed

lemma alignUp_bounds:
  assumes "k < 32" "unat v + 2 ^ k - 1 < 4294967296"
  shows "v \<le> alignUp v (2 ^ k)" "unat (alignUp v (2 ^ k)) mod 2 ^ k = 0"
    and "unat (alignUp v (2 ^ k)) < unat v + 2 ^ k"
proof -
  let ?n = "unat v + (2 ^ k - 1)"
  have "?n div 2 ^ k * 2 ^ k + ?n mod 2 ^ k = ?n" by (rule div_mult_mod_eq)
  moreover have "?n mod 2 ^ k < 2 ^ k" by (rule mod_less_divisor) simp
  ultimately show "v \<le> alignUp v (2 ^ k)" "unat (alignUp v (2 ^ k)) < unat v + 2 ^ k"
    unfolding word_le_nat_alt unat_alignUp [OF assms] by linarith+
  show "unat (alignUp v (2 ^ k)) mod 2 ^ k = 0" unfolding unat_alignUp [OF assms] by simp
qed

end
