(* ===== verification/Memory_Manager.thy ===== *)
theory Memory_Manager
  imports Byte_Memory
begin

text \<open>
  \<open>kernel/memory/manager/MemoryManager\<close>: the state every memory manager has and the
  default operations of the base class. The concrete managers extend the record, as their classes extend
  the class. A pointer is a 32-bit address, \<open>nullptr\<close> is 0.
\<close>

record memory_manager =
  memoryStartAddress :: u32
  memoryEndAddress :: u32
  freeMemory :: u32
  doUnmap :: bool

definition MemoryManager_init ::
  "'a memory_manager_scheme \<Rightarrow> u32 \<Rightarrow> u32 \<Rightarrow> bool \<Rightarrow> 'a memory_manager_scheme" where
  "MemoryManager_init s start endd unmap =
     s\<lparr>memoryStartAddress := start, memoryEndAddress := endd, doUnmap := unmap,
       freeMemory := endd - start\<rparr>"

text \<open>The operations a manager need not support raise an exception in the base class.\<close>

definition MemoryManager_alloc :: "u32 \<Rightarrow> u32" where
  "MemoryManager_alloc sz = 0"

definition MemoryManager_alloc_aligned :: "u32 \<Rightarrow> u32 \<Rightarrow> u32 outcome" where
  "MemoryManager_alloc_aligned sz alignment = Inl (Thrown UNSUPPORTED_OPERATION)"

definition MemoryManager_realloc :: "u32 \<Rightarrow> u32 \<Rightarrow> u32 outcome" where
  "MemoryManager_realloc ptr sz = Inl (Thrown UNSUPPORTED_OPERATION)"

definition MemoryManager_realloc_aligned :: "u32 \<Rightarrow> u32 \<Rightarrow> u32 \<Rightarrow> u32 outcome" where
  "MemoryManager_realloc_aligned ptr sz alignment = Inl (Thrown UNSUPPORTED_OPERATION)"

definition MemoryManager_free_aligned :: "u32 \<Rightarrow> u32 \<Rightarrow> unit outcome" where
  "MemoryManager_free_aligned ptr alignment = Inl (Thrown UNSUPPORTED_OPERATION)"

definition getStartAddress :: "'a memory_manager_scheme \<Rightarrow> u32" where
  "getStartAddress s = memoryStartAddress s"

definition getEndAddress :: "'a memory_manager_scheme \<Rightarrow> u32" where
  "getEndAddress s = memoryEndAddress s"

definition getFreeMemory :: "'a memory_manager_scheme \<Rightarrow> u32" where
  "getFreeMemory s = freeMemory s"

lemmas getter_defs = getStartAddress_def getEndAddress_def getFreeMemory_def

end
