(* ===== verification/Free_List.thy ===== *)
theory Free_List
  imports Memory_Manager
begin

text \<open>
  \<open>kernel/memory/manager/FreeListMemoryManager\<close>: the kernel and user heap. Free chunks
  form a doubly linked list in the managed memory itself, each chunk starting with a
  header \<open>FLHeader { prev, next, size }\<close> of 12 bytes. The model keeps the bytes: every header access is a
  32-bit access of \<open>fl_mem\<close> at the address the compiled code uses.

  The loops follow \<open>next\<close> pointers and end only if the list does, so they are partial
  functions into \<open>option\<close>: \<open>None\<close> is a call that never returns. Acquiring the spin lock while it is
  held is such a call too. \<open>Management::isInitialized()\<close> is the argument
  \<open>initialized\<close>, and the call of \<open>Management::unmap\<close> at the end of
  \<open>freeAlgorithm\<close> is returned as the address range to be unmapped.
\<close>

section \<open>State\<close>

record free_list_manager = memory_manager +
  fl_lock :: bool
  firstChunk :: u32
  fl_mem :: memory

definition HEADER_SIZE :: u32 where
  "HEADER_SIZE = 12"

definition MIN_BLOCK_SIZE :: u32 where
  "MIN_BLOCK_SIZE = 4"

definition PAGESIZE :: u32 where
  "PAGESIZE = 0x1000"

text \<open>The header fields at address \<open>h\<close>.\<close>

definition h_prev :: "memory \<Rightarrow> u32 \<Rightarrow> u32" where
  "h_prev m h = load32 m h"

definition h_next :: "memory \<Rightarrow> u32 \<Rightarrow> u32" where
  "h_next m h = load32 m (h + 4)"

definition h_size :: "memory \<Rightarrow> u32 \<Rightarrow> u32" where
  "h_size m h = load32 m (h + 8)"

definition set_prev :: "u32 \<Rightarrow> u32 \<Rightarrow> memory \<Rightarrow> memory" where
  "set_prev h v m = store32 m h v"

definition set_next :: "u32 \<Rightarrow> u32 \<Rightarrow> memory \<Rightarrow> memory" where
  "set_next h v m = store32 m (h + 4) v"

definition set_size :: "u32 \<Rightarrow> u32 \<Rightarrow> memory \<Rightarrow> memory" where
  "set_size h v m = store32 m (h + 8) v"

abbreviation upd_mem :: "(memory \<Rightarrow> memory) \<Rightarrow> free_list_manager \<Rightarrow> free_list_manager" where
  "upd_mem f s \<equiv> s\<lparr>fl_mem := f (fl_mem s)\<rparr>"

definition lock_acquire :: "free_list_manager \<Rightarrow> free_list_manager option" where
  "lock_acquire s = (if fl_lock s then None else Some (s\<lparr>fl_lock := True\<rparr>))"

definition lock_release :: "free_list_manager \<Rightarrow> free_list_manager" where
  "lock_release s = s\<lparr>fl_lock := False\<rparr>"

section \<open>Operations\<close>

definition FreeList_init :: "free_list_manager \<Rightarrow> u32 \<Rightarrow> u32 \<Rightarrow> bool \<Rightarrow> free_list_manager" where
  "FreeList_init s0 start endd unmap =
     (let s = MemoryManager_init s0 start endd unmap
      in if freeMemory s < HEADER_SIZE then s\<lparr>firstChunk := 0\<rparr>
         else (let sz = freeMemory s - HEADER_SIZE
               in upd_mem (set_prev start 0 \<circ> set_next start 0 \<circ> set_size start sz)
                    (s\<lparr>firstChunk := start, freeMemory := sz\<rparr>)))"

partial_function (option) fl_findNext :: "memory \<Rightarrow> u32 \<Rightarrow> u32 \<Rightarrow> u32 option" where
  "fl_findNext m current reqSize =
     (if current = 0 then Some 0
      else if h_size m current \<ge> reqSize then Some current
      else fl_findNext m (h_next m current) reqSize)"

text \<open>
  Splitting the chunk \<open>current\<close> at the aligned header address \<open>aligned\<close>; the two size
  computations are those of the code, each with the closing \<open>+ HEADER_SIZE\<close>.
\<close>

definition split_aligned :: "u32 \<Rightarrow> u32 \<Rightarrow> memory \<Rightarrow> memory" where
  "split_aligned current aligned m0 =
     (let m1 = set_size aligned (current + HEADER_SIZE + h_size m0 current - aligned + HEADER_SIZE) m0;
          m2 = set_size current (aligned - current + HEADER_SIZE) m1;
          m3 = set_prev aligned current m2;
          m4 = set_next aligned (h_next m3 current) m3;
          m5 = (if h_next m4 aligned \<noteq> 0 then set_prev (h_next m4 aligned) aligned m4 else m4)
      in set_next (h_prev m5 aligned) aligned m5)"

partial_function (option) alloc_search ::
  "u32 \<Rightarrow> u32 \<Rightarrow> memory \<Rightarrow> u32 \<Rightarrow> (memory \<times> u32) option" where
  "alloc_search sz alignment m current =
     (if current = 0 then Some (m, 0)
      else if h_size m current \<ge> sz then
        (let data = current + HEADER_SIZE;
             aligned = alignUp (data + HEADER_SIZE + MIN_BLOCK_SIZE) alignment - HEADER_SIZE
         in if data = alignUp data alignment then Some (m, current)
            else if aligned + HEADER_SIZE + sz \<le> current + HEADER_SIZE + h_size m current
            then Some (split_aligned current aligned m, aligned)
            else Option.bind (fl_findNext m (h_next m current) sz) (alloc_search sz alignment m))
      else Option.bind (fl_findNext m (h_next m current) sz) (alloc_search sz alignment m))"

text \<open>Cutting the rest of the chosen chunk off as a new free chunk, or taking the whole chunk out of the list.\<close>

definition take_slice :: "u32 \<Rightarrow> u32 \<Rightarrow> free_list_manager \<Rightarrow> free_list_manager" where
  "take_slice current sz s0 =
     (let slice = current + HEADER_SIZE + sz;
          s1 = upd_mem (set_size slice (h_size (fl_mem s0) current - sz - HEADER_SIZE)) s0;
          s2 = upd_mem (set_next slice (h_next (fl_mem s1) current)) s1;
          s3 = upd_mem (set_prev slice (h_prev (fl_mem s2) current)) s2;
          s4 = (if h_next (fl_mem s3) slice \<noteq> 0
                then upd_mem (set_prev (h_next (fl_mem s3) slice) slice) s3 else s3);
          s5 = (if h_prev (fl_mem s4) slice \<noteq> 0
                then upd_mem (set_next (h_prev (fl_mem s4) slice) slice) s4
                else s4\<lparr>firstChunk := slice\<rparr>);
          s6 = upd_mem (set_size current sz) s5
      in s6\<lparr>freeMemory := freeMemory s6 - HEADER_SIZE\<rparr>)"

definition take_whole :: "u32 \<Rightarrow> free_list_manager \<Rightarrow> free_list_manager" where
  "take_whole current s0 =
     (let s1 = (if h_next (fl_mem s0) current \<noteq> 0
                then upd_mem (set_prev (h_next (fl_mem s0) current) (h_prev (fl_mem s0) current)) s0
                else s0)
      in if h_prev (fl_mem s1) current \<noteq> 0
         then upd_mem (set_next (h_prev (fl_mem s1) current) (h_next (fl_mem s1) current)) s1
         else s1\<lparr>firstChunk := h_next (fl_mem s1) current\<rparr>)"

definition take_chunk :: "u32 \<Rightarrow> u32 \<Rightarrow> free_list_manager \<Rightarrow> free_list_manager" where
  "take_chunk current sz s1 =
     (let s2 = (if h_size (fl_mem s1) current - sz \<ge> MIN_BLOCK_SIZE + HEADER_SIZE
                then take_slice current sz s1 else take_whole current s1);
          s3 = upd_mem (set_prev current 0 \<circ> set_next current 0) s2
      in s3\<lparr>freeMemory := freeMemory s3 - h_size (fl_mem s3) current\<rparr>)"

definition allocAlgorithm ::
  "free_list_manager \<Rightarrow> u32 \<Rightarrow> u32 \<Rightarrow> u32 \<Rightarrow> (free_list_manager \<times> u32) option" where
  "allocAlgorithm s sz0 alignment startChunk =
     (if sz0 = 0 then Some (s, 0)
      else (let start = (if startChunk = 0 then firstChunk s else startChunk);
                sz = alignUp sz0 4
            in case alloc_search sz alignment (fl_mem s) start of
                 None \<Rightarrow> None
               | Some (m, current) \<Rightarrow>
                   (if current = 0 then Some (s\<lparr>fl_mem := m\<rparr>, 0)
                    else Some (take_chunk current sz (s\<lparr>fl_mem := m\<rparr>), current + HEADER_SIZE))))"

definition FreeList_alloc_aligned ::
  "free_list_manager \<Rightarrow> u32 \<Rightarrow> u32 \<Rightarrow> (free_list_manager \<times> u32) option" where
  "FreeList_alloc_aligned s sz alignment =
     Option.bind (lock_acquire s) (\<lambda>s1.
     Option.bind (allocAlgorithm s1 sz alignment (firstChunk s1)) (\<lambda>(s2, ret).
     Some (lock_release s2, ret)))"

definition FreeList_alloc :: "free_list_manager \<Rightarrow> u32 \<Rightarrow> (free_list_manager \<times> u32) option" where
  "FreeList_alloc s sz = FreeList_alloc_aligned s sz 0"

text \<open>
  \<open>merge\<close>: the freed chunk swallows its right neighbour, then its left neighbour swallows
  it. The first definition is the step \<open>tmp->size += tmp->next->size + HEADER_SIZE; ...;
  tmp->next = tmp->next->next\<close>, which occurs twice.
\<close>

definition absorb_next :: "u32 \<Rightarrow> free_list_manager \<Rightarrow> free_list_manager" where
  "absorb_next tmp s0 =
     (let s1 = upd_mem (set_size tmp (h_size (fl_mem s0) tmp
                 + (h_size (fl_mem s0) (h_next (fl_mem s0) tmp) + HEADER_SIZE))) s0;
          s2 = (if h_next (fl_mem s1) (h_next (fl_mem s1) tmp) \<noteq> 0
                then upd_mem (set_prev (h_next (fl_mem s1) (h_next (fl_mem s1) tmp)) tmp) s1 else s1);
          s3 = upd_mem (set_next tmp (h_next (fl_mem s2) (h_next (fl_mem s2) tmp))) s2
      in s3\<lparr>freeMemory := freeMemory s3 + HEADER_SIZE\<rparr>)"

definition FreeList_merge :: "free_list_manager \<Rightarrow> u32 \<Rightarrow> free_list_manager \<times> u32" where
  "FreeList_merge s0 origin =
     (if firstChunk s0 = 0 then (s0, 0)
      else (let s1 = (if h_next (fl_mem s0) origin \<noteq> 0
                        \<and> origin + HEADER_SIZE + h_size (fl_mem s0) origin = h_next (fl_mem s0) origin
                      then absorb_next origin s0 else s0);
                tmp = h_prev (fl_mem s1) origin
            in if tmp \<noteq> 0 \<and> tmp + HEADER_SIZE + h_size (fl_mem s1) tmp = origin
               then (absorb_next tmp s1, tmp)
               else (s1, origin)))"

text \<open>The search for the position of the freed chunk in the address ordered list.\<close>

definition link_after :: "u32 \<Rightarrow> u32 \<Rightarrow> memory \<Rightarrow> memory" where
  "link_after header tmp m0 =
     (let m1 = set_next header (h_next m0 tmp) m0;
          m2 = set_prev header tmp m1;
          m3 = (if h_next m2 header \<noteq> 0 then set_prev (h_next m2 header) header m2 else m2)
      in set_next (h_prev m3 header) header m3)"

partial_function (option) insert_search :: "u32 \<Rightarrow> memory \<Rightarrow> u32 \<Rightarrow> memory option" where
  "insert_search header m tmp =
     (if tmp = 0 then Some m
      else if header > tmp \<and> (header < h_next m tmp \<or> h_next m tmp = 0)
      then Some (link_after header tmp m)
      else insert_search header m (h_next m tmp))"

definition link_block :: "u32 \<Rightarrow> free_list_manager \<Rightarrow> free_list_manager option" where
  "link_block header s =
     (if firstChunk s = 0 then Some (s\<lparr>firstChunk := header\<rparr>)
      else if header < firstChunk s
      then Some ((upd_mem (set_prev (firstChunk s) header \<circ> set_prev header 0
                           \<circ> set_next header (firstChunk s)) s)\<lparr>firstChunk := header\<rparr>)
      else map_option (\<lambda>m. s\<lparr>fl_mem := m\<rparr>) (insert_search header (fl_mem s) (firstChunk s)))"

definition freeAlgorithm ::
  "bool \<Rightarrow> free_list_manager \<Rightarrow> u32 \<Rightarrow> (free_list_manager \<times> (u32 \<times> u32) option) option" where
  "freeAlgorithm initialized s ptr =
     (if ptr = 0 then Some (s, None)
      else if ptr < memoryStartAddress s \<or> ptr > memoryEndAddress s then Some (s, None)
      else (let header = ptr - HEADER_SIZE
            in case link_block header (s\<lparr>freeMemory := freeMemory s + h_size (fl_mem s) header\<rparr>) of
                 None \<Rightarrow> None
               | Some s2 \<Rightarrow>
                   (case FreeList_merge s2 header of
                      (s3, merged) \<Rightarrow>
                        (let sz = h_size (fl_mem s3) merged
                         in Some (s3,
                              if doUnmap s3 \<and> sz \<ge> PAGESIZE \<and> initialized
                              then Some (merged + HEADER_SIZE, merged + (HEADER_SIZE + sz) - 1)
                              else None)))))"

definition FreeList_free_aligned ::
  "bool \<Rightarrow> free_list_manager \<Rightarrow> u32 \<Rightarrow> u32 \<Rightarrow> (free_list_manager \<times> (u32 \<times> u32) option) option" where
  "FreeList_free_aligned initialized s ptr alignment =
     Option.bind (lock_acquire s) (\<lambda>s1.
     Option.bind (freeAlgorithm initialized s1 ptr) (\<lambda>(s2, unmapped).
     Some (lock_release s2, unmapped)))"

definition FreeList_free ::
  "bool \<Rightarrow> free_list_manager \<Rightarrow> u32 \<Rightarrow> (free_list_manager \<times> (u32 \<times> u32) option) option" where
  "FreeList_free initialized s ptr = FreeList_free_aligned initialized s ptr 0"

section \<open>Reallocation\<close>

text \<open>
  The scan of \<open>realloc\<close> for the best fitting chunk below \<open>ptr\<close>, a
  \<open>do ... while\<close> loop; it returns \<open>currentChunk\<close> and \<open>returnChunk\<close>.
\<close>

partial_function (option) realloc_scan ::
  "memory \<Rightarrow> u32 \<Rightarrow> u32 \<Rightarrow> u32 \<Rightarrow> u32 \<Rightarrow> (u32 \<times> u32) option" where
  "realloc_scan m ptr sz currentChunk returnChunk =
     (let returnChunk' =
            (if h_size m currentChunk \<ge> sz
                \<and> (returnChunk = 0 \<or> h_size m currentChunk < h_size m returnChunk)
             then currentChunk else returnChunk);
          next = h_next m currentChunk
      in if next \<noteq> 0 \<and> next < ptr then realloc_scan m ptr sz next returnChunk'
         else Some (next, returnChunk'))"

definition realloc_move ::
  "bool \<Rightarrow> u32 \<Rightarrow> u32 \<Rightarrow> free_list_manager \<times> u32
   \<Rightarrow> (free_list_manager \<times> u32 \<times> (u32 \<times> u32) option) option" where
  "realloc_move initialized ptr sz = (\<lambda>(s, ret).
     (if ret \<noteq> 0
      then (let old = h_size (fl_mem s) (ptr - HEADER_SIZE);
                s1 = upd_mem (\<lambda>m. memcpy m ret ptr (if sz < old then sz else old)) s
            in Option.bind (FreeList_free initialized s1 ptr) (\<lambda>(s2, unmapped). Some (s2, ret, unmapped)))
      else Some (s, ret, None)))"

text \<open>
  Shrinking in place. The code calls \<open>free(newHeader + HEADER_SIZE)\<close> with
  \<open>newHeader\<close> of type \<open>FLHeader *\<close>: the addition advances by 12 headers, 144 bytes.
\<close>

definition realloc_shrink ::
  "bool \<Rightarrow> free_list_manager \<Rightarrow> u32 \<Rightarrow> u32 \<Rightarrow> (free_list_manager \<times> u32 \<times> (u32 \<times> u32) option) option" where
  "realloc_shrink initialized s ptr sz =
     (let oldHeader = ptr - HEADER_SIZE; oldSize = h_size (fl_mem s) oldHeader
      in if oldSize - sz > MIN_BLOCK_SIZE + HEADER_SIZE
         then (let newHeader = ptr + sz;
                   s1 = upd_mem (set_size newHeader (oldSize - sz - HEADER_SIZE)) s
               in Option.bind (FreeList_free initialized s1 (newHeader + 12 * HEADER_SIZE)) (\<lambda>(s2, unmapped).
                  Some (upd_mem (set_size oldHeader sz) s2, ptr, unmapped)))
         else Some (s, ptr, None))"

text \<open>Growing into the free chunk that directly follows the block.\<close>

definition realloc_extend ::
  "bool \<Rightarrow> free_list_manager \<Rightarrow> u32 \<Rightarrow> u32 \<Rightarrow> u32
   \<Rightarrow> (free_list_manager \<times> u32 \<times> (u32 \<times> u32) option) option" where
  "realloc_extend initialized s0 ptr sz currentChunk =
     (let oldHeader = ptr - HEADER_SIZE;
          s1 = s0\<lparr>freeMemory := freeMemory s0 - h_size (fl_mem s0) currentChunk\<rparr>;
          s2 = upd_mem (set_next (h_prev (fl_mem s1) currentChunk) (h_next (fl_mem s1) currentChunk)) s1;
          s3 = (if h_next (fl_mem s2) currentChunk \<noteq> 0
                then upd_mem (set_prev (h_next (fl_mem s2) currentChunk) (h_prev (fl_mem s2) currentChunk)) s2
                else s2);
          s4 = upd_mem (set_size oldHeader (h_size (fl_mem s3) oldHeader
                 + (h_size (fl_mem s3) currentChunk + HEADER_SIZE))) s3
      in if h_size (fl_mem s4) oldHeader - sz > HEADER_SIZE + MIN_BLOCK_SIZE
         then (let newHeader = ptr + sz;
                   s5 = upd_mem (set_size newHeader (h_size (fl_mem s4) oldHeader - sz - HEADER_SIZE)) s4
               in Option.bind (freeAlgorithm initialized s5 (newHeader + HEADER_SIZE)) (\<lambda>(s6, unmapped).
                  Some (lock_release (upd_mem (set_size oldHeader sz) s6), ptr, unmapped)))
         else Some (lock_release s4, ptr, None))"

definition realloc_grow ::
  "bool \<Rightarrow> free_list_manager \<Rightarrow> u32 \<Rightarrow> u32 \<Rightarrow> u32
   \<Rightarrow> (free_list_manager \<times> u32 \<times> (u32 \<times> u32) option) option" where
  "realloc_grow initialized s ptr sz alignment =
     (let oldSize = h_size (fl_mem s) (ptr - HEADER_SIZE); start = firstChunk s
      in Option.bind (lock_acquire s) (\<lambda>s1.
         Option.bind (realloc_scan (fl_mem s1) ptr sz start 0) (\<lambda>(currentChunk, returnChunk).
         if currentChunk \<noteq> 0 \<and> ptr + oldSize = currentChunk
            \<and> oldSize + h_size (fl_mem s1) currentChunk + HEADER_SIZE \<ge> sz
         then realloc_extend initialized s1 ptr sz currentChunk
         else Option.bind (allocAlgorithm s1 sz alignment returnChunk) (\<lambda>(s2, ret).
              realloc_move initialized ptr sz (lock_release s2, ret)))))"

definition FreeList_realloc_aligned ::
  "bool \<Rightarrow> free_list_manager \<Rightarrow> u32 \<Rightarrow> u32 \<Rightarrow> u32
   \<Rightarrow> (free_list_manager \<times> u32 \<times> (u32 \<times> u32) option) option" where
  "FreeList_realloc_aligned initialized s ptr sz alignment =
     (if sz = 0
      then Option.bind (FreeList_free initialized s ptr) (\<lambda>(s1, unmapped). Some (s1, 0, unmapped))
      else (let oldSize = h_size (fl_mem s) (ptr - HEADER_SIZE);
                fits = (alignment = 0 \<or> ptr mod alignment = 0)
            in if oldSize = sz
               then (if fits then Some (s, ptr, None)
                     else Option.bind (FreeList_alloc_aligned s sz alignment) (realloc_move initialized ptr sz))
               else if sz < oldSize
               then (if fits then realloc_shrink initialized s ptr sz
                     else Option.bind (FreeList_alloc_aligned s sz alignment) (realloc_move initialized ptr sz))
               else (if fits then realloc_grow initialized s ptr sz alignment
                     else Option.bind (FreeList_alloc_aligned s sz alignment) (realloc_move initialized ptr sz))))"

definition FreeList_realloc ::
  "bool \<Rightarrow> free_list_manager \<Rightarrow> u32 \<Rightarrow> u32
   \<Rightarrow> (free_list_manager \<times> u32 \<times> (u32 \<times> u32) option) option" where
  "FreeList_realloc initialized s ptr sz = FreeList_realloc_aligned initialized s ptr sz 0"

section \<open>Dump\<close>

text \<open>\<open>dump\<close> prints start, end, next and size of every free chunk; the printed rows are its value.\<close>

partial_function (option) FreeList_dump_from ::
  "memory \<Rightarrow> u32 \<Rightarrow> (u32 \<times> u32 \<times> u32 \<times> u32) list option" where
  "FreeList_dump_from m tmp =
     (if tmp = 0 then Some []
      else Option.bind (FreeList_dump_from m (h_next m tmp)) (\<lambda>rows.
           Some ((tmp + HEADER_SIZE, tmp + HEADER_SIZE + h_size m tmp, h_next m tmp, h_size m tmp) # rows)))"

definition FreeList_dump :: "free_list_manager \<Rightarrow> (u32 \<times> u32 \<times> u32 \<times> u32) list option" where
  "FreeList_dump s = FreeList_dump_from (fl_mem s) (firstChunk s)"

end
