(* ===== verification/Free_List_Chain.thy ===== *)
theory Free_List_Chain
  imports Free_List
begin

text \<open>
  The free list as data: \<open>links m pv cs q\<close> says that the memory holds the doubly linked
  list of the chunks \<open>cs\<close> (header address and size), entered from \<open>pv\<close> and left towards
  \<open>q\<close>; \<open>chunks_in lo hi cs\<close> says that the chunks lie between the addresses
  \<open>lo\<close> and \<open>hi\<close>, in ascending order and without overlap. \<open>fl_ok\<close> is the invariant of the manager.
\<close>

section \<open>Headers that do not overlap\<close>

definition hdr_ok :: "u32 \<Rightarrow> bool" where
  "hdr_ok a \<longleftrightarrow> unat a + 12 \<le> 4294967296"

definition hdr_sep :: "u32 \<Rightarrow> u32 \<Rightarrow> bool" where
  "hdr_sep a b \<longleftrightarrow> unat a + 12 \<le> unat b \<or> unat b + 12 \<le> unat a"

text \<open>A set of header addresses any two of which are equal or apart.\<close>

definition hset :: "u32 set \<Rightarrow> bool" where
  "hset S \<longleftrightarrow> (\<forall>a \<in> S. hdr_ok a \<and> (\<forall>b \<in> S. a = b \<or> hdr_sep a b))"

lemma field_addr:
  assumes "hdr_ok a"
  shows "unat (a + 4) = unat a + 4" "unat (a + 8) = unat a + 8"
  using assms unat_add_small [of a 4] unat_add_small [of a 8] by (simp_all add: hdr_ok_def)

lemma fields_apart:
  assumes "hdr_ok a" "hdr_ok b" "hdr_sep a b"
  shows "apart a b" "apart a (b + 4)" "apart a (b + 8)"
    "apart (a + 4) b" "apart (a + 4) (b + 4)" "apart (a + 4) (b + 8)"
    "apart (a + 8) b" "apart (a + 8) (b + 4)" "apart (a + 8) (b + 8)"
  using assms field_addr [OF assms(1)] field_addr [OF assms(2)]
  by (auto intro!: apartI simp: hdr_ok_def hdr_sep_def)

lemma fields_apart_self:
  assumes "hdr_ok a"
  shows "apart a (a + 4)" "apart a (a + 8)" "apart (a + 4) a"
    "apart (a + 4) (a + 8)" "apart (a + 8) a" "apart (a + 8) (a + 4)"
  using assms field_addr [OF assms] by (auto intro!: apartI simp: hdr_ok_def)

lemmas header_defs = h_prev_def h_next_def h_size_def set_prev_def set_next_def set_size_def

text \<open>On such a set the header writes act like function updates.\<close>

lemma hset_rules:
  assumes "hset S" "a \<in> S" "b \<in> S"
  shows "h_prev (set_prev a v m) b = (if a = b then v else h_prev m b)"
    "h_next (set_prev a v m) b = h_next m b"
    "h_size (set_prev a v m) b = h_size m b"
    "h_prev (set_next a v m) b = h_prev m b"
    "h_next (set_next a v m) b = (if a = b then v else h_next m b)"
    "h_size (set_next a v m) b = h_size m b"
    "h_prev (set_size a v m) b = h_prev m b"
    "h_next (set_size a v m) b = h_next m b"
    "h_size (set_size a v m) b = (if a = b then v else h_size m b)"
proof -
  have ok: "hdr_ok a" "hdr_ok b" and sep: "a \<noteq> b \<Longrightarrow> hdr_sep b a"
    using assms by (auto simp: hset_def)
  show "h_prev (set_prev a v m) b = (if a = b then v else h_prev m b)"
    "h_next (set_prev a v m) b = h_next m b"
    "h_size (set_prev a v m) b = h_size m b"
    "h_prev (set_next a v m) b = h_prev m b"
    "h_next (set_next a v m) b = (if a = b then v else h_next m b)"
    "h_size (set_next a v m) b = h_size m b"
    "h_prev (set_size a v m) b = h_prev m b"
    "h_next (set_size a v m) b = h_next m b"
    "h_size (set_size a v m) b = (if a = b then v else h_size m b)"
    using ok sep fields_apart [OF ok(2) ok(1)] fields_apart_self [OF ok(1)]
    by (cases "a = b"; simp add: header_defs load_store_apart)+
qed

text \<open>A header write changes only bytes of the header.\<close>

definition in_header :: "u32 \<Rightarrow> u32 \<Rightarrow> bool" where
  "in_header a x \<longleftrightarrow> unat a \<le> unat x \<and> unat x < unat a + 12"

lemma set_header_frame:
  assumes "hdr_ok a" "\<not> in_header a x"
  shows "set_prev a v m x = m x" "set_next a v m x = m x" "set_size a v m x = m x"
proof -
  from assms(2) have "unat x < unat a \<or> unat a + 12 \<le> unat x" by (auto simp: in_header_def)
  with assms(1) field_addr [OF assms(1)]
  show "set_prev a v m x = m x" "set_next a v m x = m x" "set_size a v m x = m x"
    unfolding set_prev_def set_next_def set_size_def hdr_ok_def
    by (auto intro!: store_frame)
qed

section \<open>The list\<close>

type_synonym chunk = "u32 \<times> u32"

fun first_of :: "chunk list \<Rightarrow> u32 \<Rightarrow> u32" where
  "first_of [] q = q"
| "first_of (c # cs) q = fst c"

fun last_of :: "u32 \<Rightarrow> chunk list \<Rightarrow> u32" where
  "last_of pv [] = pv"
| "last_of pv (c # cs) = last_of (fst c) cs"

primrec links :: "memory \<Rightarrow> u32 \<Rightarrow> chunk list \<Rightarrow> u32 \<Rightarrow> bool" where
  "links m pv [] q = True"
| "links m pv (c # cs) q \<longleftrightarrow>
     h_prev m (fst c) = pv \<and> h_next m (fst c) = first_of cs q \<and> h_size m (fst c) = snd c
     \<and> links m (fst c) cs q"

primrec chunks_in :: "nat \<Rightarrow> nat \<Rightarrow> chunk list \<Rightarrow> bool" where
  "chunks_in lo hi [] \<longleftrightarrow> lo \<le> hi"
| "chunks_in lo hi (c # cs) \<longleftrightarrow>
     lo \<le> unat (fst c) \<and> chunks_in (unat (fst c) + 12 + unat (snd c)) hi cs"

definition fl_inv :: "free_list_manager \<Rightarrow> chunk list \<Rightarrow> bool" where
  "fl_inv s cs \<longleftrightarrow>
     0 < unat (memoryStartAddress s)
     \<and> chunks_in (unat (memoryStartAddress s)) (unat (memoryEndAddress s)) cs
     \<and> links (fl_mem s) 0 cs 0
     \<and> firstChunk s = first_of cs 0
     \<and> freeMemory s = sum_list (map snd cs)"

definition fl_ok :: "free_list_manager \<Rightarrow> chunk list \<Rightarrow> bool" where
  "fl_ok s cs \<longleftrightarrow> fl_inv s cs \<and> \<not> fl_lock s"

text \<open>A byte that lies in no free chunk, neither in its header nor in its data.\<close>

definition outside :: "chunk list \<Rightarrow> u32 \<Rightarrow> bool" where
  "outside cs x \<longleftrightarrow> (\<forall>c \<in> set cs. unat x < unat (fst c) \<or> unat (fst c) + 12 + unat (snd c) \<le> unat x)"

abbreviation addrs :: "chunk list \<Rightarrow> u32 set" where
  "addrs cs \<equiv> fst ` set cs"

lemma first_of_append [simp]: "first_of (xs @ ys) q = first_of xs (first_of ys q)"
  by (cases xs) auto

lemma last_of_append [simp]: "last_of pv (xs @ ys) = last_of (last_of pv xs) ys"
  by (induction xs arbitrary: pv) auto

lemma links_append [simp]:
  "links m pv (xs @ ys) q \<longleftrightarrow> links m pv xs (first_of ys q) \<and> links m (last_of pv xs) ys q"
  by (induction xs arbitrary: pv) auto

lemma chunks_in_le: "chunks_in lo hi cs \<Longrightarrow> lo \<le> hi"
  by (induction cs arbitrary: lo) fastforce+

lemma chunks_in_mono: "lo' \<le> lo \<Longrightarrow> chunks_in lo hi cs \<Longrightarrow> chunks_in lo' hi cs"
  by (cases cs) auto

lemma chunks_in_append:
  "chunks_in lo hi (xs @ ys) \<longleftrightarrow> (\<exists>mid. chunks_in lo mid xs \<and> chunks_in mid hi ys)"
proof (induction xs arbitrary: lo)
  case Nil
  show ?case
  proof
    assume "chunks_in lo hi ([] @ ys)"
    then show "\<exists>mid. chunks_in lo mid [] \<and> chunks_in mid hi ys" by auto
  next
    assume "\<exists>mid. chunks_in lo mid [] \<and> chunks_in mid hi ys"
    then show "chunks_in lo hi ([] @ ys)" by (auto intro: chunks_in_mono)
  qed
qed auto

lemma chunks_in_mono_hi: "hi \<le> hi' \<Longrightarrow> chunks_in lo hi cs \<Longrightarrow> chunks_in lo hi' cs"
  by (induction cs arbitrary: lo) auto

lemma chunks_in_mem:
  "chunks_in lo hi cs \<Longrightarrow> c \<in> set cs \<Longrightarrow> lo \<le> unat (fst c) \<and> unat (fst c) + 12 + unat (snd c) \<le> hi"
proof (induction cs arbitrary: lo)
  case (Cons d cs)
  show ?case
  proof (cases "c = d")
    case True
    with Cons.prems show ?thesis by (auto dest: chunks_in_le)
  next
    case False
    with Cons.prems Cons.IH [of "unat (fst d) + 12 + unat (snd d)"] show ?thesis by auto
  qed
qed simp

text \<open>The chunks around a chunk of the list lie below and above it.\<close>

lemma chunks_in_mid:
  "chunks_in lo hi (xs @ (c, z) # ys) \<longleftrightarrow>
     lo \<le> unat c \<and> chunks_in lo (unat c) xs \<and> chunks_in (unat c + 12 + unat z) hi ys"
  by (auto simp: chunks_in_append dest: chunks_in_le intro: chunks_in_mono_hi)

lemma chunks_in_pairs:
  "chunks_in lo hi cs \<Longrightarrow> a \<in> set cs \<Longrightarrow> b \<in> set cs \<Longrightarrow> a = b \<or> hdr_sep (fst a) (fst b)"
proof (induction cs arbitrary: lo)
  case (Cons c cs)
  have above: "hdr_sep (fst c) (fst d) \<and> hdr_sep (fst d) (fst c)" if "d \<in> set cs" for d
    using chunks_in_mem [OF _ that] Cons.prems(1) by (fastforce simp: hdr_sep_def)
  show ?case
    using Cons.prems Cons.IH [of "unat (fst c) + 12 + unat (snd c)"] above [of a] above [of b] by auto
qed simp

lemma chunks_in_hset:
  assumes "chunks_in lo hi cs" "hi < 4294967296"
  shows "hset (addrs cs)"
  unfolding hset_def
  using chunks_in_mem [OF assms(1)] chunks_in_pairs [OF assms(1)] assms(2)
  by (fastforce simp: hdr_ok_def)

lemma chunks_in_distinct: "chunks_in lo hi cs \<Longrightarrow> distinct (map fst cs)"
proof (induction cs arbitrary: lo)
  case (Cons c cs)
  then show ?case using chunks_in_mem [of "unat (fst c) + 12 + unat (snd c)" hi cs] by fastforce
qed simp

lemma chunks_in_nonzero: "chunks_in lo hi cs \<Longrightarrow> 0 < lo \<Longrightarrow> 0 \<notin> addrs cs"
  using chunks_in_mem [of lo hi cs] by force

lemma first_of_in: "ys \<noteq> [] \<Longrightarrow> first_of ys q \<in> addrs ys"
  by (cases ys) auto

lemma last_of_in: "xs \<noteq> [] \<Longrightarrow> last_of pv xs \<in> addrs xs"
  by (induction xs arbitrary: pv) (auto, metis last_of.simps(1) )

lemma first_of_zero: "0 \<notin> addrs ys \<Longrightarrow> first_of ys 0 = 0 \<longleftrightarrow> ys = []"
  by (metis first_of.simps(1) first_of_in)

lemma last_of_zero: "0 \<notin> addrs xs \<Longrightarrow> last_of 0 xs = 0 \<longleftrightarrow> xs = []"
  by (metis last_of.simps(1) last_of_in)

lemma neighbours_zero:
  assumes "chunks_in lo hi (xs @ c # ys)" "0 < lo"
  shows "first_of ys 0 = 0 \<longleftrightarrow> ys = []" "last_of 0 xs = 0 \<longleftrightarrow> xs = []"
  using chunks_in_nonzero [OF assms] first_of_zero [of ys] last_of_zero [of xs] by auto

section \<open>Relinking\<close>

lemma links_cong:
  "(\<And>b. b \<in> addrs cs \<Longrightarrow> h_prev m' b = h_prev m b \<and> h_next m' b = h_next m b \<and> h_size m' b = h_size m b)
   \<Longrightarrow> links m' pv cs q = links m pv cs q"
  by (induction cs arbitrary: pv) auto

lemma links_size: "links m pv cs q \<Longrightarrow> c \<in> set cs \<Longrightarrow> h_size m (fst c) = snd c"
  by (induction cs arbitrary: pv) auto

lemma links_retarget:
  assumes "links m pv xs q" "distinct (map fst xs)"
    and "\<And>b. b \<in> addrs xs \<Longrightarrow> h_prev m' b = h_prev m b \<and> h_size m' b = h_size m b
           \<and> h_next m' b = (if b = last_of 0 xs then q' else h_next m b)"
  shows "links m' pv xs q'"
  using assms
proof (induction xs arbitrary: pv rule: rev_induct)
  case (snoc c xs)
  have "links m' pv xs (fst c)"
  proof -
    have "links m' pv xs (fst c) = links m pv xs (fst c)"
    proof (rule links_cong)
      fix b assume b: "b \<in> addrs xs"
      moreover have "fst c \<notin> addrs xs" using snoc.prems(2) by simp
      with b have "b \<noteq> fst c" by blast
      ultimately show "h_prev m' b = h_prev m b \<and> h_next m' b = h_next m b \<and> h_size m' b = h_size m b"
        using snoc.prems(3) [of b] by simp
    qed
    with snoc.prems(1) show ?thesis by simp
  qed
  with snoc.prems show ?case by simp
qed simp

lemma links_reprev:
  assumes "links m pv ys q" "distinct (map fst ys)"
    and "\<And>b. b \<in> addrs ys \<Longrightarrow> h_next m' b = h_next m b \<and> h_size m' b = h_size m b
           \<and> h_prev m' b = (if b = first_of ys 0 then pv' else h_prev m b)"
  shows "links m' pv' ys q"
proof (cases ys)
  case (Cons c cs)
  have "links m' (fst c) cs q = links m (fst c) cs q"
  proof (rule links_cong)
    fix b assume b: "b \<in> addrs cs"
    moreover have "fst c \<notin> addrs cs" using assms(2) Cons by simp
    with b have "b \<noteq> fst c" by blast
    ultimately show "h_prev m' b = h_prev m b \<and> h_next m' b = h_next m b \<and> h_size m' b = h_size m b"
      using assms(3) [of b] Cons by simp
  qed
  with assms Cons show ?thesis by auto
qed simp

section \<open>Searching\<close>

lemma fl_findNext_links:
  assumes "links m pv cs 0" "0 \<notin> addrs cs"
  shows "fl_findNext m (first_of cs 0) sz = Some (first_of (dropWhile (\<lambda>c. snd c < sz) cs) 0)"
  using assms
proof (induction cs arbitrary: pv)
  case Nil
  then show ?case by (subst fl_findNext.simps) simp
next
  case (Cons c cs)
  from Cons.prems have "fl_findNext m (first_of cs 0) sz = Some (first_of (dropWhile (\<lambda>c. snd c < sz) cs) 0)"
    by (intro Cons.IH) auto
  with Cons.prems show ?case by (subst fl_findNext.simps) (auto simp: not_le not_less)
qed

lemma alloc_search_links:
  assumes "links m pv cs 0" "0 \<notin> addrs cs"
  shows "alloc_search sz 0 m (first_of cs 0) = Some (m, first_of (dropWhile (\<lambda>c. snd c < sz) cs) 0)"
proof -
  have hit: "alloc_search sz 0 m (first_of ds 0) = Some (m, first_of ds 0)"
    if "links m pv' ds 0" "ds = [] \<or> \<not> snd (hd ds) < sz" "0 \<notin> addrs ds" for pv' ds
    using that by (subst alloc_search.simps, cases ds) (auto simp: alignUp_def not_less Let_def)
  show ?thesis
  proof (cases cs)
    case Nil
    then show ?thesis by (subst alloc_search.simps) simp
  next
    case (Cons c ds)
    show ?thesis
    proof (cases "snd c < sz")
      case False
      with Cons assms hit [of pv cs] show ?thesis by auto
    next
      case True
      let ?es = "dropWhile (\<lambda>c. snd c < sz) ds"
      obtain xs where split: "ds = xs @ ?es" by (metis takeWhile_dropWhile_id)
      have "links m (fst c) ds 0" using assms(1) Cons by simp
      then have "links m (last_of (fst c) xs) ?es 0"
        by (subst (asm) split) simp
      moreover have "0 \<notin> addrs ?es" using assms(2) Cons by (auto dest: set_dropWhileD)
      moreover have "?es = [] \<or> \<not> snd (hd ?es) < sz"
        using hd_dropWhile [of "\<lambda>c. snd c < sz" ds] by auto
      ultimately have "alloc_search sz 0 m (first_of ?es 0) = Some (m, first_of ?es 0)"
        using hit by blast
      with True Cons assms show ?thesis
        by (subst alloc_search.simps) (auto simp: not_le fl_findNext_links)
    qed
  qed
qed

end
