(* ===== verification/Free_List_Alloc.thy ===== *)
theory Free_List_Alloc
  imports Free_List_Chain
begin

text \<open>
  Allocation without alignment (\<open>operator new\<close>, \<open>malloc\<close>): the pointer code of
  \<open>allocAlgorithm\<close> refines \<open>spec_alloc\<close>, a first-fit allocator on the list of chunks.
\<close>

section \<open>Specification\<close>

definition spec_alloc :: "u32 \<Rightarrow> chunk list \<Rightarrow> chunk list \<times> u32" where
  "spec_alloc sz cs =
     (case dropWhile (\<lambda>c. snd c < sz) cs of
        [] \<Rightarrow> (cs, 0)
      | (c, z) # ys \<Rightarrow>
          (takeWhile (\<lambda>c. snd c < sz) cs
             @ (if z - sz \<ge> 16 then (c + 12 + sz, z - sz - 12) # ys else ys), c + 12))"

section \<open>Cutting a chunk\<close>

lemma take_slice_fields:
  assumes hs: "hset S" and mem: "c \<in> S" "c + HEADER_SIZE + sz \<in> S" "b \<in> S"
    and ne: "c \<noteq> c + HEADER_SIZE + sz"
    and nx: "h_next (fl_mem s) c = n" "n = 0 \<or> n \<in> S \<and> n \<noteq> c + HEADER_SIZE + sz"
    and pr: "h_prev (fl_mem s) c = p" "p = 0 \<or> p \<in> S \<and> p \<noteq> c + HEADER_SIZE + sz"
  shows "h_size (fl_mem (take_slice c sz s)) b =
      (if b = c then sz
       else if b = c + HEADER_SIZE + sz then h_size (fl_mem s) c - sz - HEADER_SIZE
       else h_size (fl_mem s) b)"
    and "h_next (fl_mem (take_slice c sz s)) b =
      (if b = c + HEADER_SIZE + sz then n
       else if b = p \<and> p \<noteq> 0 then c + HEADER_SIZE + sz else h_next (fl_mem s) b)"
    and "h_prev (fl_mem (take_slice c sz s)) b =
      (if b = c + HEADER_SIZE + sz then p
       else if b = n \<and> n \<noteq> 0 then c + HEADER_SIZE + sz else h_prev (fl_mem s) b)"
    and "firstChunk (take_slice c sz s) = (if p = 0 then c + HEADER_SIZE + sz else firstChunk s)"
    and "freeMemory (take_slice c sz s) = freeMemory s - HEADER_SIZE"
proof -
  note R = hset_rules [OF hs]
  show "h_size (fl_mem (take_slice c sz s)) b =
      (if b = c then sz
       else if b = c + HEADER_SIZE + sz then h_size (fl_mem s) c - sz - HEADER_SIZE
       else h_size (fl_mem s) b)"
    "h_next (fl_mem (take_slice c sz s)) b =
      (if b = c + HEADER_SIZE + sz then n
       else if b = p \<and> p \<noteq> 0 then c + HEADER_SIZE + sz else h_next (fl_mem s) b)"
    "h_prev (fl_mem (take_slice c sz s)) b =
      (if b = c + HEADER_SIZE + sz then p
       else if b = n \<and> n \<noteq> 0 then c + HEADER_SIZE + sz else h_prev (fl_mem s) b)"
    "firstChunk (take_slice c sz s) = (if p = 0 then c + HEADER_SIZE + sz else firstChunk s)"
    using mem ne nx pr unfolding take_slice_def Let_def
    by (auto simp: R)
  show "freeMemory (take_slice c sz s) = freeMemory s - HEADER_SIZE"
    by (simp add: take_slice_def Let_def)
qed

lemma take_slice_frame:
  assumes hs: "hset S" and mem: "c \<in> S" "c + HEADER_SIZE + sz \<in> S"
    and ne: "c \<noteq> c + HEADER_SIZE + sz"
    and nx: "h_next (fl_mem s) c = n" "n = 0 \<or> n \<in> S \<and> n \<noteq> c + HEADER_SIZE + sz"
    and pr: "h_prev (fl_mem s) c = p" "p = 0 \<or> p \<in> S \<and> p \<noteq> c + HEADER_SIZE + sz"
    and x: "\<And>b. b \<in> S \<Longrightarrow> \<not> in_header b x"
  shows "fl_mem (take_slice c sz s) x = fl_mem s x"
proof -
  note R = hset_rules [OF hs]
  have F: "set_prev b v m x = m x" "set_next b v m x = m x" "set_size b v m x = m x"
    if "b \<in> S" for b v m
    using set_header_frame [of b x] hs x [OF that] that by (auto simp: hset_def)
  show ?thesis
    using mem ne nx pr unfolding take_slice_def Let_def
    by (auto simp: R F)
qed

lemma take_slice_same [simp]:
  "memoryStartAddress (take_slice c sz s) = memoryStartAddress s"
  "memoryEndAddress (take_slice c sz s) = memoryEndAddress s"
  "doUnmap (take_slice c sz s) = doUnmap s"
  "fl_lock (take_slice c sz s) = fl_lock s"
  "freeMemory (take_slice c sz s) = freeMemory s - HEADER_SIZE"
  by (simp_all add: take_slice_def Let_def)

lemma take_whole_fields:
  assumes hs: "hset S" and mem: "c \<in> S" "b \<in> S"
    and nx: "h_next (fl_mem s) c = n" "n = 0 \<or> n \<in> S \<and> n \<noteq> c"
    and pr: "h_prev (fl_mem s) c = p" "p = 0 \<or> p \<in> S \<and> p \<noteq> c"
  shows "h_size (fl_mem (take_whole c s)) b = h_size (fl_mem s) b"
    and "h_next (fl_mem (take_whole c s)) b = (if b = p \<and> p \<noteq> 0 then n else h_next (fl_mem s) b)"
    and "h_prev (fl_mem (take_whole c s)) b = (if b = n \<and> n \<noteq> 0 then p else h_prev (fl_mem s) b)"
    and "firstChunk (take_whole c s) = (if p = 0 then n else firstChunk s)"
proof -
  note R = hset_rules [OF hs]
  show "h_size (fl_mem (take_whole c s)) b = h_size (fl_mem s) b"
    "h_next (fl_mem (take_whole c s)) b = (if b = p \<and> p \<noteq> 0 then n else h_next (fl_mem s) b)"
    "h_prev (fl_mem (take_whole c s)) b = (if b = n \<and> n \<noteq> 0 then p else h_prev (fl_mem s) b)"
    "firstChunk (take_whole c s) = (if p = 0 then n else firstChunk s)"
    using mem nx pr unfolding take_whole_def Let_def
    by (auto simp: R)
qed

lemma take_whole_frame:
  assumes hs: "hset S" and mem: "c \<in> S"
    and nx: "h_next (fl_mem s) c = n" "n = 0 \<or> n \<in> S \<and> n \<noteq> c"
    and pr: "h_prev (fl_mem s) c = p" "p = 0 \<or> p \<in> S \<and> p \<noteq> c"
    and x: "\<And>b. b \<in> S \<Longrightarrow> \<not> in_header b x"
  shows "fl_mem (take_whole c s) x = fl_mem s x"
proof -
  note R = hset_rules [OF hs]
  have F: "set_prev b v m x = m x" "set_next b v m x = m x" if "b \<in> S" for b v m
    using set_header_frame [of b x] hs x [OF that] that by (auto simp: hset_def)
  show ?thesis
    using mem nx pr unfolding take_whole_def Let_def by (auto simp: R F)
qed

lemma take_whole_same [simp]:
  "memoryStartAddress (take_whole c s) = memoryStartAddress s"
  "memoryEndAddress (take_whole c s) = memoryEndAddress s"
  "doUnmap (take_whole c s) = doUnmap s"
  "fl_lock (take_whole c s) = fl_lock s"
  "freeMemory (take_whole c s) = freeMemory s"
  by (simp_all add: take_whole_def Let_def)

section \<open>The neighbours of a chunk\<close>

lemma neighbours:
  assumes "chunks_in lo hi (xs @ (c, z) # ys)" "0 < lo"
  shows "first_of ys 0 = 0 \<or> first_of ys 0 \<in> addrs ys \<and> first_of ys 0 \<noteq> c"
    and "last_of 0 xs = 0 \<or> last_of 0 xs \<in> addrs xs \<and> last_of 0 xs \<noteq> c"
    and "first_of ys 0 = 0 \<longleftrightarrow> ys = []" "last_of 0 xs = 0 \<longleftrightarrow> xs = []"
    and "c \<notin> addrs xs" "c \<notin> addrs ys" "c \<noteq> 0"
proof -
  have d: "distinct (map fst (xs @ (c, z) # ys))" using assms(1) by (rule chunks_in_distinct)
  then show nin: "c \<notin> addrs xs" "c \<notin> addrs ys" by auto
  have nz: "0 \<notin> addrs (xs @ (c, z) # ys)" using assms by (rule chunks_in_nonzero)
  then show "c \<noteq> 0" by simp
  from nz have "0 \<notin> addrs xs" "0 \<notin> addrs ys" by auto
  then show z: "first_of ys 0 = 0 \<longleftrightarrow> ys = []" "last_of 0 xs = 0 \<longleftrightarrow> xs = []"
    by (simp_all add: first_of_zero last_of_zero)
  show "first_of ys 0 = 0 \<or> first_of ys 0 \<in> addrs ys \<and> first_of ys 0 \<noteq> c"
    using z first_of_in nin by metis
  show "last_of 0 xs = 0 \<or> last_of 0 xs \<in> addrs xs \<and> last_of 0 xs \<noteq> c"
    using z last_of_in nin by metis
qed

section \<open>The chain after a cut\<close>

lemma slice_chain:
  assumes inv: "fl_inv s (xs @ (c, z) # ys)" and room: "unat sz + 16 \<le> unat z"
  defines "sl \<equiv> c + HEADER_SIZE + sz" and "s' \<equiv> take_slice c sz s"
  shows "chunks_in (unat (memoryStartAddress s)) (unat (memoryEndAddress s))
           (xs @ (c, sz) # (sl, z - sz - HEADER_SIZE) # ys)"
    and "links (fl_mem s') 0 (xs @ (sl, z - sz - HEADER_SIZE) # ys) 0"
    and "firstChunk s' = first_of (xs @ (sl, z - sz - HEADER_SIZE) # ys) 0"
    and "h_size (fl_mem s') c = sz"
    and "outside (xs @ (c, z) # ys) x \<Longrightarrow> fl_mem s' x = fl_mem s x"
proof -
  let ?lo = "unat (memoryStartAddress s)" and ?hi = "unat (memoryEndAddress s)"
  let ?new = "xs @ (c, sz) # (sl, z - sz - HEADER_SIZE) # ys"
  let ?S = "addrs ?new"
  have lo: "0 < ?lo" and old: "chunks_in ?lo ?hi (xs @ (c, z) # ys)"
    and lk: "links (fl_mem s) 0 xs c" "links (fl_mem s) c ys 0" "h_prev (fl_mem s) c = last_of 0 xs"
      "h_next (fl_mem s) c = first_of ys 0" "h_size (fl_mem s) c = z"
    and fc: "firstChunk s = first_of (xs @ (c, z) # ys) 0"
    using inv by (auto simp: fl_inv_def)
  have hi: "?hi < 4294967296" using unsigned_less [of "memoryEndAddress s"] by simp
  have top: "unat c + 12 + unat z \<le> ?hi"
    using old chunks_in_mem [of ?lo ?hi _ "(c, z)"] by simp
  have us: "unat sl = unat c + 12 + unat sz"
  proof -
    have "unat (c + 12) = unat c + 12" using unat_add_u32 [of c 12] top room hi by simp
    then show ?thesis
      using unat_add_u32 [of "c + 12" sz] top room hi by (simp add: sl_def HEADER_SIZE_def)
  qed
  have uz: "unat (z - sz - HEADER_SIZE) = unat z - unat sz - 12"
    using room by (simp add: HEADER_SIZE_def unat_sub_u32 word_le_nat_alt)
  show new: "chunks_in ?lo ?hi ?new"
    using old room us uz unfolding chunks_in_mid by (auto simp: ac_simps)
  have hs: "hset ?S" using new hi by (rule chunks_in_hset)
  have d: "distinct (map fst ?new)" using new by (rule chunks_in_distinct)
  note nb = neighbours [OF old lo]
  have ne: "c \<noteq> sl" "sl \<notin> addrs xs" "sl \<notin> addrs ys" using d by auto
  have nx: "first_of ys 0 = 0 \<or> first_of ys 0 \<in> ?S \<and> first_of ys 0 \<noteq> sl"
    using nb(1) ne by auto
  have pr: "last_of 0 xs = 0 \<or> last_of 0 xs \<in> ?S \<and> last_of 0 xs \<noteq> sl"
    using nb(2) ne by auto
  note F = take_slice_fields [OF hs [unfolded sl_def] _ _ _ ne(1) [unfolded sl_def] lk(4) nx [unfolded sl_def]
      lk(3) pr [unfolded sl_def], folded sl_def s'_def]
  show "h_size (fl_mem s') c = sz" using F(1) [of c] by simp
  show "firstChunk s' = first_of (xs @ (sl, z - sz - HEADER_SIZE) # ys) 0"
    using F(4) [of c] nb(4) fc by (cases xs) simp_all
  have "links (fl_mem s') 0 xs sl"
  proof (rule links_retarget [OF lk(1)])
    fix b assume b: "b \<in> addrs xs"
    with d have "b \<noteq> c" "b \<noteq> sl" "b \<notin> addrs ys" by auto
    then have "\<not> (b = first_of ys 0 \<and> first_of ys 0 \<noteq> 0)" using nb(1) by auto
    moreover have "last_of 0 xs \<noteq> 0" using b nb(4) by auto
    ultimately show "h_prev (fl_mem s') b = h_prev (fl_mem s) b \<and> h_size (fl_mem s') b = h_size (fl_mem s) b
        \<and> h_next (fl_mem s') b = (if b = last_of 0 xs then sl else h_next (fl_mem s) b)"
      using F(1-3) [of b] b \<open>b \<noteq> c\<close> \<open>b \<noteq> sl\<close> by (simp add: image_Un; blast)
  qed (use d in simp)
  moreover have "links (fl_mem s') sl ys 0"
  proof (rule links_reprev [OF lk(2)])
    fix b assume b: "b \<in> addrs ys"
    with d have "b \<noteq> c" "b \<noteq> sl" "b \<notin> addrs xs" by auto
    then have "\<not> (b = last_of 0 xs \<and> last_of 0 xs \<noteq> 0)" using nb(2) by auto
    moreover have "first_of ys 0 \<noteq> 0" using b nb(3) by auto
    ultimately show "h_next (fl_mem s') b = h_next (fl_mem s) b \<and> h_size (fl_mem s') b = h_size (fl_mem s) b
        \<and> h_prev (fl_mem s') b = (if b = first_of ys 0 then sl else h_prev (fl_mem s) b)"
      using F(1-3) [of b] b \<open>b \<noteq> c\<close> \<open>b \<noteq> sl\<close> by (simp add: image_Un; blast)
  qed (use d in simp)
  ultimately show "links (fl_mem s') 0 (xs @ (sl, z - sz - HEADER_SIZE) # ys) 0"
    using F(1-3) [of sl] lk(5) ne(1) by simp
  show "fl_mem s' x = fl_mem s x" if out: "outside (xs @ (c, z) # ys) x"
    unfolding s'_def
  proof (rule take_slice_frame [OF hs [unfolded sl_def] _ _ ne(1) [unfolded sl_def] lk(4) nx [unfolded sl_def]
        lk(3) pr [unfolded sl_def]])
    fix b assume "b \<in> addrs (xs @ (c, sz) # (c + HEADER_SIZE + sz, z - sz - HEADER_SIZE) # ys)"
    with out us room show "\<not> in_header b x"
      by (force simp: outside_def in_header_def sl_def)
  qed auto
qed

lemma whole_chain:
  assumes inv: "fl_inv s (xs @ (c, z) # ys)"
  defines "s' \<equiv> take_whole c s"
  shows "links (fl_mem s') 0 (xs @ ys) 0"
    and "firstChunk s' = first_of (xs @ ys) 0"
    and "h_size (fl_mem s') c = z"
    and "outside (xs @ (c, z) # ys) x \<Longrightarrow> fl_mem s' x = fl_mem s x"
proof -
  let ?lo = "unat (memoryStartAddress s)" and ?hi = "unat (memoryEndAddress s)"
  let ?S = "addrs (xs @ (c, z) # ys)"
  have lo: "0 < ?lo" and old: "chunks_in ?lo ?hi (xs @ (c, z) # ys)"
    and lk: "links (fl_mem s) 0 xs c" "links (fl_mem s) c ys 0" "h_prev (fl_mem s) c = last_of 0 xs"
      "h_next (fl_mem s) c = first_of ys 0" "h_size (fl_mem s) c = z"
    and fc: "firstChunk s = first_of (xs @ (c, z) # ys) 0"
    using inv by (auto simp: fl_inv_def)
  have hi: "?hi < 4294967296" using unsigned_less [of "memoryEndAddress s"] by simp
  have hs: "hset ?S" using old hi by (rule chunks_in_hset)
  have d: "distinct (map fst (xs @ (c, z) # ys))" using old by (rule chunks_in_distinct)
  note nb = neighbours [OF old lo]
  have nx: "first_of ys 0 = 0 \<or> first_of ys 0 \<in> ?S \<and> first_of ys 0 \<noteq> c" using nb(1) by auto
  have pr: "last_of 0 xs = 0 \<or> last_of 0 xs \<in> ?S \<and> last_of 0 xs \<noteq> c" using nb(2) by auto
  note F = take_whole_fields [OF hs _ _ lk(4) nx lk(3) pr, folded s'_def]
  show "h_size (fl_mem s') c = z" using F(1) [of c] lk(5) by simp
  show "firstChunk s' = first_of (xs @ ys) 0"
    using F(4) [of c] nb(4) fc by (cases xs) simp_all
  have "links (fl_mem s') 0 xs (first_of ys 0)"
  proof (rule links_retarget [OF lk(1)])
    fix b assume b: "b \<in> addrs xs"
    with d have "b \<noteq> c" "b \<notin> addrs ys" by auto
    then have "\<not> (b = first_of ys 0 \<and> first_of ys 0 \<noteq> 0)" using nb(1) by auto
    moreover have "last_of 0 xs \<noteq> 0" using b nb(4) by auto
    ultimately show "h_prev (fl_mem s') b = h_prev (fl_mem s) b \<and> h_size (fl_mem s') b = h_size (fl_mem s) b
        \<and> h_next (fl_mem s') b = (if b = last_of 0 xs then first_of ys 0 else h_next (fl_mem s) b)"
      using F(1-3) [of b] b \<open>b \<noteq> c\<close> by (simp add: image_Un; blast)
  qed (use d in simp)
  moreover have "links (fl_mem s') (last_of 0 xs) ys 0"
  proof (rule links_reprev [OF lk(2)])
    fix b assume b: "b \<in> addrs ys"
    with d have "b \<noteq> c" "b \<notin> addrs xs" by auto
    then have "\<not> (b = last_of 0 xs \<and> last_of 0 xs \<noteq> 0)" using nb(2) by auto
    moreover have "first_of ys 0 \<noteq> 0" using b nb(3) by auto
    ultimately show "h_next (fl_mem s') b = h_next (fl_mem s) b \<and> h_size (fl_mem s') b = h_size (fl_mem s) b
        \<and> h_prev (fl_mem s') b = (if b = first_of ys 0 then last_of 0 xs else h_prev (fl_mem s) b)"
      using F(1-3) [of b] b \<open>b \<noteq> c\<close> by (simp add: image_Un; blast)
  qed (use d in simp)
  ultimately show "links (fl_mem s') 0 (xs @ ys) 0" by simp
  show "fl_mem s' x = fl_mem s x" if out: "outside (xs @ (c, z) # ys) x"
    unfolding s'_def
  proof (rule take_whole_frame [OF hs _ lk(4) nx lk(3) pr])
    fix b assume "b \<in> ?S"
    with out show "\<not> in_header b x" by (force simp: outside_def in_header_def)
  qed auto
qed

lemma chunks_in_remove: "chunks_in lo hi (xs @ c # ys) \<Longrightarrow> chunks_in lo hi (xs @ ys)"
  unfolding chunks_in_append
  using chunks_in_mono [of _ "unat (fst c) + 12 + unat (snd c)" hi ys] by fastforce

lemma links_detach:
  assumes "hset S" "addrs cs \<subseteq> S" "c \<in> S" "c \<notin> addrs cs"
  shows "links ((set_prev c 0 \<circ> set_next c 0) m) 0 cs 0 = links m 0 cs 0"
proof (rule links_cong)
  fix b assume "b \<in> addrs cs"
  with assms have "b \<in> S" "b \<noteq> c" by auto
  with assms(3) show "h_prev ((set_prev c 0 \<circ> set_next c 0) m) b = h_prev m b
      \<and> h_next ((set_prev c 0 \<circ> set_next c 0) m) b = h_next m b
      \<and> h_size ((set_prev c 0 \<circ> set_next c 0) m) b = h_size m b"
    by (simp add: hset_rules [OF assms(1)])
qed

section \<open>The whole algorithm\<close>

lemma allocAlgorithm_take_chunk:
  assumes "sz0 \<noteq> 0" "alloc_search (alignUp sz0 4) al (fl_mem s) (firstChunk s) = Some (fl_mem s, c)"
  shows "allocAlgorithm s sz0 al (firstChunk s) =
           Some (if c = 0 then (s, 0) else (take_chunk c (alignUp sz0 4) s, c + HEADER_SIZE))"
  using assms by (simp add: allocAlgorithm_def Let_def)

lemma take_chunk_inv:
  assumes inv: "fl_inv s (xs @ (c, z) # ys)" and le: "sz \<le> z"
  defines "s' \<equiv> take_chunk c sz s"
    and "cs' \<equiv> xs @ (if z - sz \<ge> 16 then (c + 12 + sz, z - sz - 12) # ys else ys)"
  shows "fl_inv s' cs'"
    and "h_size (fl_mem s') c = (if z - sz \<ge> 16 then sz else z)"
    and "outside (xs @ (c, z) # ys) x \<Longrightarrow> fl_mem s' x = fl_mem s x"
    and "doUnmap s' = doUnmap s" "fl_lock s' = fl_lock s"
      "memoryStartAddress s' = memoryStartAddress s" "memoryEndAddress s' = memoryEndAddress s"
    and "h_prev (fl_mem s') c = 0" "h_next (fl_mem s') c = 0"
    and "chunks_in (unat (memoryStartAddress s)) (unat (memoryEndAddress s))
      (if z - sz \<ge> 16 then xs @ (c, sz) # (c + 12 + sz, z - sz - 12) # ys else xs @ (c, z) # ys)"
proof -
  let ?lo = "unat (memoryStartAddress s)" and ?hi = "unat (memoryEndAddress s)"
  let ?new = "if z - sz \<ge> 16 then xs @ (c, sz) # (c + 12 + sz, z - sz - 12) # ys else xs @ (c, z) # ys"
  let ?s2 = "if z - sz \<ge> 16 then take_slice c sz s else take_whole c s"
  have hz: "h_size (fl_mem s) c = z" and lo: "0 < ?lo" and fm: "freeMemory s = sum_list (map snd (xs @ (c, z) # ys))"
    and old: "chunks_in ?lo ?hi (xs @ (c, z) # ys)" using inv by (auto simp: fl_inv_def)
  have room: "unat sz + 16 \<le> unat z" if "z - sz \<ge> 16"
    using that le by (simp add: word_le_nat_alt unat_sub_u32)
  have hi: "?hi < 4294967296" using unsigned_less [of "memoryEndAddress s"] by simp
  show new: "chunks_in ?lo ?hi ?new"
    using slice_chain(1) [OF inv room] old by (simp add: HEADER_SIZE_def)
  have hs: "hset (addrs ?new)" using new hi by (rule chunks_in_hset)
  have d: "distinct (map fst ?new)" using new by (rule chunks_in_distinct)
  have c: "c \<in> addrs ?new" "c \<notin> addrs cs'" "addrs cs' \<subseteq> addrs ?new"
    using d by (auto simp: cs'_def split: if_splits)
  have lk: "links (fl_mem ?s2) 0 cs' 0" "firstChunk ?s2 = first_of cs' 0"
      "h_size (fl_mem ?s2) c = (if z - sz \<ge> 16 then sz else z)"
    using slice_chain(2-4) [OF inv room] whole_chain(1-3) [OF inv]
    by (auto simp: cs'_def HEADER_SIZE_def)
  have s': "s' = (upd_mem (set_prev c 0 \<circ> set_next c 0) ?s2)
      \<lparr>freeMemory := freeMemory ?s2 - h_size ((set_prev c 0 \<circ> set_next c 0) (fl_mem ?s2)) c\<rparr>"
    by (simp add: s'_def take_chunk_def hz HEADER_SIZE_def MIN_BLOCK_SIZE_def Let_def)
  have sz: "h_size ((set_prev c 0 \<circ> set_next c 0) (fl_mem ?s2)) c = (if z - sz \<ge> 16 then sz else z)"
    using lk(3) c(1) by (simp only: o_apply hset_rules [OF hs])
  have "h_prev ((set_prev c 0 \<circ> set_next c 0) m) c = 0" "h_next ((set_prev c 0 \<circ> set_next c 0) m) c = 0" for m
    using c(1) by (simp_all only: o_apply hset_rules [OF hs] if_True simp_thms)
  then show "h_prev (fl_mem s') c = 0" "h_next (fl_mem s') c = 0" by (simp_all add: s')
  from sz show "h_size (fl_mem s') c = (if z - sz \<ge> 16 then sz else z)" by (simp add: s')
  show "doUnmap s' = doUnmap s" "fl_lock s' = fl_lock s"
    "memoryStartAddress s' = memoryStartAddress s" "memoryEndAddress s' = memoryEndAddress s"
    by (simp_all add: s')
  note same = this
  have "chunks_in ?lo ?hi cs'"
    using chunks_in_remove [of ?lo ?hi xs "(c, sz)"] chunks_in_remove [OF old] new
    by (auto simp: cs'_def split: if_splits)
  moreover have "links (fl_mem s') 0 cs' 0"
    using links_detach [OF hs c(3) c(1) c(2)] lk(1) by (simp add: s')
  moreover have "firstChunk s' = first_of cs' 0" using lk(2) by (simp add: s')
  moreover have "freeMemory s' = sum_list (map snd cs')"
    using sz fm by (simp add: s' cs'_def HEADER_SIZE_def)
  ultimately show "fl_inv s' cs'" using lo same by (simp add: fl_inv_def)
  show "fl_mem s' x = fl_mem s x" if out: "outside (xs @ (c, z) # ys) x"
  proof -
    have "\<not> in_header c x" using out by (auto simp: outside_def in_header_def)
    moreover have "hdr_ok c" using hs c(1) by (auto simp: hset_def)
    ultimately show ?thesis
      using slice_chain(5) [OF inv room out] whole_chain(4) [OF inv out]
      by (simp add: s' set_header_frame)
  qed
qed

lemma spec_alloc_hit:
  assumes "dropWhile (\<lambda>c. snd c < sz) cs = (c, z) # ys"
  shows "cs = takeWhile (\<lambda>c. snd c < sz) cs @ (c, z) # ys" "sz \<le> z"
    and "spec_alloc sz cs =
      (takeWhile (\<lambda>c. snd c < sz) cs
         @ (if z - sz \<ge> 16 then (c + 12 + sz, z - sz - 12) # ys else ys), c + 12)"
proof -
  show "cs = takeWhile (\<lambda>c. snd c < sz) cs @ (c, z) # ys"
    using assms takeWhile_dropWhile_id [of "\<lambda>c. snd c < sz" cs] by simp
  have "\<not> snd (c, z) < sz"
    using assms hd_dropWhile [of "\<lambda>c. snd c < sz" cs] by (metis list.distinct(1) list.sel(1))
  then show "sz \<le> z" by simp
  show "spec_alloc sz cs =
      (takeWhile (\<lambda>c. snd c < sz) cs
         @ (if z - sz \<ge> 16 then (c + 12 + sz, z - sz - 12) # ys else ys), c + 12)"
    by (simp only: spec_alloc_def assms list.case prod.case)
qed

lemma FreeList_alloc_eq:
  assumes ok: "fl_ok s cs" and "0 < sz0"
  shows "FreeList_alloc s sz0 = Some
    (case dropWhile (\<lambda>c. snd c < alignUp sz0 4) cs of
       [] \<Rightarrow> (s, 0)
     | (c, z) # ys \<Rightarrow> (lock_release (take_chunk c (alignUp sz0 4) (s\<lparr>fl_lock := True\<rparr>)), c + 12))"
proof -
  let ?sz = "alignUp sz0 4" and ?s1 = "s\<lparr>fl_lock := True\<rparr>"
  have inv: "fl_inv ?s1 cs" and acq: "lock_acquire s = Some ?s1" and rel: "lock_release ?s1 = s"
    using ok by (auto simp: fl_ok_def fl_inv_def lock_acquire_def lock_release_def)
  have nz: "0 \<notin> addrs cs" and lk: "links (fl_mem ?s1) 0 cs 0" and fc: "firstChunk ?s1 = first_of cs 0"
    using inv chunks_in_nonzero [of _ _ cs] by (auto simp: fl_inv_def)
  have search: "alloc_search ?sz 0 (fl_mem ?s1) (firstChunk ?s1)
      = Some (fl_mem ?s1, first_of (dropWhile (\<lambda>c. snd c < ?sz) cs) 0)"
    unfolding fc by (rule alloc_search_links [OF lk nz])
  have alg: "FreeList_alloc s sz0 = map_option (\<lambda>(s2, r). (lock_release s2, r))
      (allocAlgorithm ?s1 sz0 0 (firstChunk ?s1))"
    unfolding FreeList_alloc_def FreeList_alloc_aligned_def acq
    by (simp add: map_option_case Option.bind_def split: option.split)
  have "sz0 \<noteq> 0" using assms(2) by simp
  note run = alg [unfolded allocAlgorithm_take_chunk [OF this search]]
  show ?thesis
  proof (cases "dropWhile (\<lambda>c. snd c < ?sz) cs")
    case Nil
    then show ?thesis using run rel unfolding Nil by simp
  next
    case (Cons d ys)
    then have "d \<in> set cs" by (metis list.set_intros(1) set_dropWhileD)
    then have "fst d \<noteq> 0" using nz by (metis image_eqI)
    then show ?thesis using run unfolding Cons by (simp add: HEADER_SIZE_def split: prod.split)
  qed
qed

lemma FreeList_alloc_spec:
  assumes ok: "fl_ok s cs" and "0 < sz0"
  obtains s' where "FreeList_alloc s sz0 = Some (s', snd (spec_alloc (alignUp sz0 4) cs))"
    "fl_ok s' (fst (spec_alloc (alignUp sz0 4) cs))"
    "\<And>x. outside cs x \<Longrightarrow> fl_mem s' x = fl_mem s x"
proof -
  let ?sz = "alignUp sz0 4" and ?s1 = "s\<lparr>fl_lock := True\<rparr>"
  note run = FreeList_alloc_eq [OF assms]
  show thesis
  proof (cases "dropWhile (\<lambda>c. snd c < ?sz) cs")
    case Nil
    then have "FreeList_alloc s sz0 = Some (s, 0)" "spec_alloc ?sz cs = (cs, 0)"
      using run unfolding spec_alloc_def Nil by simp_all
    then show thesis using that ok by simp
  next
    case (Cons d ys)
    obtain c z where d: "d = (c, z)" by (cases d)
    let ?xs = "takeWhile (\<lambda>c. snd c < ?sz) cs"
    note hit = spec_alloc_hit [OF Cons [unfolded d]]
    have inv': "fl_inv ?s1 (?xs @ (c, z) # ys)"
      using ok hit(1) by (simp add: fl_ok_def fl_inv_def)
    note T = take_chunk_inv [OF inv' hit(2)]
    have res: "FreeList_alloc s sz0 = Some (lock_release (take_chunk c ?sz ?s1), snd (spec_alloc ?sz cs))"
      using run hit(3) unfolding Cons d by simp
    show thesis
    proof (rule that [OF res])
      show "fl_ok (lock_release (take_chunk c ?sz ?s1)) (fst (spec_alloc ?sz cs))"
        using T(1) unfolding hit(3) fst_conv by (simp add: fl_ok_def lock_release_def fl_inv_def)
      show "fl_mem (lock_release (take_chunk c ?sz ?s1)) x = fl_mem s x" if "outside cs x" for x
        using T(3) [of x] that hit(1) by (simp add: lock_release_def)
    qed
  qed
qed

end
