(* ===== verification/Free_List_Free.thy ===== *)
theory Free_List_Free
  imports Free_List_Chain
begin

text \<open>
  Freeing: \<open>freeAlgorithm\<close> and \<open>merge\<close> refine \<open>spec_free\<close>, which inserts the block
  into the address ordered list of chunks and joins it with its neighbours.
\<close>

section \<open>Specification\<close>

fun join_right :: "chunk \<Rightarrow> chunk list \<Rightarrow> chunk list" where
  "join_right c [] = [c]"
| "join_right c (d # ds) =
     (if fst c + 12 + snd c = fst d then (fst c, snd c + (snd d + 12)) # ds else c # d # ds)"

text \<open>The list that \<open>merge\<close> leaves behind when the freed chunk stands between \<open>xs\<close> and \<open>ys\<close>.\<close>

definition merged_list :: "chunk list \<Rightarrow> chunk \<Rightarrow> chunk list \<Rightarrow> chunk list" where
  "merged_list xs c ys =
     (if xs = [] then join_right c ys else butlast xs @ join_right (last xs) (join_right c ys))"

definition spec_free :: "chunk \<Rightarrow> chunk list \<Rightarrow> chunk list" where
  "spec_free c cs =
     (let xs = takeWhile (\<lambda>d. fst d < fst c) cs; ys = dropWhile (\<lambda>d. fst d < fst c) cs
      in merged_list xs c ys)"

section \<open>Joining two neighbours\<close>

lemma absorb_next_fields:
  assumes hs: "hset S" and mem: "a \<in> S" "n \<in> S" "b \<in> S" and ne: "a \<noteq> n"
    and nx: "h_next (fl_mem s) a = n"
    and nn: "h_next (fl_mem s) n = k" "k = 0 \<or> k \<in> S \<and> k \<noteq> a \<and> k \<noteq> n"
  shows "h_size (fl_mem (absorb_next a s)) b =
      (if b = a then h_size (fl_mem s) a + (h_size (fl_mem s) n + 12) else h_size (fl_mem s) b)"
    and "h_next (fl_mem (absorb_next a s)) b = (if b = a then k else h_next (fl_mem s) b)"
    and "h_prev (fl_mem (absorb_next a s)) b = (if b = k \<and> k \<noteq> 0 then a else h_prev (fl_mem s) b)"
proof -
  note R = hset_rules [OF hs]
  show "h_size (fl_mem (absorb_next a s)) b =
      (if b = a then h_size (fl_mem s) a + (h_size (fl_mem s) n + 12) else h_size (fl_mem s) b)"
    "h_next (fl_mem (absorb_next a s)) b = (if b = a then k else h_next (fl_mem s) b)"
    "h_prev (fl_mem (absorb_next a s)) b = (if b = k \<and> k \<noteq> 0 then a else h_prev (fl_mem s) b)"
    using mem ne nx nn unfolding absorb_next_def Let_def
    by (auto simp: R HEADER_SIZE_def)
qed

lemma absorb_next_same [simp]:
  "memoryStartAddress (absorb_next c s) = memoryStartAddress s"
  "memoryEndAddress (absorb_next c s) = memoryEndAddress s"
  "doUnmap (absorb_next c s) = doUnmap s"
  "fl_lock (absorb_next c s) = fl_lock s"
  "firstChunk (absorb_next c s) = firstChunk s"
  "freeMemory (absorb_next c s) = freeMemory s + 12"
  by (simp_all add: absorb_next_def Let_def HEADER_SIZE_def)

lemma absorb_next_frame:
  assumes hs: "hset S" and mem: "a \<in> S" "n \<in> S" and ne: "a \<noteq> n"
    and nx: "h_next (fl_mem s) a = n"
    and nn: "h_next (fl_mem s) n = k" "k = 0 \<or> k \<in> S \<and> k \<noteq> a \<and> k \<noteq> n"
    and x: "\<And>b. b \<in> S \<Longrightarrow> \<not> in_header b x"
  shows "fl_mem (absorb_next a s) x = fl_mem s x"
proof -
  note R = hset_rules [OF hs]
  have F: "set_prev b v m x = m x" "set_next b v m x = m x" "set_size b v m x = m x"
    if "b \<in> S" for b v m
    using set_header_frame [of b x] hs x [OF that] that by (auto simp: hset_def)
  show ?thesis
    using mem ne nx nn unfolding absorb_next_def Let_def by (auto simp: R F)
qed

lemma joined_end:
  assumes "unat (a :: u32) + 12 + unat (y :: u32) = unat (b :: u32)" "unat b + 12 + unat (z :: u32) < 4294967296"
  shows "unat a + 12 + unat (y + (z + 12)) = unat b + 12 + unat z"
proof -
  have "unat (z + 12) = unat z + 12" using unat_add_u32 [of z 12] assms by simp
  then show ?thesis using unat_add_u32 [of y "z + 12"] assms by simp
qed

lemma absorb_chain:
  assumes inv: "fl_inv s (xs @ (a, y) # (b, z) # ys)" and adj: "unat a + 12 + unat y = unat b"
  defines "s' \<equiv> absorb_next a s"
  shows "fl_inv s' (xs @ (a, y + (z + 12)) # ys)"
    and "outside (xs @ (a, y) # (b, z) # ys) x \<Longrightarrow> fl_mem s' x = fl_mem s x"
    and "outside (xs @ (a, y) # (b, z) # ys) x \<Longrightarrow> outside (xs @ (a, y + (z + 12)) # ys) x"
proof -
  let ?lo = "unat (memoryStartAddress s)" and ?hi = "unat (memoryEndAddress s)"
  let ?cs = "xs @ (a, y) # (b, z) # ys" and ?z = "y + (z + 12)"
  let ?S = "addrs ?cs"
  have lo: "0 < ?lo" and old: "chunks_in ?lo ?hi ?cs"
    and lk: "links (fl_mem s) 0 xs a" "links (fl_mem s) b ys 0" "h_prev (fl_mem s) a = last_of 0 xs"
      "h_next (fl_mem s) a = b" "h_next (fl_mem s) b = first_of ys 0"
      "h_size (fl_mem s) a = y" "h_size (fl_mem s) b = z"
    and fc: "firstChunk s = first_of ?cs 0" and fm: "freeMemory s = sum_list (map snd ?cs)"
    using inv by (auto simp: fl_inv_def)
  have hi: "?hi < 4294967296" using unsigned_less [of "memoryEndAddress s"] by simp
  have top: "unat b + 12 + unat z \<le> ?hi" using old chunks_in_mem [of ?lo ?hi _ "(b, z)"] by simp
  have e: "unat a + 12 + unat ?z = unat b + 12 + unat z" using adj top hi by (intro joined_end) linarith+
  have hs: "hset ?S" using old hi by (rule chunks_in_hset)
  have d: "distinct (map fst ?cs)" using old by (rule chunks_in_distinct)
  have nz: "0 \<notin> ?S" using old lo by (rule chunks_in_nonzero)
  have nn: "first_of ys 0 = 0 \<or> first_of ys 0 \<in> ?S \<and> first_of ys 0 \<noteq> a \<and> first_of ys 0 \<noteq> b"
    "first_of ys 0 = 0 \<longleftrightarrow> ys = []" "first_of ys 0 = 0 \<or> first_of ys 0 \<in> addrs ys"
    using d nz first_of_in [of ys 0] first_of_zero [of ys] by (auto simp: image_Un)
  have ne: "a \<noteq> b" using d by auto
  note F = absorb_next_fields [OF hs _ _ _ ne lk(4,5) nn(1), folded s'_def]
  have "links (fl_mem s') 0 xs a \<longleftrightarrow> links (fl_mem s) 0 xs a"
  proof (rule links_cong)
    fix b' assume b: "b' \<in> addrs xs"
    with d have "b' \<noteq> a" "b' \<notin> addrs ys" by auto
    then have "\<not> (b' = first_of ys 0 \<and> first_of ys 0 \<noteq> 0)" using nn(3) by auto
    then show "h_prev (fl_mem s') b' = h_prev (fl_mem s) b' \<and> h_next (fl_mem s') b' = h_next (fl_mem s) b'
        \<and> h_size (fl_mem s') b' = h_size (fl_mem s) b'"
      using F [of b'] b \<open>b' \<noteq> a\<close> by (simp add: image_Un; blast)
  qed
  moreover have "links (fl_mem s') a ys 0"
  proof (rule links_reprev [OF lk(2)])
    fix b' assume b: "b' \<in> addrs ys"
    with d have "b' \<noteq> a" "first_of ys 0 \<noteq> 0" using nn(2) by auto
    then show "h_next (fl_mem s') b' = h_next (fl_mem s) b' \<and> h_size (fl_mem s') b' = h_size (fl_mem s) b'
        \<and> h_prev (fl_mem s') b' = (if b' = first_of ys 0 then a else h_prev (fl_mem s) b')"
      using F [of b'] b by (simp add: image_Un)
  qed (use d in simp)
  moreover have "h_prev (fl_mem s') a = last_of 0 xs" using F(3) [of a] lk(3) nn(1) by auto
  ultimately have "links (fl_mem s') 0 (xs @ (a, ?z) # ys) 0"
    using F(1,2) [of a] lk by simp
  moreover have "chunks_in ?lo ?hi (xs @ (a, ?z) # ys)"
    using old unfolding chunks_in_mid e by simp
  moreover have "firstChunk s' = first_of (xs @ (a, ?z) # ys) 0"
    using fc by (cases xs) (simp_all add: s'_def)
  moreover have "freeMemory s' = sum_list (map snd (xs @ (a, ?z) # ys))"
    using fm by (simp add: s'_def)
  ultimately show "fl_inv s' (xs @ (a, ?z) # ys)" using lo by (simp add: fl_inv_def s'_def)
  show "outside (xs @ (a, ?z) # ys) x" if "outside ?cs x"
    using that e adj by (auto simp: outside_def)
  show "fl_mem s' x = fl_mem s x" if out: "outside ?cs x"
    unfolding s'_def
  proof (rule absorb_next_frame [OF hs _ _ ne lk(4,5) nn(1)])
    fix b' assume "b' \<in> ?S"
    with out show "\<not> in_header b' x" by (force simp: outside_def in_header_def)
  qed auto
qed

section \<open>Linking the freed block\<close>

lemma links_insert:
  assumes lk: "links m 0 (xs @ ys) 0" and d: "distinct (map fst (xs @ (h, z) # ys))"
    and nz: "0 \<notin> addrs (xs @ (h, z) # ys)" and hz: "h_size m' h = z"
    and pv: "h_prev m' h = last_of 0 xs" and nx: "h_next m' h = first_of ys 0"
    and oth: "\<And>b. b \<in> addrs (xs @ ys) \<Longrightarrow> h_size m' b = h_size m b
        \<and> h_next m' b = (if b = last_of 0 xs then h else h_next m b)
        \<and> h_prev m' b = (if b = first_of ys 0 then h else h_prev m b)"
  shows "links m' 0 (xs @ (h, z) # ys) 0"
proof -
  have n: "first_of ys 0 = 0 \<or> first_of ys 0 \<in> addrs ys" "last_of 0 xs = 0 \<or> last_of 0 xs \<in> addrs xs"
    using first_of_in [of ys 0] last_of_in [of xs 0] by (cases ys; cases xs; simp)+
  have "links m' 0 xs h"
  proof (rule links_retarget)
    show "links m 0 xs (first_of ys 0)" using lk by simp
    fix b assume b: "b \<in> addrs xs"
    with d nz have "b \<notin> addrs ys" "b \<noteq> 0" by (auto simp: image_Un)
    with n have "b \<noteq> first_of ys 0" by auto
    then show "h_prev m' b = h_prev m b \<and> h_size m' b = h_size m b
        \<and> h_next m' b = (if b = last_of 0 xs then h else h_next m b)"
      using oth [of b] b by (simp add: image_Un)
  qed (use d in simp)
  moreover have "links m' h ys 0"
  proof (rule links_reprev)
    show "links m (last_of 0 xs) ys 0" using lk by simp
    fix b assume b: "b \<in> addrs ys"
    with d nz have "b \<notin> addrs xs" "b \<noteq> 0" by (auto simp: image_Un)
    with n have "b \<noteq> last_of 0 xs" by auto
    then show "h_next m' b = h_next m b \<and> h_size m' b = h_size m b
        \<and> h_prev m' b = (if b = first_of ys 0 then h else h_prev m b)"
      using oth [of b] b by (simp add: image_Un)
  qed (use d in simp)
  ultimately show ?thesis using hz pv nx by simp
qed

lemma link_after_fields:
  assumes hs: "hset S" and mem: "h \<in> S" "t \<in> S" "h \<noteq> t" "0 \<notin> S"
    and nx: "h_next m t = n" "n = 0 \<or> n \<in> S \<and> n \<noteq> h \<and> n \<noteq> t"
  shows "b \<in> S \<Longrightarrow> h_size (link_after h t m) b = h_size m b"
    and "b \<in> S \<Longrightarrow> h_next (link_after h t m) b = (if b = t then h else if b = h then n else h_next m b)"
    and "b \<in> S \<Longrightarrow> h_prev (link_after h t m) b = (if b = h then t else if b = n then h else h_prev m b)"
    and "(\<And>b. b \<in> S \<Longrightarrow> \<not> in_header b x) \<Longrightarrow> link_after h t m x = m x"
proof -
  note R = hset_rules [OF hs]
  show "h_size (link_after h t m) b = h_size m b"
    "h_next (link_after h t m) b = (if b = t then h else if b = h then n else h_next m b)"
    "h_prev (link_after h t m) b = (if b = h then t else if b = n then h else h_prev m b)"
    if "b \<in> S"
    using that mem nx unfolding link_after_def Let_def by (auto simp: R)
  show "link_after h t m x = m x" if x: "\<And>b. b \<in> S \<Longrightarrow> \<not> in_header b x"
  proof -
    have F: "set_prev b v m x = m x" "set_next b v m x = m x" if "b \<in> S" for b v m
      using set_header_frame [of b x] hs x [OF that] that by (auto simp: hset_def)
    show ?thesis using mem nx unfolding link_after_def Let_def by (auto simp: R F)
  qed
qed

lemma link_after_chain:
  assumes lk: "links m 0 (xs @ (t, y) # ys) 0" and hs: "hset (addrs (xs @ (t, y) # (h, z) # ys))"
    and d: "distinct (map fst (xs @ (t, y) # (h, z) # ys))"
    and nz: "0 \<notin> addrs (xs @ (t, y) # (h, z) # ys)" and hz: "h_size m h = z"
  shows "links (link_after h t m) 0 (xs @ (t, y) # (h, z) # ys) 0"
    and "(\<And>b. b \<in> addrs (xs @ (t, y) # (h, z) # ys) \<Longrightarrow> \<not> in_header b x) \<Longrightarrow> link_after h t m x = m x"
proof -
  let ?S = "addrs (xs @ (t, y) # (h, z) # ys)"
  have mem: "h \<in> ?S" "t \<in> ?S" "h \<noteq> t" using d by auto
  have nx: "h_next m t = first_of ys 0" using lk by simp
  have n: "first_of ys 0 = 0 \<or> first_of ys 0 \<in> ?S \<and> first_of ys 0 \<noteq> h \<and> first_of ys 0 \<noteq> t"
    using first_of_in [of ys 0] d by (cases ys) auto
  note fields = link_after_fields [OF hs mem nz nx n]
  have "links (link_after h t m) 0 ((xs @ [(t, y)]) @ (h, z) # ys) 0"
  proof (rule links_insert [of m])
    fix b assume b: "b \<in> addrs ((xs @ [(t, y)]) @ ys)"
    then have "b \<in> ?S" "b \<noteq> h" using d by auto
    then show "h_size (link_after h t m) b = h_size m b
        \<and> h_next (link_after h t m) b = (if b = last_of 0 (xs @ [(t, y)]) then h else h_next m b)
        \<and> h_prev (link_after h t m) b = (if b = first_of ys 0 then h else h_prev m b)"
      using fields(1-3) [of b] by simp
  qed (use lk d nz hz fields(1-3) [of h] mem in simp_all)
  then show "links (link_after h t m) 0 (xs @ (t, y) # (h, z) # ys) 0" by simp
  show "link_after h t m x = m x" if "\<And>b. b \<in> ?S \<Longrightarrow> \<not> in_header b x"
    by (rule fields(4)) (rule that)
qed

lemma link_front_chain:
  assumes lk: "links m 0 ys 0" and "ys \<noteq> []" and hs: "hset (addrs ((h, z) # ys))"
    and d: "distinct (map fst ((h, z) # ys))"
    and nz: "0 \<notin> addrs ((h, z) # ys)" and hz: "h_size m h = z"
  defines "m' \<equiv> (set_prev (first_of ys 0) h \<circ> set_prev h 0 \<circ> set_next h (first_of ys 0)) m"
  shows "links m' 0 ((h, z) # ys) 0"
    and "(\<And>b. b \<in> addrs ((h, z) # ys) \<Longrightarrow> \<not> in_header b x) \<Longrightarrow> m' x = m x"
proof -
  define S where S: "S = addrs ((h, z) # ys)"
  have hs': "hset S" using hs by (simp only: S)
  note R = hset_rules [OF hs']
  have mem: "h \<in> S" by (simp add: S)
  have n: "first_of ys 0 \<in> S" "first_of ys 0 \<noteq> h"
    using first_of_in [of ys 0] d assms(2) by (auto simp: S)
  have fields: "h_size m' b = h_size m b" "h_next m' b = (if b = h then first_of ys 0 else h_next m b)"
    "h_prev m' b = (if b = h then 0 else if b = first_of ys 0 then h else h_prev m b)" if "b \<in> S" for b
    using that n mem unfolding m'_def o_apply by (auto simp: R)
  have "links m' 0 ([] @ (h, z) # ys) 0"
  proof (rule links_insert [of m])
    fix b assume "b \<in> addrs ([] @ ys)"
    then have "b \<in> S" "b \<noteq> h" "b \<noteq> 0" using d nz by (auto simp: S)
    then show "h_size m' b = h_size m b
        \<and> h_next m' b = (if b = last_of 0 [] then h else h_next m b)
        \<and> h_prev m' b = (if b = first_of ys 0 then h else h_prev m b)"
      using fields [of b] by simp
  qed (use lk d nz hz fields [of h] mem in simp_all)
  then show "links m' 0 ((h, z) # ys) 0" by simp
  show "m' x = m x" if x: "\<And>b. b \<in> addrs ((h, z) # ys) \<Longrightarrow> \<not> in_header b x"
  proof -
    have F: "set_prev b v m x = m x" "set_next b v m x = m x" if "b \<in> S" for b v m
      using set_header_frame [of b x] hs' x [of b] that S by (auto simp: hset_def)
    show ?thesis using mem n unfolding m'_def o_apply by (simp add: F)
  qed
qed

lemma insert_search_links:
  assumes "links m pv (xs @ (t, y) # ys) 0" "0 \<notin> addrs (xs @ (t, y) # ys)"
    and "\<And>c. c \<in> set (xs @ [(t, y)]) \<Longrightarrow> fst c < h" "ys \<noteq> [] \<Longrightarrow> h < first_of ys 0"
  shows "insert_search h m (first_of (xs @ (t, y) # ys) 0) = Some (link_after h t m)"
  using assms
proof (induction xs arbitrary: pv)
  case Nil
  have "h_next m t = first_of ys 0" "t \<noteq> 0" "t < h" using Nil.prems by auto
  moreover have "h < first_of ys 0 \<or> first_of ys 0 = 0" using Nil.prems(4) by (cases ys) auto
  ultimately show ?case by (subst insert_search.simps) simp
next
  case (Cons x xs)
  let ?n = "first_of (xs @ (t, y) # ys) 0"
  have n: "h_next m (fst x) = ?n" "fst x \<noteq> 0" using Cons.prems by auto
  have "?n \<in> addrs (xs @ [(t, y)])" by (cases xs) auto
  then have "?n < h" "?n \<noteq> 0" using Cons.prems by (force simp: image_Un)+
  then have "\<not> h < ?n" by simp
  then have "insert_search h m (fst x) = insert_search h m ?n"
    using n \<open>?n \<noteq> 0\<close> by (subst insert_search.simps) simp
  moreover have "insert_search h m ?n = Some (link_after h t m)"
    by (rule Cons.IH [of "fst x"]) (use Cons.prems in auto)
  ultimately show ?case by simp
qed

lemma link_block_chain:
  assumes inv: "fl_inv s (xs @ ys)"
    and new: "chunks_in (unat (memoryStartAddress s)) (unat (memoryEndAddress s)) (xs @ (h, z) # ys)"
    and hdr: "h_size (fl_mem s) h = z" "h_prev (fl_mem s) h = 0" "h_next (fl_mem s) h = 0"
  obtains s' where "link_block h (s\<lparr>freeMemory := freeMemory s + z\<rparr>) = Some s'"
    "fl_inv s' (xs @ (h, z) # ys)"
    "memoryStartAddress s' = memoryStartAddress s" "memoryEndAddress s' = memoryEndAddress s"
    "doUnmap s' = doUnmap s"
    "\<And>x. outside (xs @ (h, z) # ys) x \<Longrightarrow> fl_mem s' x = fl_mem s x"
proof -
  let ?lo = "unat (memoryStartAddress s)" and ?hi = "unat (memoryEndAddress s)"
  let ?new = "xs @ (h, z) # ys" and ?s1 = "s\<lparr>freeMemory := freeMemory s + z\<rparr>"
  have lo: "0 < ?lo" and lk: "links (fl_mem s) 0 (xs @ ys) 0" and fc: "firstChunk s = first_of (xs @ ys) 0"
    and fm: "freeMemory s = sum_list (map snd (xs @ ys))" using inv by (auto simp: fl_inv_def)
  have hs: "hset (addrs ?new)" using new by (rule chunks_in_hset) (use unsigned_less [of "memoryEndAddress s"] in simp)
  have d: "distinct (map fst ?new)" using new by (rule chunks_in_distinct)
  have nz: "0 \<notin> addrs ?new" using new lo by (rule chunks_in_nonzero)
  have out: "\<not> in_header b x" if "outside ?new x" "b \<in> addrs ?new" for b x
    using that by (force simp: outside_def in_header_def)
  have below: "fst c < h" if "c \<in> set xs" for c
    using new that chunks_in_mem [of ?lo "unat h" xs c] by (auto simp: chunks_in_mid word_less_nat_alt)
  have above: "h < fst c" if "c \<in> set ys" for c
    using new that chunks_in_mem [of "unat h + 12 + unat z" ?hi ys c]
    by (auto simp: chunks_in_mid word_less_nat_alt)
  consider "xs = []" "ys = []" | "xs = []" "ys \<noteq> []" | us t y where "xs = us @ [(t, y)]"
    by (cases xs rule: rev_cases) auto
  then show thesis
  proof cases
    case 1
    with fc have "link_block h ?s1 = Some (?s1\<lparr>firstChunk := h\<rparr>)" by (simp add: link_block_def)
    then show thesis by (rule that) (use 1 lo new fm hdr in \<open>auto simp: fl_inv_def\<close>)
  next
    case 2
    let ?m = "(set_prev (first_of ys 0) h \<circ> set_prev h 0 \<circ> set_next h (first_of ys 0)) (fl_mem s)"
    have fy: "first_of ys 0 \<in> addrs ys" using 2(2) by (rule first_of_in)
    moreover have "0 \<notin> addrs ys" using nz by auto
    ultimately have "first_of ys 0 \<noteq> 0" "h < first_of ys 0" using above by (metis, auto)
    with fc 2 have run: "link_block h ?s1 = Some (?s1\<lparr>fl_mem := ?m, firstChunk := h\<rparr>)"
      by (simp add: link_block_def)
    have ch: "links ?m 0 ((h, z) # ys) 0"
      "\<And>x. (\<And>b. b \<in> addrs ((h, z) # ys) \<Longrightarrow> \<not> in_header b x) \<Longrightarrow> ?m x = fl_mem s x"
      using link_front_chain [of "fl_mem s" ys h z] lk hs d nz hdr(1) 2 by simp_all
    show thesis
    proof (rule that [OF run])
      show "fl_inv (?s1\<lparr>fl_mem := ?m, firstChunk := h\<rparr>) ?new"
        using ch(1) lo new fm 2 by (simp add: fl_inv_def del: links.simps)
      show "fl_mem (?s1\<lparr>fl_mem := ?m, firstChunk := h\<rparr>) x = fl_mem s x" if "outside ?new x" for x
        using ch(2) [of x] out [OF that] 2 by simp
    qed simp_all
  next
    case 3
    let ?m = "link_after h t (fl_mem s)"
    have run: "insert_search h (fl_mem s) (first_of (us @ (t, y) # ys) 0) = Some ?m"
    proof (rule insert_search_links [of _ 0])
      show "links (fl_mem s) 0 (us @ (t, y) # ys) 0" using lk 3 by simp
      show "fst c < h" if "c \<in> set (us @ [(t, y)])" for c using below that 3 by simp
      show "h < first_of ys 0" if "ys \<noteq> []" using above first_of_in [OF that, of 0] by auto
    qed (use nz 3 in auto)
    have f: "firstChunk s = first_of (us @ (t, y) # ys) 0" "firstChunk s \<in> addrs xs"
      using fc 3 by (cases us; auto)+
    then have "firstChunk s \<noteq> 0" "\<not> h < firstChunk s" using nz below by (force simp: image_Un)+
    with run f have run': "link_block h ?s1 = Some (?s1\<lparr>fl_mem := ?m\<rparr>)"
      by (simp add: link_block_def)
    have ch: "links ?m 0 (us @ (t, y) # (h, z) # ys) 0"
      "\<And>x. (\<And>b. b \<in> addrs (us @ (t, y) # (h, z) # ys) \<Longrightarrow> \<not> in_header b x) \<Longrightarrow> ?m x = fl_mem s x"
      using link_after_chain [of "fl_mem s" us t y ys h z] lk hs d nz hdr(1) 3 by simp_all
    show thesis
    proof (rule that [OF run'])
      show "fl_inv (?s1\<lparr>fl_mem := ?m\<rparr>) ?new"
        using ch(1) lo new fm fc 3 by (simp add: fl_inv_def)
      show "fl_mem (?s1\<lparr>fl_mem := ?m\<rparr>) x = fl_mem s x" if "outside ?new x" for x
        using ch(2) [of x] out [OF that] 3 by simp
    qed simp_all
  qed
qed

section \<open>Merging\<close>

lemma adjacent_unat:
  assumes "unat (a :: u32) + 12 + unat (y :: u32) < 4294967296"
  shows "a + 12 + y = b \<longleftrightarrow> unat a + 12 + unat y = unat b"
proof -
  have "unat (a + 12) = unat a + 12" using unat_add_u32 [of a 12] assms by simp
  then have "unat (a + 12 + y) = unat a + 12 + unat y" using unat_add_u32 [of "a + 12" y] assms by simp
  then show ?thesis by (metis u32_eq_iff)
qed

text \<open>One of the two halves of \<open>merge\<close>: the chunk at \<open>a\<close> absorbs its successor if they touch.\<close>

definition join_at :: "u32 \<Rightarrow> free_list_manager \<Rightarrow> free_list_manager" where
  "join_at a s =
     (if h_next (fl_mem s) a \<noteq> 0 \<and> a + HEADER_SIZE + h_size (fl_mem s) a = h_next (fl_mem s) a
      then absorb_next a s else s)"

lemma join_at_chain:
  assumes inv: "fl_inv s (xs @ c # ys)"
  shows "fl_inv (join_at (fst c) s) (xs @ join_right c ys)"
    and "outside (xs @ c # ys) x \<Longrightarrow> fl_mem (join_at (fst c) s) x = fl_mem s x"
    and "outside (xs @ c # ys) x \<Longrightarrow> outside (xs @ join_right c ys) x"
    and "memoryStartAddress (join_at (fst c) s) = memoryStartAddress s"
    and "memoryEndAddress (join_at (fst c) s) = memoryEndAddress s"
    and "doUnmap (join_at (fst c) s) = doUnmap s" "fl_lock (join_at (fst c) s) = fl_lock s"
proof -
  let ?lo = "unat (memoryStartAddress s)" and ?hi = "unat (memoryEndAddress s)"
  obtain a y where c: "c = (a, y)" by (cases c)
  have lk: "h_next (fl_mem s) a = first_of ys 0" "h_size (fl_mem s) a = y"
    and old: "chunks_in ?lo ?hi (xs @ c # ys)" and lo: "0 < ?lo" using inv c by (auto simp: fl_inv_def)
  show "memoryStartAddress (join_at (fst c) s) = memoryStartAddress s"
    "memoryEndAddress (join_at (fst c) s) = memoryEndAddress s"
    "doUnmap (join_at (fst c) s) = doUnmap s" "fl_lock (join_at (fst c) s) = fl_lock s"
    by (simp_all add: join_at_def)
  have "fl_inv (join_at (fst c) s) (xs @ join_right c ys)
      \<and> (outside (xs @ c # ys) x
           \<longrightarrow> fl_mem (join_at (fst c) s) x = fl_mem s x \<and> outside (xs @ join_right c ys) x)"
  proof (cases "ys \<noteq> [] \<and> a + 12 + y = first_of ys 0")
    case False
    then have "join_right c ys = c # ys" by (cases ys) (auto simp: c)
    moreover have "join_at a s = s"
      using False lk neighbours_zero [OF old lo] by (auto simp: join_at_def HEADER_SIZE_def)
    ultimately show ?thesis using inv c by simp
  next
    case True
    then obtain b z zs where ys: "ys = (b, z) # zs" and eq: "a + 12 + y = b" by (cases ys) auto
    have "unat a + 12 + unat y \<le> ?hi" using chunks_in_mem [OF old, of c] c by simp
    then have "unat a + 12 + unat y < 4294967296"
      using unat_u32_bound [of "memoryEndAddress s"] by linarith
    then have adj: "unat a + 12 + unat y = unat b" using eq by (simp add: adjacent_unat)
    have "b \<noteq> 0" using chunks_in_nonzero [OF old lo] ys by auto
    then have "join_at a s = absorb_next a s" using lk ys eq by (simp add: join_at_def HEADER_SIZE_def)
    then show ?thesis
      using absorb_chain [OF inv [unfolded c ys] adj] eq by (simp add: c ys)
  qed
  then show "fl_inv (join_at (fst c) s) (xs @ join_right c ys)"
    "outside (xs @ c # ys) x \<Longrightarrow> fl_mem (join_at (fst c) s) x = fl_mem s x"
    "outside (xs @ c # ys) x \<Longrightarrow> outside (xs @ join_right c ys) x" by auto
qed

lemma join_right_head: "\<exists>z' ys'. join_right c ys = (fst c, z') # ys'"
  by (cases ys; cases c) auto

lemma FreeList_merge_chain:
  assumes inv: "fl_inv s (xs @ (h, z) # ys)"
  obtains s' m sz where "FreeList_merge s h = (s', m)"
    "fl_inv s' (merged_list xs (h, z) ys)" "(m, sz) \<in> set (merged_list xs (h, z) ys)"
    "memoryStartAddress s' = memoryStartAddress s" "memoryEndAddress s' = memoryEndAddress s"
    "doUnmap s' = doUnmap s"
    "\<And>x. outside (xs @ (h, z) # ys) x \<Longrightarrow> fl_mem s' x = fl_mem s x"
proof -
  let ?lo = "unat (memoryStartAddress s)" and ?hi = "unat (memoryEndAddress s)"
  let ?s1 = "join_at h s"
  note J = join_at_chain [OF inv, unfolded fst_conv]
  have old: "chunks_in ?lo ?hi (xs @ (h, z) # ys)" and lo: "0 < ?lo" using inv by (auto simp: fl_inv_def)
  have nz: "0 \<notin> addrs (xs @ (h, z) # ys)" using old lo by (rule chunks_in_nonzero)
  have "firstChunk s \<in> addrs (xs @ (h, z) # ys)"
    using inv first_of_in [of "xs @ (h, z) # ys" 0] by (simp add: fl_inv_def)
  with nz have fc: "firstChunk s \<noteq> 0" by metis
  obtain z' ys' where jr: "join_right (h, z) ys = (h, z') # ys'"
    using join_right_head [of "(h, z)" ys] by auto
  have inv1: "fl_inv ?s1 (xs @ (h, z') # ys')" using J(1) jr by simp
  then have pv: "h_prev (fl_mem ?s1) h = last_of 0 xs" by (simp add: fl_inv_def)
  have merge: "FreeList_merge s h =
      (if last_of 0 xs \<noteq> 0 \<and> last_of 0 xs + HEADER_SIZE + h_size (fl_mem ?s1) (last_of 0 xs) = h
       then (absorb_next (last_of 0 xs) ?s1, last_of 0 xs) else (?s1, h))"
    using fc by (simp add: FreeList_merge_def join_at_def [symmetric] pv Let_def)
  show thesis
  proof (cases xs rule: rev_cases)
    case Nil
    with merge have run: "FreeList_merge s h = (?s1, h)" by simp
    show thesis
      by (rule that [OF run, of z']) (use J inv1 jr Nil in \<open>auto simp: merged_list_def\<close>)
  next
    case (snoc us c)
    obtain t y where c: "c = (t, y)" by (cases c)
    have inv2: "fl_inv ?s1 (us @ (t, y) # (h, z') # ys')" using inv1 snoc c by simp
    have tn: "t \<noteq> 0" "h \<noteq> 0" using nz snoc c by auto
    have lk: "h_next (fl_mem ?s1) t = h" "h_size (fl_mem ?s1) t = y" using inv2 by (auto simp: fl_inv_def)
    have run: "FreeList_merge s h = (join_at t ?s1, if t + 12 + y = h then t else h)"
      using merge snoc c tn lk by (simp add: join_at_def HEADER_SIZE_def)
    note J2 = join_at_chain [OF inv2, unfolded fst_conv]
    have ml: "merged_list xs (h, z) ys = us @ join_right (t, y) ((h, z') # ys')"
      by (simp add: merged_list_def snoc jr c)
    show thesis
    proof (rule that [OF run])
      show "(if t + 12 + y = h then t else h, if t + 12 + y = h then y + (z' + 12) else z')
          \<in> set (merged_list xs (h, z) ys)"
        by (simp add: ml)
      show "fl_mem (join_at t ?s1) x = fl_mem s x" if "outside (xs @ (h, z) # ys) x" for x
        using J(2,3) [OF that] J2(2) [of x] jr snoc c by simp
    qed (use J J2 ml in simp_all)
  qed
qed

section \<open>The whole algorithm\<close>

text \<open>A live block \<open>(h, z)\<close> as \<open>alloc\<close> hands it out: its header is detached and lies, with its data, in the gap between the chunks \<open>xs\<close> and \<open>ys\<close>.\<close>

lemma FreeList_free_spec:
  assumes ok: "fl_ok s (xs @ ys)"
    and new: "chunks_in (unat (memoryStartAddress s)) (unat (memoryEndAddress s)) (xs @ (h, z) # ys)"
    and hdr: "h_size (fl_mem s) h = z" "h_prev (fl_mem s) h = 0" "h_next (fl_mem s) h = 0"
  obtains s' u where "FreeList_free initialized s (h + 12) = Some (s', u)"
    "fl_ok s' (merged_list xs (h, z) ys)"
    "case u of None \<Rightarrow> True
     | Some (a, b) \<Rightarrow> \<exists>c \<in> set (merged_list xs (h, z) ys). a = fst c + 12 \<and> b = fst c + (12 + snd c) - 1
                       \<and> 0x1000 \<le> snd c"
    "memoryStartAddress s' = memoryStartAddress s" "memoryEndAddress s' = memoryEndAddress s"
    "doUnmap s' = doUnmap s"
    "\<And>x. outside (xs @ (h, z) # ys) x \<Longrightarrow> fl_mem s' x = fl_mem s x"
proof -
  let ?lo = "unat (memoryStartAddress s)" and ?hi = "unat (memoryEndAddress s)"
  let ?s1 = "s\<lparr>fl_lock := True\<rparr>"
  have inv: "fl_inv ?s1 (xs @ ys)" and acq: "lock_acquire s = Some ?s1" and lo: "0 < ?lo"
    using ok by (auto simp: fl_ok_def fl_inv_def lock_acquire_def)
  have rng: "?lo \<le> unat h" "unat h + 12 + unat z \<le> ?hi" using chunks_in_mem [OF new, of "(h, z)"] by auto
  have uh: "unat (h + 12) = unat h + 12"
    using unat_add_u32 [of h 12] rng unat_u32_bound [of "memoryEndAddress s"] by simp
  have guard: "h + 12 \<noteq> 0" "\<not> h + 12 < memoryStartAddress s" "\<not> memoryEndAddress s < h + 12"
  proof -
    show "h + 12 \<noteq> 0" using uh by (metis add_is_0 unsigned_0 zero_neq_numeral)
    show "\<not> h + 12 < memoryStartAddress s" "\<not> memoryEndAddress s < h + 12"
      using uh rng by (simp_all add: word_less_nat_alt)
  qed
  have new1: "chunks_in (unat (memoryStartAddress ?s1)) (unat (memoryEndAddress ?s1)) (xs @ (h, z) # ys)"
    and hdr1: "h_size (fl_mem ?s1) h = z" "h_prev (fl_mem ?s1) h = 0" "h_next (fl_mem ?s1) h = 0"
    using new hdr by simp_all
  obtain s2 where l: "link_block h (?s1\<lparr>freeMemory := freeMemory ?s1 + z\<rparr>) = Some s2"
    "fl_inv s2 (xs @ (h, z) # ys)"
    "memoryStartAddress s2 = memoryStartAddress ?s1" "memoryEndAddress s2 = memoryEndAddress ?s1"
    "doUnmap s2 = doUnmap ?s1" "\<And>x. outside (xs @ (h, z) # ys) x \<Longrightarrow> fl_mem s2 x = fl_mem ?s1 x"
    by (rule link_block_chain [OF inv new1 hdr1]) (rule that)
  obtain s3 m sz where g: "FreeList_merge s2 h = (s3, m)"
    "fl_inv s3 (merged_list xs (h, z) ys)" "(m, sz) \<in> set (merged_list xs (h, z) ys)"
    "memoryStartAddress s3 = memoryStartAddress s2" "memoryEndAddress s3 = memoryEndAddress s2"
    "doUnmap s3 = doUnmap s2" "\<And>x. outside (xs @ (h, z) # ys) x \<Longrightarrow> fl_mem s3 x = fl_mem s2 x"
    by (rule FreeList_merge_chain [OF l(2)]) (rule that)
  have hm: "h_size (fl_mem s3) m = sz" using g(2,3) links_size by (fastforce simp: fl_inv_def)
  let ?u = "if doUnmap s3 \<and> sz \<ge> PAGESIZE \<and> initialized
            then Some (m + HEADER_SIZE, m + (HEADER_SIZE + sz) - 1) else None"
  have "freeAlgorithm initialized ?s1 (h + 12) = Some (s3, ?u)"
    using guard l(1) g(1) hm hdr(1) by (simp add: freeAlgorithm_def HEADER_SIZE_def Let_def)
  then have run: "FreeList_free initialized s (h + 12) = Some (lock_release s3, ?u)"
    by (simp add: FreeList_free_def FreeList_free_aligned_def acq)
  show thesis
  proof (rule that [OF run])
    show "fl_ok (lock_release s3) (merged_list xs (h, z) ys)"
      using g(2) by (simp add: fl_ok_def fl_inv_def lock_release_def)
    show "case ?u of None \<Rightarrow> True
      | Some (a, b) \<Rightarrow> \<exists>c \<in> set (merged_list xs (h, z) ys). a = fst c + 12 \<and> b = fst c + (12 + snd c) - 1
                        \<and> 0x1000 \<le> snd c"
      using g(3) by (auto simp: HEADER_SIZE_def PAGESIZE_def intro!: bexI [of _ "(m, sz)"])
  qed (use l(3-) g(4-) in \<open>simp_all add: lock_release_def\<close>)
qed

end
