(* ===== verification/Allocator.thy ===== *)
theory Allocator
  imports Byte_Memory
begin

text \<open>
  The contract between a heap and the code that uses it, and what every client may conclude
  from it. A client is a list of requests: allocate, free a pointer it owns, write a byte into a block it
  owns. Requests outside of the contract (a pointer or an address the client does not own, a size of
  0 or above \<open>0xFFFFFFFC\<close>) are skipped, so every list is the behaviour of some correct client. (A heap
  that rounds sizes up to four bytes takes a size above \<open>0xFFFFFFFC\<close> for 0.) Allocation with an alignment and
  \<open>realloc\<close> are not requests.
\<close>

type_synonym blocks = "(u32 \<times> u32) list"

datatype request = Alloc u32 | Free u32 | Poke u32 u8

definition in_block :: "u32 \<Rightarrow> u32 \<times> u32 \<Rightarrow> bool" where
  "in_block a b \<longleftrightarrow> unat (fst b) \<le> unat a \<and> unat a < unat (fst b) + unat (snd b)"

definition client_step ::
  "('s \<Rightarrow> u32 \<Rightarrow> ('s \<times> u32) option) \<Rightarrow> ('s \<Rightarrow> u32 \<Rightarrow> 's option) \<Rightarrow> ('s \<Rightarrow> u32 \<Rightarrow> u8 \<Rightarrow> 's)
   \<Rightarrow> request \<Rightarrow> 's \<times> blocks \<Rightarrow> ('s \<times> blocks) option" where
  "client_step alloc free poke r = (\<lambda>(s, B). case r of
     Alloc n \<Rightarrow>
       (if n = 0 \<or> n > 0xFFFFFFFC then Some (s, B)
        else map_option (\<lambda>(s', p). (s', if p = 0 then B else (p, n) # B)) (alloc s n))
   | Free p \<Rightarrow>
       (if p \<in> set (map fst B)
        then map_option (\<lambda>s'. (s', filter (\<lambda>b. fst b \<noteq> p) B)) (free s p) else Some (s, B))
   | Poke a v \<Rightarrow> (if \<exists>b \<in> set B. in_block a b then Some (poke s a v, B) else Some (s, B)))"

primrec client_run ::
  "('s \<Rightarrow> u32 \<Rightarrow> ('s \<times> u32) option) \<Rightarrow> ('s \<Rightarrow> u32 \<Rightarrow> 's option) \<Rightarrow> ('s \<Rightarrow> u32 \<Rightarrow> u8 \<Rightarrow> 's)
   \<Rightarrow> request list \<Rightarrow> 's \<times> blocks \<Rightarrow> ('s \<times> blocks) option" where
  "client_run alloc free poke [] sB = Some sB"
| "client_run alloc free poke (r # rs) sB =
     Option.bind (client_step alloc free poke r sB) (client_run alloc free poke rs)"

text \<open>Whether a request touches the block \<open>b\<close>: frees it or writes into it.\<close>

definition touches :: "u32 \<times> u32 \<Rightarrow> request \<Rightarrow> bool" where
  "touches b r = (case r of Alloc n \<Rightarrow> False | Free p \<Rightarrow> p = fst b | Poke a v \<Rightarrow> in_block a b)"

definition blocks_apart :: "blocks \<Rightarrow> bool" where
  "blocks_apart B \<longleftrightarrow> distinct (map fst B)
     \<and> (\<forall>a \<in> set B. \<forall>b \<in> set B. fst a \<noteq> fst b
          \<longrightarrow> unat (fst a) + unat (snd a) \<le> unat (fst b) \<or> unat (fst b) + unat (snd b) \<le> unat (fst a))"

locale allocator =
  fixes live :: "'s \<Rightarrow> blocks \<Rightarrow> bool"
    and bytes :: "'s \<Rightarrow> u32 \<Rightarrow> u8"
    and alloc :: "'s \<Rightarrow> u32 \<Rightarrow> ('s \<times> u32) option"
    and free :: "'s \<Rightarrow> u32 \<Rightarrow> 's option"
    and poke :: "'s \<Rightarrow> u32 \<Rightarrow> u8 \<Rightarrow> 's"
  assumes live_apart: "live s B \<Longrightarrow> blocks_apart B"
    and alloc_live: "live s B \<Longrightarrow> 0 < n \<Longrightarrow> n \<le> 0xFFFFFFFC
      \<Longrightarrow> \<exists>s' p. alloc s n = Some (s', p) \<and> live s' (if p = 0 then B else (p, n) # B)
                \<and> (\<forall>b \<in> set B. \<forall>a. in_block a b \<longrightarrow> bytes s' a = bytes s a)"
    and free_live: "live s B \<Longrightarrow> p \<in> set (map fst B)
      \<Longrightarrow> \<exists>s'. free s p = Some s' \<and> live s' (filter (\<lambda>b. fst b \<noteq> p) B)
                \<and> (\<forall>b \<in> set B. \<forall>a. fst b \<noteq> p \<and> in_block a b \<longrightarrow> bytes s' a = bytes s a)"
    and poke_live: "live s B \<Longrightarrow> b \<in> set B \<Longrightarrow> in_block a b \<Longrightarrow> live (poke s a v) B"
    and poke_bytes: "bytes (poke s a v) = (bytes s)(a := v)"
begin

lemma step_live:
  assumes "live s B"
  shows "\<exists>s' B'. client_step alloc free poke r (s, B) = Some (s', B') \<and> live s' B'
           \<and> (\<forall>b \<in> set B. \<not> touches b r \<longrightarrow> b \<in> set B' \<and> (\<forall>a. in_block a b \<longrightarrow> bytes s' a = bytes s a))"
proof (cases r)
  case (Alloc n)
  show ?thesis
  proof (cases "n = 0 \<or> n > 0xFFFFFFFC")
    case False
    then have "0 < n" "n \<le> 0xFFFFFFFC" by (auto simp: word_gt_0)
    from alloc_live [OF assms this] obtain s' p where
      "alloc s n = Some (s', p)" "live s' (if p = 0 then B else (p, n) # B)"
      "\<forall>b \<in> set B. \<forall>a. in_block a b \<longrightarrow> bytes s' a = bytes s a" by blast
    then show ?thesis using False Alloc by (simp add: client_step_def)
  qed (use assms Alloc in \<open>simp add: client_step_def\<close>)
next
  case (Free p)
  show ?thesis
  proof (cases "p \<in> set (map fst B)")
    case True
    from free_live [OF assms this] obtain s' where
      "free s p = Some s'" "live s' (filter (\<lambda>b. fst b \<noteq> p) B)"
      "\<forall>b \<in> set B. \<forall>a. fst b \<noteq> p \<and> in_block a b \<longrightarrow> bytes s' a = bytes s a" by blast
    then show ?thesis using True Free by (auto simp: client_step_def touches_def)
  qed (use assms Free in \<open>simp add: client_step_def\<close>)
next
  case (Poke a v)
  then show ?thesis
    using assms poke_live by (auto simp: client_step_def touches_def poke_bytes)
qed

text \<open>No list of requests makes the heap hang, lose the invariant or change a block it does not touch.\<close>

lemma run_live:
  assumes "live s B"
  shows "\<exists>s' B'. client_run alloc free poke rs (s, B) = Some (s', B') \<and> live s' B'
           \<and> (\<forall>b \<in> set B. (\<forall>r \<in> set rs. \<not> touches b r)
                \<longrightarrow> b \<in> set B' \<and> (\<forall>a. in_block a b \<longrightarrow> bytes s' a = bytes s a))"
  using assms
proof (induction rs arbitrary: s B)
  case (Cons r rs)
  obtain s1 B1 where 1: "client_step alloc free poke r (s, B) = Some (s1, B1)" "live s1 B1"
    "\<forall>b \<in> set B. \<not> touches b r \<longrightarrow> b \<in> set B1 \<and> (\<forall>a. in_block a b \<longrightarrow> bytes s1 a = bytes s a)"
    using step_live [OF Cons.prems] by blast
  from Cons.IH [OF 1(2)] obtain s2 B2 where 2: "client_run alloc free poke rs (s1, B1) = Some (s2, B2)" "live s2 B2"
    "\<forall>b \<in> set B1. (\<forall>r \<in> set rs. \<not> touches b r)
       \<longrightarrow> b \<in> set B2 \<and> (\<forall>a. in_block a b \<longrightarrow> bytes s2 a = bytes s1 a)" by blast
  have "client_run alloc free poke (r # rs) (s, B) = Some (s2, B2)" using 1(1) 2(1) by simp
  moreover have "b \<in> set B2 \<and> (\<forall>a. in_block a b \<longrightarrow> bytes s2 a = bytes s a)"
    if b: "b \<in> set B" and r: "\<forall>r' \<in> set (r # rs). \<not> touches b r'" for b
  proof -
    have "b \<in> set B1" "\<forall>a. in_block a b \<longrightarrow> bytes s1 a = bytes s a" using 1(3) b r by auto
    then show ?thesis using 2(3) r by auto
  qed
  ultimately show ?case using 2(2) by blast
qed simp

end

end
