(* ===== verification/Kernel_Heap.thy ===== *)
theory Kernel_Heap
  imports Free_List_Alloc Free_List_Free Allocator
begin

text \<open>
  The heap as its clients see it: the free chunks together with the blocks that have been
  handed out and not yet freed. \<open>heap_ok\<close> is the invariant that ties both to the
  bytes of the memory; \<open>alloc\<close>, \<open>free\<close> and writes of a client to its own block keep it.
\<close>

section \<open>Chunks and blocks that do not overlap\<close>

definition apart_chunks :: "chunk \<Rightarrow> chunk \<Rightarrow> bool" where
  "apart_chunks a b \<longleftrightarrow>
     unat (fst a) + 12 + unat (snd a) \<le> unat (fst b) \<or> unat (fst b) + 12 + unat (snd b) \<le> unat (fst a)"

fun coalesced :: "chunk list \<Rightarrow> bool" where
  "coalesced (a # b # cs) \<longleftrightarrow> unat (fst a) + 12 + unat (snd a) \<noteq> unat (fst b) \<and> coalesced (b # cs)"
| "coalesced _ \<longleftrightarrow> True"

definition block_ok :: "free_list_manager \<Rightarrow> chunk \<Rightarrow> bool" where
  "block_ok s b \<longleftrightarrow>
     unat (memoryStartAddress s) \<le> unat (fst b)
     \<and> unat (fst b) + 12 + unat (snd b) \<le> unat (memoryEndAddress s)
     \<and> h_size (fl_mem s) (fst b) = snd b \<and> h_prev (fl_mem s) (fst b) = 0 \<and> h_next (fl_mem s) (fst b) = 0"

definition heap_ok :: "free_list_manager \<Rightarrow> chunk list \<Rightarrow> chunk set \<Rightarrow> bool" where
  "heap_ok s cs bs \<longleftrightarrow>
     fl_ok s cs \<and> coalesced cs \<and> (\<forall>b \<in> bs. block_ok s b)
     \<and> (\<forall>b \<in> bs. \<forall>c \<in> set cs. apart_chunks b c)
     \<and> (\<forall>a \<in> bs. \<forall>b \<in> bs. a \<noteq> b \<longrightarrow> apart_chunks a b)"

lemma apart_chunks_sym: "apart_chunks a b \<longleftrightarrow> apart_chunks b a"
  by (auto simp: apart_chunks_def)

lemma chunks_in_apart:
  "chunks_in lo hi cs \<Longrightarrow> a \<in> set cs \<Longrightarrow> b \<in> set cs \<Longrightarrow> a = b \<or> apart_chunks a b"
proof (induction cs arbitrary: lo)
  case (Cons c cs)
  have above: "apart_chunks c d" if "d \<in> set cs" for d
    using chunks_in_mem [OF _ that] Cons.prems(1) by (fastforce simp: apart_chunks_def)
  show ?case
    using Cons.prems Cons.IH [of "unat (fst c) + 12 + unat (snd c)"] above [of a] above [of b]
    by (auto simp: apart_chunks_sym)
qed simp

lemma chunks_in_insert:
  assumes "chunks_in lo hi cs" "lo \<le> unat (fst b)" "unat (fst b) + 12 + unat (snd b) \<le> hi"
    and "\<forall>c \<in> set cs. apart_chunks b c"
  shows "chunks_in lo hi (takeWhile (\<lambda>d. fst d < fst b) cs @ b # dropWhile (\<lambda>d. fst d < fst b) cs)"
  using assms
proof (induction cs arbitrary: lo)
  case (Cons c cs)
  have ap: "apart_chunks b c" using Cons.prems(4) by simp
  show ?case
  proof (cases "fst c < fst b")
    case True
    then have "unat (fst c) + 12 + unat (snd c) \<le> unat (fst b)"
      using ap by (auto simp: apart_chunks_def word_less_nat_alt)
    then show ?thesis using True Cons.prems Cons.IH [of "unat (fst c) + 12 + unat (snd c)"] by simp
  next
    case False
    then have "unat (fst b) + 12 + unat (snd b) \<le> unat (fst c)"
      using ap by (auto simp: apart_chunks_def word_less_nat_alt)
    then show ?thesis using False Cons.prems by simp
  qed
qed simp

text \<open>The header of a block is untouched when its bytes are.\<close>

lemma header_cong:
  assumes "hdr_ok b" "\<And>x. in_header b x \<Longrightarrow> m' x = m x"
  shows "h_size m' b = h_size m b" "h_prev m' b = h_prev m b" "h_next m' b = h_next m b"
proof -
  have a: "unat (b + of_nat k) = unat b + k" if "k < 12" for k
    using assms(1) that unat_add_small [of b k] by (simp add: hdr_ok_def)
  have e: "m' (b + of_nat k) = m (b + of_nat k)" if "k < 12" for k
    using assms(2) a [OF that] that by (simp add: in_header_def)
  note e' = e [of 0] e [of 1] e [of 2] e [of 3] e [of 4] e [of 5] e [of 6] e [of 7]
    e [of 8] e [of 9] e [of 10] e [of 11]
  show "h_size m' b = h_size m b" "h_prev m' b = h_prev m b" "h_next m' b = h_next m b"
    using e' by (simp_all add: h_size_def h_prev_def h_next_def load32_def add.assoc)
qed

lemma block_ok_cong:
  assumes "block_ok s b" "\<And>x. in_header (fst b) x \<Longrightarrow> fl_mem s' x = fl_mem s x"
    and "memoryStartAddress s' = memoryStartAddress s" "memoryEndAddress s' = memoryEndAddress s"
  shows "block_ok s' b"
proof -
  have "hdr_ok (fst b)"
    using assms(1) unat_u32_bound [of "memoryEndAddress s"] unfolding block_ok_def hdr_ok_def by linarith
  then show ?thesis
    using header_cong [of "fst b" "fl_mem s'" "fl_mem s"] assms by (simp add: block_ok_def)
qed

lemma outside_apart:
  assumes "\<forall>c \<in> set cs. apart_chunks b c" "unat (fst b) \<le> unat x" "unat x < unat (fst b) + 12 + unat (snd b)"
  shows "outside cs x"
  using assms by (fastforce simp: outside_def apart_chunks_def)

section \<open>No two free chunks touch\<close>

lemma coalesced_append:
  "coalesced (xs @ ys) \<longleftrightarrow> coalesced xs \<and> coalesced ys
     \<and> (xs \<noteq> [] \<and> ys \<noteq> [] \<longrightarrow> unat (fst (last xs)) + 12 + unat (snd (last xs)) \<noteq> unat (fst (hd ys)))"
  by (induction xs rule: coalesced.induct) (cases ys; auto)+

lemma join_right_props:
  assumes "chunks_in lo hi (c # ys)" "hi < 4294967296" "coalesced ys"
  shows "coalesced (join_right c ys)" "chunks_in lo hi (join_right c ys)"
proof -
  have "coalesced (join_right c ys) \<and> chunks_in lo hi (join_right c ys)"
  proof (cases ys)
    case (Cons d ds)
    obtain a y b z where cd: "c = (a, y)" "d = (b, z)" by (cases c, cases d)
    have b: "unat a + 12 + unat y \<le> unat b" "unat b + 12 + unat z \<le> hi" "lo \<le> unat a"
      and ds: "chunks_in (unat b + 12 + unat z) hi ds"
      using assms(1) Cons cd by (auto dest: chunks_in_le)
    have adj: "a + 12 + y = b \<longleftrightarrow> unat a + 12 + unat y = unat b"
      by (rule adjacent_unat) (use b assms(2) in linarith)
    have co: "coalesced ds" "ds \<noteq> [] \<longrightarrow> unat b + 12 + unat z \<noteq> unat (fst (hd ds))"
      using assms(3) Cons cd by (cases ds; simp)+
    show ?thesis
    proof (cases "a + 12 + y = b")
      case True
      have "unat a + 12 + unat (y + (z + 12)) = unat b + 12 + unat z"
        by (rule joined_end) (use True adj b assms(2) in auto)
      then show ?thesis using True co ds b(3) by (cases ds) (simp_all add: Cons cd)
    next
      case False
      with assms(1,3) adj show ?thesis by (simp add: Cons cd)
    qed
  qed (use assms in auto)
  then show "coalesced (join_right c ys)" "chunks_in lo hi (join_right c ys)" by simp_all
qed

lemma coalesced_merged_list:
  assumes "coalesced (xs @ ys)" "chunks_in lo hi (xs @ c # ys)" "hi < 4294967296"
  shows "coalesced (merged_list xs c ys)"
proof -
  obtain mid where x: "chunks_in lo mid xs" and y: "chunks_in mid hi (c # ys)"
    using assms(2) chunks_in_append by blast
  have cy: "coalesced ys" and cx: "coalesced xs" using assms(1) by (auto simp: coalesced_append)
  note R = join_right_props [OF y assms(3) cy]
  show ?thesis
  proof (cases xs rule: rev_cases)
    case Nil
    then show ?thesis using R(1) by (simp add: merged_list_def)
  next
    case (snoc us d)
    obtain mid' where "chunks_in lo mid' us" "chunks_in mid' mid [d]"
      using x snoc chunks_in_append by blast
    then have "chunks_in mid' hi (d # join_right c ys)"
      using R(2) by (auto intro: chunks_in_mono)
    then have "coalesced (join_right d (join_right c ys))"
      using assms(3) R(1) by (rule join_right_props)
    moreover have "fst (hd (join_right d (join_right c ys))) = fst d"
      using join_right_head [of d "join_right c ys"] by auto
    ultimately show ?thesis
      using cx snoc by (auto simp: merged_list_def coalesced_append)
  qed
qed

section \<open>Allocation\<close>

text \<open>What \<open>alloc\<close> takes out of the chunk \<open>(c, z)\<close>, and what it leaves behind.\<close>

definition taken :: "u32 \<Rightarrow> u32 \<Rightarrow> u32" where
  "taken sz z = (if z - sz \<ge> 16 then sz else z)"

definition remainder :: "u32 \<Rightarrow> chunk \<Rightarrow> chunk list" where
  "remainder sz c = (if snd c - sz \<ge> 16 then [(fst c + 12 + sz, snd c - sz - 12)] else [])"

lemma taken_bounds:
  assumes "sz \<le> z"
  shows "sz \<le> taken sz z" "taken sz z \<le> z"
  using assms by (simp_all add: taken_def)

lemma remainder_bounds:
  assumes "sz \<le> z" "d \<in> set (remainder sz (c, z))" "unat c + 12 + unat z < 4294967296"
  shows "unat (fst d) = unat c + 12 + unat sz" "unat (fst d) + 12 + unat (snd d) = unat c + 12 + unat z"
proof -
  have d: "d = (c + 12 + sz, z - sz - 12)" and ge: "z - sz \<ge> 16"
    using assms(2) by (auto simp: remainder_def split: if_splits)
  have room: "unat sz + 16 \<le> unat z" using assms(1) ge by (simp add: word_le_nat_alt unat_sub_u32)
  have "unat (c + 12) = unat c + 12" using unat_add_u32 [of c 12] assms(3) by simp
  then show f: "unat (fst d) = unat c + 12 + unat sz"
    using unat_add_u32 [of "c + 12" sz] assms(3) room by (simp add: d)
  have "unat (z - sz - 12) = unat z - unat sz - 12"
    using room by (simp add: unat_sub_u32 word_le_nat_alt)
  then show "unat (fst d) + 12 + unat (snd d) = unat c + 12 + unat z" using f room by (simp add: d)
qed

lemma coalesced_remainder:
  assumes co: "coalesced (xs @ (c, z) # ys)" and ch: "chunks_in lo hi (xs @ (c, z) # ys)"
    and hi: "hi < 4294967296" and le: "sz \<le> z"
  shows "coalesced (xs @ remainder sz (c, z) @ ys)"
proof -
  have x: "chunks_in lo (unat c) xs" and y: "chunks_in (unat c + 12 + unat z) hi ys"
    using ch by (auto simp: chunks_in_mid)
  have top: "unat c + 12 + unat z < 4294967296" using chunks_in_le [OF y] hi by linarith
  have lx: "unat (fst (last xs)) + 12 + unat (snd (last xs)) \<le> unat c" if "xs \<noteq> []"
    using chunks_in_mem [OF x last_in_set [OF that]] by simp
  have hy: "unat c + 12 + unat z \<le> unat (fst (hd ys))" "unat c + 12 + unat z \<noteq> unat (fst (hd ys))" if "ys \<noteq> []"
    using chunks_in_mem [OF y hd_in_set [OF that]] co that by (auto simp: coalesced_append neq_Nil_conv)
  have parts: "coalesced xs" "coalesced ys" using co by (cases ys; simp add: coalesced_append)+
  show ?thesis
  proof (cases "z - sz \<ge> 16")
    case False
    have "unat (fst (last xs)) + 12 + unat (snd (last xs)) < unat (fst (hd ys))" if "xs \<noteq> []" "ys \<noteq> []"
      using lx [OF that(1)] hy(1) [OF that(2)] by linarith
    with False parts show ?thesis by (auto simp: remainder_def coalesced_append)
  next
    case True
    define d where "d = (c + 12 + sz, z - sz - 12)"
    have r: "remainder sz (c, z) = [d]" using True by (simp add: remainder_def d_def)
    note B = remainder_bounds [OF le, of d c, unfolded r, OF _ top]
    have "unat (fst (last xs)) + 12 + unat (snd (last xs)) \<noteq> unat (fst d)" if "xs \<noteq> []"
      using lx [OF that] B(1) by simp
    moreover have "unat (fst d) + 12 + unat (snd d) \<noteq> unat (fst (hd ys))" if "ys \<noteq> []"
      using hy(2) [OF that] B(2) by simp
    ultimately show ?thesis using parts by (cases ys) (auto simp: r coalesced_append)
  qed
qed

lemma heap_alloc_hit:
  assumes H: "heap_ok s (xs @ (c, z) # ys) bs" and le: "sz \<le> z"
  defines "s' \<equiv> lock_release (take_chunk c sz (s\<lparr>fl_lock := True\<rparr>))"
  shows "heap_ok s' (xs @ remainder sz (c, z) @ ys) (insert (c, taken sz z) bs)"
    and "(c, taken sz z) \<notin> bs"
    and "b \<in> bs \<Longrightarrow> unat (fst b) \<le> unat x \<Longrightarrow> unat x < unat (fst b) + 12 + unat (snd b)
           \<Longrightarrow> fl_mem s' x = fl_mem s x"
    and "memoryStartAddress s' = memoryStartAddress s" "memoryEndAddress s' = memoryEndAddress s"
proof -
  let ?s1 = "s\<lparr>fl_lock := True\<rparr>" and ?cs = "xs @ (c, z) # ys"
  let ?lo = "unat (memoryStartAddress s)" and ?hi = "unat (memoryEndAddress s)"
  let ?new = "xs @ (c, taken sz z) # remainder sz (c, z) @ ys"
  have inv: "fl_inv ?s1 ?cs" and co: "coalesced ?cs" and old: "chunks_in ?lo ?hi ?cs"
    using H by (auto simp: heap_ok_def fl_ok_def fl_inv_def)
  have ap: "apart_chunks b d" if "b \<in> bs" "d \<in> set ?cs" for b d using H that by (auto simp: heap_ok_def)
  have hi: "?hi < 4294967296" by simp
  have inC: "?lo \<le> unat c" "unat c + 12 + unat z \<le> ?hi" using chunks_in_mem [OF old, of "(c, z)"] by auto
  then have top: "unat c + 12 + unat z < 4294967296" using unat_u32_bound [of "memoryEndAddress s"] by linarith
  note T = take_chunk_inv [OF inv le]
  have eqs: "xs @ (if z - sz \<ge> 16 then (c + 12 + sz, z - sz - 12) # ys else ys) = xs @ remainder sz (c, z) @ ys"
    "(if z - sz \<ge> 16 then xs @ (c, sz) # (c + 12 + sz, z - sz - 12) # ys else xs @ (c, z) # ys) = ?new"
    by (simp_all add: remainder_def taken_def)
  have new: "chunks_in ?lo ?hi ?new" using T(10) unfolding eqs by simp
  have tk: "unat (taken sz z) \<le> unat z" using taken_bounds(2) [OF le] by (simp add: word_le_nat_alt)
  show nin: "(c, taken sz z) \<notin> bs" using ap [of _ "(c, z)"] by (force simp: apart_chunks_def)
  show keep: "fl_mem s' x = fl_mem s x"
    if "b \<in> bs" "unat (fst b) \<le> unat x" "unat x < unat (fst b) + 12 + unat (snd b)" for b x
    using T(3) [of x] outside_apart [OF _ that(2,3)] ap that(1) by (simp add: s'_def lock_release_def)
  show same: "memoryStartAddress s' = memoryStartAddress s" "memoryEndAddress s' = memoryEndAddress s"
    using T(6,7) by (simp_all add: s'_def lock_release_def)
  have "fl_ok s' (xs @ remainder sz (c, z) @ ys)"
    using T(1) unfolding eqs by (simp add: fl_ok_def fl_inv_def s'_def lock_release_def)
  moreover have "coalesced (xs @ remainder sz (c, z) @ ys)"
    using co old hi le by (rule coalesced_remainder)
  moreover have "block_ok s' (c, taken sz z)"
    using T(2,8,9) inC tk same by (simp add: block_ok_def s'_def lock_release_def taken_def)
  moreover have "block_ok s' b" if "b \<in> bs" for b
    by (rule block_ok_cong [of s])
      (use H that keep [OF that] same in \<open>auto simp: heap_ok_def in_header_def\<close>)
  moreover have "apart_chunks (c, taken sz z) d" if "d \<in> set (xs @ remainder sz (c, z) @ ys)" for d
  proof -
    have "distinct (map fst ?new)" using new by (rule chunks_in_distinct)
    then have "c \<notin> addrs (xs @ remainder sz (c, z) @ ys)" by auto
    moreover have "fst d \<in> addrs (xs @ remainder sz (c, z) @ ys)" using that by (rule imageI)
    ultimately have "(c, taken sz z) \<noteq> d" by (metis fst_conv)
    then show ?thesis using chunks_in_apart [OF new, of "(c, taken sz z)" d] that by auto
  qed
  moreover have "apart_chunks b d" if "b \<in> bs" "d \<in> set (xs @ remainder sz (c, z) @ ys)" for b d
  proof (cases "d \<in> set (remainder sz (c, z))")
    case True
    from remainder_bounds [OF le True top] show ?thesis
      using ap [OF that(1), of "(c, z)"] by (auto simp: apart_chunks_def)
  qed (use ap that in auto)
  moreover have "apart_chunks b (c, taken sz z)" "apart_chunks (c, taken sz z) b" if "b \<in> bs" for b
    using ap [OF that, of "(c, z)"] tk by (auto simp: apart_chunks_def)
  moreover have "apart_chunks a b" if "a \<in> bs" "b \<in> bs" "a \<noteq> b" for a b
    using H that by (auto simp: heap_ok_def)
  ultimately show "heap_ok s' (xs @ remainder sz (c, z) @ ys) (insert (c, taken sz z) bs)"
    unfolding heap_ok_def by blast
qed

section \<open>Freeing\<close>

lemma apart_join_right:
  assumes "chunks_in lo hi (c # ys)" "hi < 4294967296" "\<forall>d \<in> set (c # ys). apart_chunks b d"
  shows "\<forall>d \<in> set (join_right c ys). apart_chunks b d"
proof (cases ys)
  case (Cons d ds)
  obtain a y k z where cd: "c = (a, y)" "d = (k, z)" by (cases c, cases d)
  have k: "unat a + 12 + unat y \<le> unat k" "unat k + 12 + unat z \<le> hi"
    using assms(1) Cons cd by (auto dest: chunks_in_le)
  show ?thesis
  proof (cases "a + 12 + y = k")
    case True
    have adj: "unat a + 12 + unat y = unat k"
      using True adjacent_unat [of a y k] k assms(2) by simp
    then have "unat a + 12 + unat (y + (z + 12)) = unat k + 12 + unat z"
      by (rule joined_end) (use k assms(2) in linarith)
    then have "apart_chunks b (a, y + (z + 12))"
      using assms(3) adj Cons cd by (auto simp: apart_chunks_def)
    then show ?thesis using True assms(3) Cons cd by auto
  qed (use assms(3) Cons cd in auto)
qed (use assms(3) in auto)

lemma apart_merged_list:
  assumes "chunks_in lo hi (xs @ c # ys)" "hi < 4294967296" "coalesced ys"
    and ap: "\<forall>d \<in> set (xs @ c # ys). apart_chunks b d"
  shows "\<forall>d \<in> set (merged_list xs c ys). apart_chunks b d"
proof -
  obtain mid where x: "chunks_in lo mid xs" and y: "chunks_in mid hi (c # ys)"
    using assms(1) chunks_in_append by blast
  note R = join_right_props [OF y assms(2,3)]
  have A: "\<forall>d \<in> set (join_right c ys). apart_chunks b d"
    by (rule apart_join_right [OF y assms(2)]) (use ap in simp)
  show ?thesis
  proof (cases xs rule: rev_cases)
    case Nil
    then show ?thesis using A by (simp add: merged_list_def)
  next
    case (snoc us d)
    obtain mid' where "chunks_in lo mid' us" "chunks_in mid' mid [d]"
      using x snoc chunks_in_append by blast
    then have "chunks_in mid' hi (d # join_right c ys)"
      using R(2) by (auto intro: chunks_in_mono)
    then have "\<forall>e \<in> set (join_right d (join_right c ys)). apart_chunks b e"
      by (rule apart_join_right [OF _ assms(2)]) (use A ap snoc in simp)
    then show ?thesis using ap snoc by (auto simp: merged_list_def)
  qed
qed

lemma heap_free:
  assumes H: "heap_ok s cs bs" and b: "(h, z) \<in> bs"
  obtains s' u where "FreeList_free initialized s (h + 12) = Some (s', u)"
    "heap_ok s' (spec_free (h, z) cs) (bs - {(h, z)})"
    "\<And>a x. a \<in> bs - {(h, z)} \<Longrightarrow> unat (fst a) \<le> unat x \<Longrightarrow> unat x < unat (fst a) + 12 + unat (snd a)
       \<Longrightarrow> fl_mem s' x = fl_mem s x"
    "memoryStartAddress s' = memoryStartAddress s" "memoryEndAddress s' = memoryEndAddress s"
    "case u of None \<Rightarrow> True
     | Some (a, b) \<Rightarrow> \<exists>c \<in> set (spec_free (h, z) cs). a = fst c + 12 \<and> b = fst c + (12 + snd c) - 1
                       \<and> 0x1000 \<le> snd c"
proof -
  let ?xs = "takeWhile (\<lambda>d. fst d < h) cs" and ?ys = "dropWhile (\<lambda>d. fst d < h) cs"
  let ?lo = "unat (memoryStartAddress s)" and ?hi = "unat (memoryEndAddress s)"
  have sp: "spec_free (h, z) cs = merged_list ?xs (h, z) ?ys" by (simp add: spec_free_def)
  have ok: "fl_ok s (?xs @ ?ys)" and co: "coalesced (?xs @ ?ys)" and hb: "block_ok s (h, z)"
    using H b by (auto simp: heap_ok_def)
  have ap: "apart_chunks (h, z) c" if "c \<in> set cs" for c using H b that by (auto simp: heap_ok_def)
  have hi: "?hi < 4294967296" by simp
  have new: "chunks_in ?lo ?hi (?xs @ (h, z) # ?ys)"
    using chunks_in_insert [of ?lo ?hi cs "(h, z)"] H hb ap
    by (simp add: heap_ok_def fl_ok_def fl_inv_def block_ok_def)
  have hdr: "h_size (fl_mem s) h = z" "h_prev (fl_mem s) h = 0" "h_next (fl_mem s) h = 0"
    using hb by (auto simp: block_ok_def)
  obtain s' u where F: "FreeList_free initialized s (h + 12) = Some (s', u)"
    "fl_ok s' (merged_list ?xs (h, z) ?ys)"
    "case u of None \<Rightarrow> True
     | Some (a, b) \<Rightarrow> \<exists>c \<in> set (merged_list ?xs (h, z) ?ys). a = fst c + 12 \<and> b = fst c + (12 + snd c) - 1
                       \<and> 0x1000 \<le> snd c"
    "memoryStartAddress s' = memoryStartAddress s" "memoryEndAddress s' = memoryEndAddress s"
    "doUnmap s' = doUnmap s"
    "\<And>x. outside (?xs @ (h, z) # ?ys) x \<Longrightarrow> fl_mem s' x = fl_mem s x"
    by (rule FreeList_free_spec [OF ok new hdr]) (rule that)
  have ap': "\<forall>d \<in> set (?xs @ (h, z) # ?ys). apart_chunks a d" if "a \<in> bs - {(h, z)}" for a
    using H b that by (auto simp: heap_ok_def dest: set_takeWhileD set_dropWhileD)
  have keep: "fl_mem s' x = fl_mem s x"
    if "a \<in> bs - {(h, z)}" "unat (fst a) \<le> unat x" "unat x < unat (fst a) + 12 + unat (snd a)" for a x
    by (rule F(7)) (rule outside_apart [OF ap' [OF that(1)] that(2,3)])
  show thesis
  proof (rule that [OF F(1)])
    have "block_ok s' a" if "a \<in> bs - {(h, z)}" for a
      by (rule block_ok_cong [of s])
        (use H that keep [OF that] F(4,5) in \<open>auto simp: heap_ok_def in_header_def\<close>)
    moreover have "\<forall>d \<in> set (merged_list ?xs (h, z) ?ys). apart_chunks a d" if "a \<in> bs - {(h, z)}" for a
      by (rule apart_merged_list [OF new hi _ ap' [OF that]]) (use co coalesced_append in blast)
    moreover have "coalesced (merged_list ?xs (h, z) ?ys)" using co new hi by (rule coalesced_merged_list)
    ultimately show "heap_ok s' (spec_free (h, z) cs) (bs - {(h, z)})"
      using F(2) H unfolding sp heap_ok_def by blast
    show "case u of None \<Rightarrow> True
     | Some (a, b) \<Rightarrow> \<exists>c \<in> set (spec_free (h, z) cs). a = fst c + 12 \<and> b = fst c + (12 + snd c) - 1
                       \<and> 0x1000 \<le> snd c"
      unfolding sp by (rule F(3))
  qed (rule keep F(4,5); assumption?)+
qed

section \<open>Round trip\<close>

lemma spec_free_taken:
  assumes ch: "chunks_in lo hi (xs @ (c, z) # ys)" and hi: "hi < 4294967296"
    and co: "coalesced (xs @ (c, z) # ys)" and le: "sz \<le> z"
  shows "spec_free (c, taken sz z) (xs @ remainder sz (c, z) @ ys) = xs @ (c, z) # ys"
proof -
  have x: "chunks_in lo (unat c) xs" and y: "chunks_in (unat c + 12 + unat z) hi ys"
    using ch by (auto simp: chunks_in_mid)
  have top: "unat c + 12 + unat z < 4294967296" using chunks_in_le [OF y] hi by linarith
  have bx: "fst d < c" if "d \<in> set xs" for d
    using chunks_in_mem [OF x that] by (simp add: word_less_nat_alt)
  have by': "\<not> fst d < c" if "d \<in> set ys" for d
    using chunks_in_mem [OF y that] by (simp add: word_less_nat_alt)
  have br: "\<not> fst d < c" if "d \<in> set (remainder sz (c, z))" for d
    using remainder_bounds(1) [OF le that top] by (simp add: word_less_nat_alt)
  have tw: "takeWhile (\<lambda>d. fst d < c) (xs @ remainder sz (c, z) @ ys) = xs"
    "dropWhile (\<lambda>d. fst d < c) (xs @ remainder sz (c, z) @ ys) = remainder sz (c, z) @ ys"
  proof -
    have "\<And>d. d \<in> set (remainder sz (c, z) @ ys) \<Longrightarrow> \<not> fst d < c" using br by' by auto
    then have "takeWhile (\<lambda>d. fst d < c) (remainder sz (c, z) @ ys) = []"
      "dropWhile (\<lambda>d. fst d < c) (remainder sz (c, z) @ ys) = remainder sz (c, z) @ ys"
      by (cases "remainder sz (c, z) @ ys"; simp)+
    then show "takeWhile (\<lambda>d. fst d < c) (xs @ remainder sz (c, z) @ ys) = xs"
      "dropWhile (\<lambda>d. fst d < c) (xs @ remainder sz (c, z) @ ys) = remainder sz (c, z) @ ys"
      using bx by (simp_all add: takeWhile_append2 dropWhile_append2)
  qed
  have j: "join_right (c, taken sz z) (remainder sz (c, z) @ ys) = (c, z) # ys"
  proof (cases "z - sz \<ge> 16")
    case True
    then show ?thesis by (simp add: remainder_def taken_def)
  next
    case False
    have "c + 12 + z \<noteq> fst (hd ys)" if "ys \<noteq> []"
      using that co top adjacent_unat [of c z "fst (hd ys)"] by (auto simp: coalesced_append neq_Nil_conv)
    then show ?thesis using False by (cases ys) (auto simp: remainder_def taken_def)
  qed
  have "butlast xs @ join_right (last xs) ((c, z) # ys) = xs @ (c, z) # ys" if "xs \<noteq> []"
  proof -
    have "unat (fst (last xs)) + 12 + unat (snd (last xs)) \<le> unat c"
      using chunks_in_mem [OF x last_in_set [OF that]] by simp
    then have "fst (last xs) + 12 + snd (last xs) \<noteq> c"
      using co that adjacent_unat [of "fst (last xs)" "snd (last xs)" c] unat_u32_bound [of c]
      by (simp add: coalesced_append)
    then show ?thesis using append_butlast_last_id [OF that] by simp
  qed
  then show ?thesis by (simp add: spec_free_def tw merged_list_def j Let_def del: join_right.simps)
qed

section \<open>Construction\<close>

lemma FreeList_init_heap_ok:
  assumes "0 < start" and ge: "unat start + 12 \<le> unat endd" and "\<not> fl_lock s0"
  shows "heap_ok (FreeList_init s0 start endd unmap) [(start, endd - start - 12)] {}"
proof -
  have d: "unat (endd - start) = unat endd - unat start" using ge by (simp add: unat_sub_u32 word_le_nat_alt)
  have big: "\<not> endd - start < HEADER_SIZE"
    using ge d by (simp add: HEADER_SIZE_def word_less_nat_alt)
  have sz: "unat (endd - start - 12) = unat endd - unat start - 12"
    using ge d by (subst unat_sub_u32) (simp_all add: word_le_nat_alt)
  have "hdr_ok start" unfolding hdr_ok_def using ge unat_u32_bound [of endd] by linarith
  then have hs: "hset {start}" by (simp add: hset_def)
  have "0 < unat start" using assms(1) by (simp add: word_less_nat_alt)
  then show ?thesis
    using assms(3) big ge sz
    by (simp add: heap_ok_def fl_ok_def fl_inv_def FreeList_init_def MemoryManager_init_def Let_def
        hset_rules [OF hs] HEADER_SIZE_def)
qed

section \<open>The contract holds\<close>

text \<open>A client's block \<open>(p, n)\<close> is backed by a block of at least \<open>n\<close> bytes with its header 12 bytes below \<open>p\<close>.\<close>

definition heap_live :: "u32 \<Rightarrow> u32 \<Rightarrow> free_list_manager \<Rightarrow> blocks \<Rightarrow> bool" where
  "heap_live lo hi s B \<longleftrightarrow> memoryStartAddress s = lo \<and> memoryEndAddress s = hi \<and> distinct (map fst B)
     \<and> (\<exists>cs bs. heap_ok s cs bs \<and> (\<forall>b \<in> set B. \<exists>z. snd b \<le> z \<and> (fst b - 12, z) \<in> bs))"

definition poke :: "free_list_manager \<Rightarrow> u32 \<Rightarrow> u8 \<Rightarrow> free_list_manager" where
  "poke s a v = s\<lparr>fl_mem := (fl_mem s)(a := v)\<rparr>"

definition heap_free_ptr :: "bool \<Rightarrow> free_list_manager \<Rightarrow> u32 \<Rightarrow> free_list_manager option" where
  "heap_free_ptr initialized s p = map_option fst (FreeList_free initialized s p)"

lemma block_addr:
  assumes "heap_ok s cs bs" "(p - 12, z) \<in> bs"
  shows "unat p = unat (p - 12) + 12" "unat (p - 12) + 12 + unat z \<le> unat (memoryEndAddress s)"
    "unat (memoryStartAddress s) \<le> unat (p - 12)" "p \<noteq> 0"
proof -
  have ok: "block_ok s (p - 12, z)" and lo: "0 < unat (memoryStartAddress s)"
    using assms by (auto simp: heap_ok_def fl_ok_def fl_inv_def)
  then show hi: "unat (p - 12) + 12 + unat z \<le> unat (memoryEndAddress s)"
    and "unat (memoryStartAddress s) \<le> unat (p - 12)" by (auto simp: block_ok_def)
  have "unat (p - 12) + 12 < 4294967296" using hi unat_u32_bound [of "memoryEndAddress s"] by linarith
  then have "unat (p - 12 + 12) = unat (p - 12) + 12" using unat_add_u32 [of "p - 12" 12] by simp
  then show "unat p = unat (p - 12) + 12" by simp
  then show "p \<noteq> 0" by auto
qed

lemma heap_poke:
  assumes H: "heap_ok s cs bs" and b: "(h, z) \<in> bs" and a: "unat h + 12 \<le> unat a" "unat a < unat h + 12 + unat z"
  shows "heap_ok (poke s a v) cs bs"
proof -
  let ?m = "(fl_mem s)(a := v)"
  have chunk: "h_size ?m c = h_size (fl_mem s) c \<and> h_prev ?m c = h_prev (fl_mem s) c \<and> h_next ?m c = h_next (fl_mem s) c"
    if "(c, y) \<in> set cs" for c y
  proof -
    have ch: "chunks_in (unat (memoryStartAddress s)) (unat (memoryEndAddress s)) cs"
      and ap: "apart_chunks (h, z) (c, y)" using H b that by (auto simp: heap_ok_def fl_ok_def fl_inv_def)
    have "hdr_ok c" unfolding hdr_ok_def
      using chunks_in_mem [OF ch that] unat_u32_bound [of "memoryEndAddress s"] unfolding fst_conv snd_conv by linarith
    moreover have "?m x = fl_mem s x" if "in_header c x" for x
      using ap a that by (auto simp: apart_chunks_def in_header_def)
    ultimately show ?thesis using header_cong [of c ?m "fl_mem s"] by auto
  qed
  have "links ?m 0 cs 0 \<longleftrightarrow> links (fl_mem s) 0 cs 0"
    by (rule links_cong) (use chunk in auto)
  then have "fl_ok (poke s a v) cs" using H by (simp add: heap_ok_def fl_ok_def fl_inv_def poke_def)
  moreover have "block_ok (poke s a v) b" if "b \<in> bs" for b
  proof (rule block_ok_cong)
    show "block_ok s b" using H that by (simp add: heap_ok_def)
    have "b = (h, z) \<or> apart_chunks b (h, z)" using H b that by (auto simp: heap_ok_def)
    then show "fl_mem (poke s a v) x = fl_mem s x" if "in_header (fst b) x" for x
      using a that by (auto simp: apart_chunks_def in_header_def poke_def)
  qed (simp_all add: poke_def)
  ultimately show ?thesis using H by (simp add: heap_ok_def)
qed

lemma heap_alloc_live:
  assumes L: "heap_live lo hi s B" and n: "0 < n" "n \<le> 0xFFFFFFFC"
  shows "\<exists>s' p. FreeList_alloc s n = Some (s', p) \<and> heap_live lo hi s' (if p = 0 then B else (p, n) # B)
           \<and> (\<forall>b \<in> set B. \<forall>a. in_block a b \<longrightarrow> fl_mem s' a = fl_mem s a)"
proof -
  let ?sz = "alignUp n 4"
  obtain cs bs where H: "heap_ok s cs bs" and B: "\<forall>b \<in> set B. \<exists>z. snd b \<le> z \<and> (fst b - 12, z) \<in> bs"
    and d: "distinct (map fst B)" and lohi: "memoryStartAddress s = lo" "memoryEndAddress s = hi"
    using L by (auto simp: heap_live_def)
  have "fl_ok s cs" using H by (simp add: heap_ok_def)
  note run = FreeList_alloc_eq [OF this n(1)]
  have nsz: "n \<le> ?sz" using alignUp_bounds(1) [of 2 n] n(2) by (simp add: word_le_nat_alt)
  show ?thesis
  proof (cases "dropWhile (\<lambda>c. snd c < ?sz) cs")
    case Nil
    then show ?thesis using run L unfolding Nil by simp
  next
    case (Cons e ys)
    obtain c z where e: "e = (c, z)" by (cases e)
    let ?xs = "takeWhile (\<lambda>c. snd c < ?sz) cs"
    let ?s' = "lock_release (take_chunk c ?sz (s\<lparr>fl_lock := True\<rparr>))"
    note hit = spec_alloc_hit [OF Cons [unfolded e]]
    have H': "heap_ok s (?xs @ (c, z) # ys) bs" using H hit(1) by simp
    note A = heap_alloc_hit [OF H' hit(2)]
    have res: "FreeList_alloc s n = Some (?s', c + 12)" using run unfolding Cons e by simp
    have c12: "c + 12 \<noteq> 0" by (rule block_addr(4) [OF A(1), of _ "taken ?sz z"]) simp
    have "n \<le> taken ?sz z" using nsz taken_bounds(1) [OF hit(2)] by simp
    moreover have "c + 12 \<notin> set (map fst B)"
    proof
      assume "c + 12 \<in> set (map fst B)"
      then obtain y where "(c, y) \<in> bs" using B by force
      then have "apart_chunks (c, y) (c, z)" using H' by (auto simp: heap_ok_def)
      then show False by (simp add: apart_chunks_def)
    qed
    ultimately have "heap_live lo hi ?s' ((c + 12, n) # B)"
      unfolding heap_live_def using A(1,4,5) lohi B d by (intro conjI exI) (auto 0 3)
    moreover have "fl_mem ?s' a = fl_mem s a" if b: "b \<in> set B" "in_block a b" for a b
    proof -
      obtain y where y: "snd b \<le> y" "(fst b - 12, y) \<in> bs" using B b by blast
      have "unat (snd b) \<le> unat y" using y(1) by (simp add: word_le_nat_alt)
      with b(2) block_addr(1) [OF H y(2)] show ?thesis
        by (intro A(3) [OF y(2)]) (auto simp: in_block_def)
    qed
    ultimately show ?thesis using res c12 by auto
  qed
qed


lemma heap_free_live:
  assumes L: "heap_live lo hi s B" and p: "p \<in> set (map fst B)"
  shows "\<exists>s'. heap_free_ptr initialized s p = Some s' \<and> heap_live lo hi s' (filter (\<lambda>b. fst b \<noteq> p) B)
           \<and> (\<forall>b \<in> set B. \<forall>a. fst b \<noteq> p \<and> in_block a b \<longrightarrow> fl_mem s' a = fl_mem s a)"
proof -
  obtain cs bs where H: "heap_ok s cs bs" and B: "\<forall>b \<in> set B. \<exists>z. snd b \<le> z \<and> (fst b - 12, z) \<in> bs"
    and d: "distinct (map fst B)" and lohi: "memoryStartAddress s = lo" "memoryEndAddress s = hi"
    using L by (auto simp: heap_live_def)
  obtain z where z: "(p - 12, z) \<in> bs" using B p by auto
  obtain s' u where F: "FreeList_free initialized s (p - 12 + 12) = Some (s', u)"
    "heap_ok s' (spec_free (p - 12, z) cs) (bs - {(p - 12, z)})"
    "\<And>a x. a \<in> bs - {(p - 12, z)} \<Longrightarrow> unat (fst a) \<le> unat x \<Longrightarrow> unat x < unat (fst a) + 12 + unat (snd a)
       \<Longrightarrow> fl_mem s' x = fl_mem s x"
    "memoryStartAddress s' = memoryStartAddress s" "memoryEndAddress s' = memoryEndAddress s"
    by (rule heap_free [OF H z]) (rule that)
  have other: "\<exists>y. snd b \<le> y \<and> (fst b - 12, y) \<in> bs - {(p - 12, z)}" if "b \<in> set B" "fst b \<noteq> p" for b
    using B that by fastforce
  have "heap_free_ptr initialized s p = Some s'" using F(1) by (simp add: heap_free_ptr_def)
  moreover have "heap_live lo hi s' (filter (\<lambda>b. fst b \<noteq> p) B)"
    unfolding heap_live_def using F(2,4,5) lohi other d by (intro conjI exI) (auto simp: distinct_map_filter)
  moreover have "fl_mem s' a = fl_mem s a" if b: "b \<in> set B" "fst b \<noteq> p" "in_block a b" for a b
  proof -
    obtain y where y: "snd b \<le> y" "(fst b - 12, y) \<in> bs - {(p - 12, z)}" using other b by blast
    have "unat (snd b) \<le> unat y" using y(1) by (simp add: word_le_nat_alt)
    with b(3) block_addr(1) [OF H, of "fst b" y] y(2) show ?thesis
      by (intro F(3) [OF y(2)]) (auto simp: in_block_def)
  qed
  ultimately show ?thesis by blast
qed

lemma heap_live_apart:
  assumes L: "heap_live lo hi s B"
  shows "blocks_apart B"
    and "b \<in> set B \<Longrightarrow> unat lo + 12 \<le> unat (fst b)"
    and "b \<in> set B \<Longrightarrow> unat (fst b) + unat (snd b) \<le> unat hi"
proof -
  obtain cs bs where H: "heap_ok s cs bs" and B: "\<forall>b \<in> set B. \<exists>z. snd b \<le> z \<and> (fst b - 12, z) \<in> bs"
    and d: "distinct (map fst B)" and lohi: "memoryStartAddress s = lo" "memoryEndAddress s = hi"
    using L by (auto simp: heap_live_def)
  have low: "\<exists>z. unat (snd b) \<le> unat z \<and> (fst b - 12, z) \<in> bs" if "b \<in> set B" for b
    using B that by (fastforce simp: word_le_nat_alt)
  show "unat lo + 12 \<le> unat (fst b)" if b: "b \<in> set B"
    using lohi low [OF b] block_addr [OF H, of "fst b"] by fastforce
  show "unat (fst b) + unat (snd b) \<le> unat hi" if b: "b \<in> set B"
    using lohi low [OF b] block_addr [OF H, of "fst b"] by fastforce
  have "unat (fst a) + unat (snd a) \<le> unat (fst b) \<or> unat (fst b) + unat (snd b) \<le> unat (fst a)"
    if ab: "a \<in> set B" "b \<in> set B" "fst a \<noteq> fst b" for a b
  proof -
    obtain y z where y: "unat (snd a) \<le> unat y" "(fst a - 12, y) \<in> bs"
      and z: "unat (snd b) \<le> unat z" "(fst b - 12, z) \<in> bs" using low ab by blast
    have "apart_chunks (fst a - 12, y) (fst b - 12, z)" using H y z ab(3) by (auto simp: heap_ok_def)
    then show ?thesis
      using block_addr(1) [OF H y(2)] block_addr(1) [OF H z(2)] y(1) z(1) by (auto simp: apart_chunks_def)
  qed
  then show "blocks_apart B" using d by (auto simp: blocks_apart_def)
qed

interpretation kheap: allocator "heap_live lo hi" fl_mem FreeList_alloc "heap_free_ptr initialized" poke
  for initialized lo hi
proof unfold_locales
  show "blocks_apart B" if "heap_live lo hi s B" for s B using that by (rule heap_live_apart)
  show "heap_live lo hi (poke s a v) B" if L: "heap_live lo hi s B" and b: "b \<in> set B" "in_block a b" for s B b a v
  proof -
    obtain cs bs where H: "heap_ok s cs bs" and B: "\<forall>b \<in> set B. \<exists>z. snd b \<le> z \<and> (fst b - 12, z) \<in> bs"
      and d: "distinct (map fst B)" and lohi: "memoryStartAddress s = lo" "memoryEndAddress s = hi"
    using L by (auto simp: heap_live_def)
    obtain z where z: "snd b \<le> z" "(fst b - 12, z) \<in> bs" using B b(1) by blast
    have "heap_ok (poke s a v) cs bs"
      by (rule heap_poke [OF H z(2)])
        (use b(2) block_addr(1) [OF H z(2)] z(1) in \<open>auto simp: in_block_def word_le_nat_alt\<close>)
    then show ?thesis using B d lohi by (auto simp: heap_live_def poke_def)
  qed
  show "fl_mem (poke s a v) = (fl_mem s)(a := v)" for s a v by (simp add: poke_def)
qed (rule heap_alloc_live heap_free_live; assumption)+

end
