(* ===== verification/Heap_Properties.thy ===== *)
theory Heap_Properties
  imports Kernel_Heap
begin

text \<open>
  The properties of the free list heap: what its clients can rely on, the refinement of the
  first-fit and coalescing specifications, and the cases in which the code does not meet them.
\<close>

section \<open>A concrete heap\<close>

definition heap0 :: free_list_manager where
  "heap0 = \<lparr>memoryStartAddress = 0, memoryEndAddress = 0, freeMemory = 0, doUnmap = False,
            fl_lock = False, firstChunk = 0, fl_mem = (\<lambda>_. 0)\<rparr>"

definition heap1 :: free_list_manager where
  "heap1 = FreeList_init heap0 0x1000 0x2000 False"

lemma heap1_ok: "heap_ok heap1 [(0x1000, 0xFF4)] {}"
  using FreeList_init_heap_ok [of "0x1000" "0x2000" heap0 False] by (simp add: heap1_def heap0_def)

lemma heap1_fl_ok: "fl_ok heap1 [(0x1000, 0xFF4)]"
  using heap1_ok by (simp add: heap_ok_def)

lemma alignUp_4_4 [simp]: "alignUp 4 4 = 4"
  by (simp add: alignUp_def)

lemma alloc_heap1:
  "FreeList_alloc heap1 4 = Some (lock_release (take_chunk 0x1000 4 (heap1\<lparr>fl_lock := True\<rparr>)), 0x100C)"
  using FreeList_alloc_eq [OF heap1_fl_ok, of 4] by simp

section \<open>What a client can rely on\<close>

lemma heap_live_init:
  assumes "0 < start" "unat start + 12 \<le> unat endd" "\<not> fl_lock s0"
  shows "heap_live start endd (FreeList_init s0 start endd unmap) []"
proof -
  have "memoryStartAddress (FreeList_init s0 start endd unmap) = start"
    "memoryEndAddress (FreeList_init s0 start endd unmap) = endd"
    by (simp_all add: FreeList_init_def MemoryManager_init_def Let_def)
  then show ?thesis using FreeList_init_heap_ok [OF assms] by (auto simp: heap_live_def)
qed

text \<open>C1. Memory safety of the kernel heap. Whatever its clients allocate, free and write, a heap
  made by \<open>init\<close> on a region of at least 12 bytes never hangs and never loses its structure: all
  blocks that are in use lie inside of the region, behind a header, and no two of them overlap. The
  requests are allocations without alignment of at most \<open>0xFFFFFFFC\<close> bytes, above which the rounding
  to four bytes wraps, frees of blocks in use and writes into them; \<open>realloc\<close> is not one of them.\<close>

theorem kernel_heap_safe:
  assumes "0 < start" "unat start + 12 \<le> unat endd" "\<not> fl_lock s0"
  shows "\<exists>s B. client_run FreeList_alloc (heap_free_ptr ini) poke requests
             (FreeList_init s0 start endd unmap, []) = Some (s, B)
           \<and> (\<forall>b \<in> set B. unat start + 12 \<le> unat (fst b) \<and> unat (fst b) + unat (snd b) \<le> unat endd)
           \<and> blocks_apart B"
  using kheap.run_live [OF heap_live_init [OF assms], of ini requests unmap] heap_live_apart by blast

theorem kernel_heap_safe_witness:
  "\<exists>s B. client_run FreeList_alloc (heap_free_ptr False) poke [Alloc 100, Alloc 8, Free 0x100C]
       (FreeList_init heap0 0x1000 0x2000 False, []) = Some (s, B)
     \<and> (\<forall>b \<in> set B. unat (0x1000 :: u32) + 12 \<le> unat (fst b) \<and> unat (fst b) + unat (snd b) \<le> unat (0x2000 :: u32))
     \<and> blocks_apart B"
  by (rule kernel_heap_safe) (simp_all add: heap0_def)

text \<open>C2. Isolation of blocks. The contents of a block that is in use change only by the writes of
  its owner: no other request, neither an allocation nor the freeing and merging of its
  neighbours nor a write into another block, changes one of its bytes. The requests are those of the
  safety property above: no allocation with alignment, no \<open>realloc\<close>.\<close>

theorem kernel_heap_isolation:
  assumes "0 < start" "unat start + 12 \<le> unat endd" "\<not> fl_lock s0"
    and "client_run FreeList_alloc (heap_free_ptr ini) poke before (FreeList_init s0 start endd unmap, []) = Some (s, B)"
    and "b \<in> set B" "\<forall>r \<in> set later. \<not> touches b r"
  shows "\<exists>s' B'. client_run FreeList_alloc (heap_free_ptr ini) poke later (s, B) = Some (s', B')
           \<and> b \<in> set B' \<and> (\<forall>a. in_block a b \<longrightarrow> fl_mem s' a = fl_mem s a)"
proof -
  have "heap_live start endd s B"
    using kheap.run_live [OF heap_live_init [OF assms(1-3)], of ini before unmap] assms(4) by auto
  from kheap.run_live [OF this, of ini later] assms(5,6) show ?thesis by blast
qed

theorem kernel_heap_isolation_witness:
  "\<exists>s B. client_run FreeList_alloc (heap_free_ptr False) poke [Alloc 4]
        (FreeList_init heap0 0x1000 0x2000 False, []) = Some (s, B)
     \<and> (\<exists>s' B'. client_run FreeList_alloc (heap_free_ptr False) poke [Alloc 8, Poke 0x101C 7] (s, B) = Some (s', B')
          \<and> (0x100C, 4) \<in> set B' \<and> (\<forall>a. in_block a (0x100C, 4) \<longrightarrow> fl_mem s' a = fl_mem s a))"
proof -
  let ?s = "lock_release (take_chunk 0x1000 4 (heap1\<lparr>fl_lock := True\<rparr>))"
  have run: "client_run FreeList_alloc (heap_free_ptr False) poke [Alloc 4]
      (FreeList_init heap0 0x1000 0x2000 False, []) = Some (?s, [(0x100C, 4)])"
    using alloc_heap1 by (simp add: client_step_def heap1_def [symmetric])
  show ?thesis
    using kernel_heap_isolation [OF _ _ _ run, of "(0x100C, 4)" "[Alloc 8, Poke 0x101C 7]"] run
    by (auto simp: heap0_def touches_def in_block_def)
qed

section \<open>Refinement of the specifications\<close>

lemma snd_spec_alloc_zero:
  assumes "fl_ok s cs"
  shows "snd (spec_alloc sz cs) = 0 \<longleftrightarrow> (\<forall>c \<in> set cs. snd c < sz)"
proof (cases "dropWhile (\<lambda>c. snd c < sz) cs")
  case Nil
  then have "\<forall>c \<in> set cs. snd c < sz" by (simp add: dropWhile_eq_Nil_conv)
  then show ?thesis unfolding spec_alloc_def Nil by simp
next
  case (Cons d ys)
  obtain c z where d: "d = (c, z)" by (cases d)
  note hit = spec_alloc_hit [OF Cons [unfolded d]]
  have "(c, z) \<in> set cs" by (subst hit(1)) simp
  then have "unat c + 12 + unat z \<le> unat (memoryEndAddress s)"
    using assms chunks_in_mem [of _ _ cs "(c, z)"] by (auto simp: fl_ok_def fl_inv_def)
  then have "unat c + 12 < 4294967296" using unat_u32_bound [of "memoryEndAddress s"] by linarith
  then have "unat (c + 12) = unat c + 12" using unat_add_u32 [of c 12] by simp
  then have "c + 12 \<noteq> 0" by auto
  with hit \<open>(c, z) \<in> set cs\<close> show ?thesis by (force simp: not_less)
qed

text \<open>C5. \<open>alloc\<close> implements first fit. On a heap whose free chunks are \<open>cs\<close> it
  returns, leaves a well-formed list, and chunks and pointer are those of \<open>spec_alloc\<close>: the
  first chunk in address order that holds the size rounded up to 4 is cut or handed
  out whole. It fails with a null pointer exactly if no chunk is large enough, and it writes
  only to memory that was free.\<close>

theorem FreeList_alloc_refines:
  assumes "fl_ok s cs" "0 < n"
  shows "\<exists>s'. FreeList_alloc s n = Some (s', snd (spec_alloc (alignUp n 4) cs))
           \<and> fl_ok s' (fst (spec_alloc (alignUp n 4) cs))
           \<and> (snd (spec_alloc (alignUp n 4) cs) = 0 \<longleftrightarrow> (\<forall>c \<in> set cs. snd c < alignUp n 4))
           \<and> (\<forall>x. outside cs x \<longrightarrow> fl_mem s' x = fl_mem s x)"
  using FreeList_alloc_spec [OF assms] snd_spec_alloc_zero [OF assms(1)] by metis

theorem FreeList_alloc_refines_witness:
  "\<exists>s'. FreeList_alloc heap1 4 = Some (s', 0x100C) \<and> fl_ok s' [(0x1010, 0xFE4)]
     \<and> (\<forall>x. outside [(0x1000, 0xFF4)] x \<longrightarrow> fl_mem s' x = fl_mem heap1 x)"
  using FreeList_alloc_refines [OF heap1_fl_ok, of 4] by (simp add: spec_alloc_def)

text \<open>C6. \<open>free\<close> gives a block back to the address ordered list and coalesces. Freeing a block
  in use returns, and the free chunks afterwards are those of \<open>spec_free\<close>: the block is
  joined with the chunk that ends where it begins and with the chunk that begins where it ends, so that
  again no two free chunks touch. If pages are to be unmapped, their range is the
  data of one of these free chunks, of at least a page.\<close>

theorem FreeList_free_coalesces:
  assumes "heap_ok s cs bs" "(h, z) \<in> bs"
  shows "\<exists>s' u. FreeList_free ini s (h + 12) = Some (s', u)
           \<and> heap_ok s' (spec_free (h, z) cs) (bs - {(h, z)})
           \<and> coalesced (spec_free (h, z) cs)
           \<and> (\<forall>a b. u = Some (a, b) \<longrightarrow>
                (\<exists>c \<in> set (spec_free (h, z) cs).
                   a = fst c + 12 \<and> b = fst c + (12 + snd c) - 1 \<and> PAGESIZE \<le> snd c))"
proof (rule heap_free [OF assms, of ini])
  fix s' u
  assume A: "FreeList_free ini s (h + 12) = Some (s', u)" "heap_ok s' (spec_free (h, z) cs) (bs - {(h, z)})"
    "case u of None \<Rightarrow> True
     | Some (a, b) \<Rightarrow> \<exists>c \<in> set (spec_free (h, z) cs). a = fst c + 12 \<and> b = fst c + (12 + snd c) - 1
                       \<and> 0x1000 \<le> snd c"
  then have "coalesced (spec_free (h, z) cs)" by (simp add: heap_ok_def)
  with A show ?thesis by (auto simp: PAGESIZE_def)
qed

lemma heap2_ok:
  "heap_ok (lock_release (take_chunk 0x1000 4 (heap1\<lparr>fl_lock := True\<rparr>))) [(0x1010, 0xFE4)] {(0x1000, 4)}"
  using heap_alloc_hit(1) [of heap1 "[]" "0x1000" "0xFF4" "[]" "{}" 4] heap1_ok
  by (simp add: remainder_def taken_def)

theorem FreeList_free_coalesces_witness:
  "\<exists>s' u. FreeList_free True (lock_release (take_chunk 0x1000 4 (heap1\<lparr>fl_lock := True\<rparr>))) 0x100C = Some (s', u)
     \<and> heap_ok s' [(0x1000, 0xFF4)] {}"
  using FreeList_free_coalesces [OF heap2_ok, of "0x1000" 4 True]
  by (auto simp: spec_free_def merged_list_def)

text \<open>C21. Freeing a block right after it was allocated undoes the allocation: the list of free
  chunks, and with it the amount of free memory, is the one before.\<close>

theorem alloc_free_roundtrip:
  assumes "heap_ok s cs bs" "0 < n" "FreeList_alloc s n = Some (s1, p)" "p \<noteq> 0"
  shows "\<exists>s2 u. FreeList_free ini s1 p = Some (s2, u) \<and> heap_ok s2 cs bs \<and> freeMemory s2 = freeMemory s"
proof -
  let ?sz = "alignUp n 4"
  have ok: "fl_ok s cs" using assms(1) by (simp add: heap_ok_def)
  note run = FreeList_alloc_eq [OF ok assms(2)]
  obtain c z ys where Cons: "dropWhile (\<lambda>c. snd c < ?sz) cs = (c, z) # ys"
    using run assms(3,4) by (cases "dropWhile (\<lambda>c. snd c < ?sz) cs") auto
  let ?xs = "takeWhile (\<lambda>c. snd c < ?sz) cs"
  note hit = spec_alloc_hit [OF Cons]
  have H: "heap_ok s (?xs @ (c, z) # ys) bs" using assms(1) hit(1) by simp
  note A = heap_alloc_hit [OF H hit(2)]
  have s1: "s1 = lock_release (take_chunk c ?sz (s\<lparr>fl_lock := True\<rparr>))" "p = c + 12"
    using run assms(3) unfolding Cons by simp_all
  have "spec_free (c, taken ?sz z) (?xs @ remainder ?sz (c, z) @ ys) = ?xs @ (c, z) # ys"
    by (rule spec_free_taken [of "unat (memoryStartAddress s)" "unat (memoryEndAddress s)"])
      (use H hit(2) in \<open>auto simp: heap_ok_def fl_ok_def fl_inv_def\<close>)
  then have undo: "spec_free (c, taken ?sz z) (?xs @ remainder ?sz (c, z) @ ys) = cs" using hit(1) by simp
  show ?thesis
  proof (rule heap_free [OF A(1), of c "taken ?sz z" ini])
    fix s2 u
    assume F: "FreeList_free ini (lock_release (take_chunk c ?sz (s\<lparr>fl_lock := True\<rparr>))) (c + 12) = Some (s2, u)"
      "heap_ok s2 (spec_free (c, taken ?sz z) (?xs @ remainder ?sz (c, z) @ ys))
         (insert (c, taken ?sz z) bs - {(c, taken ?sz z)})"
    have "heap_ok s2 cs bs" using F(2) A(2) undo by simp
    moreover from this have "freeMemory s2 = freeMemory s" using ok by (simp add: heap_ok_def fl_ok_def fl_inv_def)
    ultimately show ?thesis using F(1) s1 by blast
  qed simp
qed

theorem alloc_free_roundtrip_witness:
  "\<exists>s1 s2 u. FreeList_alloc heap1 4 = Some (s1, 0x100C) \<and> FreeList_free True s1 0x100C = Some (s2, u)
     \<and> heap_ok s2 [(0x1000, 0xFF4)] {} \<and> freeMemory s2 = freeMemory heap1"
  using alloc_free_roundtrip [OF heap1_ok _ alloc_heap1, of True] alloc_heap1 by auto

section \<open>Where the code departs from its purpose\<close>

lemma alignUp_wraps:
  assumes "(0xFFFFFFFC :: u32) < n"
  shows "alignUp n 4 = 0"
proof -
  obtain k where k: "unat n + 3 = 4294967296 + k" "k < 4"
  proof
    show "unat n + 3 = 4294967296 + (unat n - 4294967293)" "unat n - 4294967293 < 4"
      using assms unat_u32_bound [of n] unfolding word_less_nat_alt
      by (simp_all del: unat_u32_bound)
  qed
  have "unat (n + 3) = (unat n + 3) mod 4294967296" by (simp add: unat_word_ariths)
  then have "unat (n + 3) < 4" unfolding k(1) using k(2) by simp
  then have "unat ((n + 3) AND NOT (mask 2)) = 0" by (simp add: unat_and_not_mask)
  then show ?thesis by (simp add: alignUp_def mask_eq_exp_minus_1 unat_eq_0)
qed

text \<open>A request for more than \<open>0xFFFFFFFC\<close> bytes does not fail: rounding the size up to 4
  wraps around to 0, and \<open>alloc\<close> answers with a pointer to a block of 0 bytes.\<close>

lemma alloc_size_wraps:
  assumes "fl_ok s ((c, z) # cs)" "16 \<le> z" "0xFFFFFFFC < n"
  shows "\<exists>s'. FreeList_alloc s n = Some (s', c + 12) \<and> h_size (fl_mem s') c = 0"
proof -
  let ?s1 = "s\<lparr>fl_lock := True\<rparr>"
  have n: "0 < n" using assms(3) by (auto simp: word_gt_0)
  have inv: "fl_inv ?s1 ([] @ (c, z) # cs)" using assms(1) by (simp add: fl_ok_def fl_inv_def)
  have "FreeList_alloc s n = Some (lock_release (take_chunk c 0 ?s1), c + 12)"
    using FreeList_alloc_eq [OF assms(1) n] by (simp add: alignUp_wraps [OF assms(3)])
  moreover have "h_size (fl_mem (lock_release (take_chunk c 0 ?s1))) c = 0"
    using take_chunk_inv(2) [OF inv, of 0] assms(2) by (simp add: lock_release_def)
  ultimately show ?thesis by blast
qed

lemma alloc_size_wraps_witness:
  "\<exists>s'. FreeList_alloc heap1 0xFFFFFFFF = Some (s', 0x100C) \<and> h_size (fl_mem s') 0x1000 = 0"
  using alloc_size_wraps [OF heap1_fl_ok, of "0xFFFFFFFF"] by simp

text \<open>C37. Allocation with an alignment corrupts the free list. When the chunk at \<open>c\<close> is split
  at the aligned header \<open>a\<close>, both size computations are 24 bytes too large: the first
  part reaches 24 bytes into the second one, over its header, and the second part ends 24 bytes
  behind the end of the chunk that was split.\<close>

theorem aligned_split_overlaps:
  assumes "hset S" "c \<in> S" "a \<in> S" "a \<noteq> c"
    and "h_next m c = n" "n = 0 \<or> n \<in> S \<and> n \<noteq> c \<and> n \<noteq> a"
  shows "c + 12 + h_size (split_aligned c a m) c = a + 24
           \<and> a + 12 + h_size (split_aligned c a m) a = c + 12 + h_size m c + 24"
proof -
  note R = hset_rules [OF assms(1)]
  have "h_size (split_aligned c a m) c = a - c + 12 \<and> h_size (split_aligned c a m) a = c + 12 + h_size m c - a + 12"
    using assms(2-6) unfolding split_aligned_def Let_def by (auto simp: R HEADER_SIZE_def)
  then show ?thesis by simp
qed

lemma heap1_mem: "h_next (fl_mem heap1) 0x1000 = 0" "h_size (fl_mem heap1) 0x1000 = 0xFF4"
  using heap1_fl_ok by (simp_all add: fl_ok_def fl_inv_def)

theorem aligned_split_overlaps_witness:
  "hset {0x1000, 0x10F4} \<and>
   0x1000 + 12 + h_size (split_aligned 0x1000 0x10F4 (fl_mem heap1)) 0x1000 = 0x10F4 + 24 \<and>
   0x10F4 + 12 + h_size (split_aligned 0x1000 0x10F4 (fl_mem heap1)) 0x10F4 = memoryEndAddress heap1 + 24"
proof -
  have hs: "hset {0x1000, 0x10F4}" by (simp add: hset_def hdr_ok_def hdr_sep_def)
  have "memoryEndAddress heap1 = 0x2000"
    by (simp add: heap1_def FreeList_init_def MemoryManager_init_def Let_def)
  then show ?thesis
    using hs aligned_split_overlaps [OF hs, of "0x1000" "0x10F4" "fl_mem heap1" 0] heap1_mem by simp
qed

lemma FreeList_merge_firstChunk: "firstChunk (fst (FreeList_merge s h)) = firstChunk s"
  by (simp add: FreeList_merge_def absorb_next_def Let_def)

text \<open>C38. Shrinking a block with \<open>realloc\<close> frees the wrong memory. The rest of the block begins
  with a header at \<open>ptr + sz\<close>, but the address that is freed is computed with pointer
  arithmetic on headers: on a heap without free chunks the list afterwards starts 132 bytes
  behind the header that was written.\<close>

theorem realloc_shrink_frees_wrong_block:
  assumes "\<not> fl_lock s" "firstChunk s = 0"
    and "0 < sz" "sz < h_size (fl_mem s) (ptr - 12)" "16 < h_size (fl_mem s) (ptr - 12) - sz"
    and "memoryStartAddress s \<le> ptr + sz + 144" "ptr + sz + 144 \<le> memoryEndAddress s" "ptr + sz + 144 \<noteq> 0"
  shows "\<exists>s' u. FreeList_realloc ini s ptr sz = Some (s', ptr, u) \<and> firstChunk s' = (ptr + sz) + 132"
proof -
  let ?s1 = "upd_mem (set_size (ptr + sz) (h_size (fl_mem s) (ptr - 12) - sz - 12)) s"
  let ?s2 = "?s1\<lparr>fl_lock := True\<rparr>"
  let ?h = "ptr + sz + 132"
  let ?s3 = "?s2\<lparr>freeMemory := freeMemory ?s2 + h_size (fl_mem ?s2) ?h, firstChunk := ?h\<rparr>"
  have guards: "\<not> ptr + sz + 144 < memoryStartAddress ?s2" "\<not> memoryEndAddress ?s2 < ptr + sz + 144"
    using assms(6,7) by (simp_all add: not_less)
  have lb: "link_block ?h (?s2\<lparr>freeMemory := freeMemory ?s2 + h_size (fl_mem ?s2) ?h\<rparr>) = Some ?s3"
    using assms(2) by (simp add: link_block_def)
  obtain s4 k where mg: "FreeList_merge ?s3 ?h = (s4, k)" by (cases "FreeList_merge ?s3 ?h")
  have fc: "firstChunk s4 = ?h" using FreeList_merge_firstChunk [of ?s3 ?h] mg by simp
  have hd: "ptr + sz + 144 - HEADER_SIZE = ?h" by (simp add: HEADER_SIZE_def)
  obtain u where "freeAlgorithm ini ?s2 (ptr + sz + 144) = Some (s4, u)"
    using guards lb mg assms(8) by (simp add: freeAlgorithm_def hd Let_def)
  then have fr: "FreeList_free ini ?s1 (ptr + sz + 144) = Some (lock_release s4, u)"
    using assms(1) by (simp add: FreeList_free_def FreeList_free_aligned_def lock_acquire_def)
  have "FreeList_realloc ini s ptr sz = realloc_shrink ini s ptr sz"
    using assms(3,4) by (auto simp: FreeList_realloc_def FreeList_realloc_aligned_def HEADER_SIZE_def Let_def)
  also have "\<dots> = Some (upd_mem (set_size (ptr - 12) sz) (lock_release s4), ptr, u)"
    using assms(5) fr by (simp add: realloc_shrink_def HEADER_SIZE_def MIN_BLOCK_SIZE_def Let_def)
  finally show ?thesis using fc by (auto simp: lock_release_def)
qed

text \<open>A heap of 4 KiB that one block fills completely.\<close>

definition heap3 :: free_list_manager where
  "heap3 = \<lparr>memoryStartAddress = 0x1000, memoryEndAddress = 0x2000, freeMemory = 0, doUnmap = False,
            fl_lock = False, firstChunk = 0, fl_mem = set_size 0x1000 0xFF4 (\<lambda>_. 0)\<rparr>"

theorem realloc_shrink_frees_wrong_block_witness:
  "\<exists>s' u. FreeList_realloc True heap3 0x100C 0x100 = Some (s', 0x100C, u) \<and> firstChunk s' = 0x110C + 132"
proof -
  have "h_size (fl_mem heap3) (0x100C - 12) = 0xFF4" by (simp add: heap3_def h_size_def set_size_def)
  then show ?thesis
    using realloc_shrink_frees_wrong_block [of heap3 "0x100" "0x100C" True] by (simp add: heap3_def)
qed

end
