(* ===== verification/Arrays.thy ===== *)
theory Arrays
  imports Prelude "HOL-Library.Multiset"
begin

text \<open>
  \<open>lib/util/Array\<close> and \<open>lib/util/Iterator\<close>: arrays with checked access and the
  iterator over a snapshot of an array. The value that \<open>new T[n]\<close> leaves in the elements (the
  default constructor of \<open>T\<close>, or indeterminate memory) is the argument \<open>dflt\<close>.

  \<open>Array::sort\<close> is a bubble sort; its outer loop runs until a pass changes nothing and is a
  partial function, shown to end by counting inversions.
\<close>

section \<open>Arrays\<close>

record 'a array =
  arr_array :: "'a list"
  arr_capacity :: u32

definition Array_new :: "'a \<Rightarrow> u32 \<Rightarrow> 'a array" where
  "Array_new dflt capacity = \<lparr>arr_array = replicate (unat capacity) dflt, arr_capacity = capacity\<rparr>"

text \<open>The loop \<open>for (i = 0; i < capacity; i++) array[i] = source[i]\<close> of the constructors.\<close>

fun array_copy_loop :: "nat \<Rightarrow> u32 \<Rightarrow> 'a list \<Rightarrow> 'a list \<Rightarrow> 'a list outcome" where
  "array_copy_loop 0 i source dest = Inr dest"
| "array_copy_loop (Suc n) i source dest =
     andThen (readAt source i) (\<lambda>x.
     andThen (writeAt dest i x) (\<lambda>dest'. array_copy_loop n (i + 1) source dest'))"

definition Array_of_list :: "'a \<Rightarrow> 'a list \<Rightarrow> 'a array outcome" where
  "Array_of_list dflt list =
     (let capacity = of_nat (length list)
      in andThen (array_copy_loop (unat capacity) 0 list (replicate (unat capacity) dflt)) (\<lambda>a.
         Inr \<lparr>arr_array = a, arr_capacity = capacity\<rparr>))"

definition Array_copy :: "'a \<Rightarrow> 'a array \<Rightarrow> 'a array outcome" where
  "Array_copy dflt other =
     (let capacity = arr_capacity other
      in andThen (array_copy_loop (unat capacity) 0 (arr_array other) (replicate (unat capacity) dflt)) (\<lambda>a.
         Inr \<lparr>arr_array = a, arr_capacity = capacity\<rparr>))"

definition Array_assign :: "'a \<Rightarrow> 'a array \<Rightarrow> 'a array \<Rightarrow> 'a array outcome" where
  "Array_assign dflt this other =
     (let capacity = arr_capacity other
      in andThen (array_copy_loop (unat capacity) 0 (arr_array other) (replicate (unat capacity) dflt)) (\<lambda>a.
         Inr (this\<lparr>arr_array := a, arr_capacity := capacity\<rparr>)))"

text \<open>\<open>operator[]\<close>, as a read and as the target of an assignment.\<close>

definition Array_get :: "'a array \<Rightarrow> u32 \<Rightarrow> 'a outcome" where
  "Array_get a index =
     (if index \<ge> arr_capacity a then Inl (Thrown OUT_OF_BOUNDS) else readAt (arr_array a) index)"

definition Array_set :: "'a array \<Rightarrow> u32 \<Rightarrow> 'a \<Rightarrow> 'a array outcome" where
  "Array_set a index x =
     (if index \<ge> arr_capacity a then Inl (Thrown OUT_OF_BOUNDS)
      else andThen (writeAt (arr_array a) index x) (\<lambda>xs. Inr (a\<lparr>arr_array := xs\<rparr>)))"

definition Array_length :: "'a array \<Rightarrow> u32" where
  "Array_length a = arr_capacity a"

definition Array_clear :: "'a \<Rightarrow> 'a array \<Rightarrow> 'a array" where
  "Array_clear dflt a = a\<lparr>arr_array := replicate (unat (arr_capacity a)) dflt\<rparr>"

fun array_wrap_loop :: "nat \<Rightarrow> u32 \<Rightarrow> 'a list \<Rightarrow> 'a array \<Rightarrow> 'a array outcome" where
  "array_wrap_loop 0 i source tmp = Inr tmp"
| "array_wrap_loop (Suc n) i source tmp =
     andThen (readAt source i) (\<lambda>x. andThen (Array_set tmp i x) (array_wrap_loop n (i + 1) source))"

definition Array_wrap :: "'a \<Rightarrow> 'a list \<Rightarrow> u32 \<Rightarrow> 'a array outcome" where
  "Array_wrap dflt source sz = array_wrap_loop (unat sz) 0 source (Array_new dflt sz)"

text \<open>One pass of the sort: the \<open>for\<close> loop over \<open>i < length - 1\<close>, with \<open>hasChanged\<close> as accumulator.\<close>

fun sort_pass :: "nat \<Rightarrow> u32 \<Rightarrow> 'a :: linorder array \<Rightarrow> bool \<Rightarrow> ('a array \<times> bool) outcome" where
  "sort_pass 0 i a hasChanged = Inr (a, hasChanged)"
| "sort_pass (Suc n) i a hasChanged =
     andThen (Array_get a i) (\<lambda>x.
     andThen (Array_get a (i + 1)) (\<lambda>y.
     if x > y
     then andThen (Array_set a i y) (\<lambda>a1.
          andThen (Array_set a1 (i + 1) x) (\<lambda>a2. sort_pass n (i + 1) a2 True))
     else sort_pass n (i + 1) a hasChanged))"

partial_function (option) Array_sort :: "'a :: linorder array \<Rightarrow> 'a array outcome option" where
  "Array_sort a =
     (case sort_pass (unat (Array_length a - 1)) 0 a False of
        Inl e \<Rightarrow> Some (Inl e)
      | Inr (a', hasChanged) \<Rightarrow> if hasChanged then Array_sort a' else Some (Inr a'))"

section \<open>Iterators\<close>

record 'a iterator =
  it_array :: "'a array"
  it_index :: u32

definition Iterator_new :: "'a \<Rightarrow> 'a array \<Rightarrow> u32 \<Rightarrow> 'a iterator outcome" where
  "Iterator_new dflt a index =
     andThen (Array_copy dflt a) (\<lambda>b. Inr \<lparr>it_array = b, it_index = index\<rparr>)"

definition Iterator_deref :: "'a iterator \<Rightarrow> 'a outcome" where
  "Iterator_deref it = Array_get (it_array it) (it_index it)"

definition Iterator_ne :: "'a iterator \<Rightarrow> 'a iterator \<Rightarrow> bool" where
  "Iterator_ne it other \<longleftrightarrow> it_index it \<noteq> it_index other"

definition Iterator_inc :: "'a iterator \<Rightarrow> 'a iterator" where
  "Iterator_inc it = it\<lparr>it_index := it_index it + 1\<rparr>"

definition Iterator_hasNext :: "'a iterator \<Rightarrow> bool" where
  "Iterator_hasNext it \<longleftrightarrow> it_index it < Array_length (it_array it)"

definition Iterator_next :: "'a iterator \<Rightarrow> ('a iterator \<times> 'a) outcome" where
  "Iterator_next it0 =
     (let it = it0\<lparr>it_index := it_index it0 + 1\<rparr>
      in andThen (Array_get (it_array it) (it_index it - 1)) (\<lambda>x. Inr (it, x)))"

section \<open>Well-formed arrays\<close>

definition array_wf :: "'a array \<Rightarrow> bool" where
  "array_wf a \<longleftrightarrow> length (arr_array a) = unat (arr_capacity a)"

lemma Array_get_wf:
  "array_wf a \<Longrightarrow> Array_get a i =
     (if unat i < length (arr_array a) then Inr (arr_array a ! unat i) else Inl (Thrown OUT_OF_BOUNDS))"
  by (simp add: Array_get_def array_wf_def word_le_nat_alt not_less)

lemma Array_set_wf:
  "array_wf a \<Longrightarrow> Array_set a i x =
     (if unat i < length (arr_array a) then Inr (a\<lparr>arr_array := (arr_array a)[unat i := x]\<rparr>)
      else Inl (Thrown OUT_OF_BOUNDS))"
  by (simp add: Array_set_def array_wf_def word_le_nat_alt not_less)

lemma array_wf_new [simp]: "array_wf (Array_new dflt n)"
  by (simp add: array_wf_def Array_new_def)

lemma array_wf_update [simp]: "array_wf (a\<lparr>arr_array := (arr_array a)[i := x]\<rparr>) = array_wf a"
  by (simp add: array_wf_def)

lemma array_copy_loop_eq:
  assumes "unat i + n \<le> length source" "unat i + n \<le> length dest" "unat i + n < 4294967296"
  shows "array_copy_loop n i source dest =
     Inr (take (unat i) dest @ take n (drop (unat i) source) @ drop (unat i + n) dest)"
  using assms
proof (induction n arbitrary: i dest)
  case (Suc n)
  have i1: "unat (i + 1) = unat i + 1" using Suc.prems unat_add_u32 [of i 1] by simp
  have "array_copy_loop (Suc n) i source dest =
      Inr (take (unat i + 1) (dest[unat i := source ! unat i])
           @ take n (drop (unat i + 1) source) @ drop (unat i + 1 + n) (dest[unat i := source ! unat i]))"
    using Suc.prems Suc.IH [of "i + 1" "dest[unat i := source ! unat i]"] i1 by simp
  moreover have "take (unat i + 1) (dest[unat i := source ! unat i]) = take (unat i) dest @ [source ! unat i]"
    using Suc.prems by (simp add: take_Suc_conv_app_nth)
  moreover have "take (Suc n) (drop (unat i) source) = source ! unat i # take n (drop (unat i + 1) source)"
    using Suc.prems by (simp add: Cons_nth_drop_Suc [symmetric])
  ultimately show ?case using Suc.prems by simp
qed simp

lemma Array_copy_wf:
  assumes "array_wf a"
  shows "Array_copy dflt a = Inr \<lparr>arr_array = arr_array a, arr_capacity = arr_capacity a\<rparr>"
  using assms unat_u32_bound [of "arr_capacity a"]
  by (simp add: Array_copy_def array_wf_def array_copy_loop_eq)

lemma array_wrap_loop_eq:
  assumes "unat i + n \<le> length source" "array_wf tmp" "unat i + n \<le> length (arr_array tmp)"
  shows "array_wrap_loop n i source tmp =
     Inr (tmp\<lparr>arr_array := take (unat i) (arr_array tmp) @ take n (drop (unat i) source)
                             @ drop (unat i + n) (arr_array tmp)\<rparr>)"
  using assms
proof (induction n arbitrary: i tmp)
  case (Suc n)
  let ?d = "arr_array tmp" and ?x = "source ! unat i"
  have i1: "unat (i + 1) = unat i + 1"
    using Suc.prems unat_add_u32 [of i 1] unat_u32_bound [of "arr_capacity tmp"]
    by (simp add: array_wf_def del: unat_u32_bound)
  have step: "Array_set tmp i ?x = Inr (tmp\<lparr>arr_array := ?d[unat i := ?x]\<rparr>)"
    using Suc.prems by (simp add: Array_set_wf)
  have "array_wrap_loop (Suc n) i source tmp =
      Inr (tmp\<lparr>arr_array := take (unat i + 1) (?d[unat i := ?x])
           @ take n (drop (unat i + 1) source) @ drop (unat i + 1 + n) (?d[unat i := ?x])\<rparr>)"
    using Suc.prems Suc.IH [of "i + 1" "tmp\<lparr>arr_array := ?d[unat i := ?x]\<rparr>"] i1 step by simp
  moreover have "take (unat i + 1) (?d[unat i := ?x]) = take (unat i) ?d @ [?x]"
    using Suc.prems by (simp add: take_Suc_conv_app_nth)
  moreover have "take (Suc n) (drop (unat i) source) = ?x # take n (drop (unat i + 1) source)"
    using Suc.prems by (simp add: Cons_nth_drop_Suc [symmetric])
  ultimately show ?case using Suc.prems by simp
qed simp

section \<open>The sort\<close>

text \<open>What one pass does to the list of elements.\<close>

fun bubble :: "'a :: linorder list \<Rightarrow> 'a list" where
  "bubble (x # y # zs) = (if x > y then y # bubble (x # zs) else x # bubble (y # zs))"
| "bubble xs = xs"

fun inversions :: "'a :: linorder list \<Rightarrow> nat" where
  "inversions [] = 0"
| "inversions (x # xs) = length (filter (\<lambda>y. y < x) xs) + inversions xs"

lemma length_bubble [simp]: "length (bubble xs) = length xs"
  by (induction xs rule: bubble.induct) auto

lemma mset_bubble [simp]: "mset (bubble xs) = mset xs"
  by (induction xs rule: bubble.induct) auto

lemma filter_bubble: "length (filter P (bubble xs)) = length (filter P xs)"
  by (metis mset_bubble mset_filter size_mset)

lemma bubble_sorted: "sorted xs \<Longrightarrow> bubble xs = xs"
  by (induction xs rule: bubble.induct) auto

lemma inversions_bubble:
  "inversions (bubble xs) \<le> inversions xs"
  "\<not> sorted xs \<Longrightarrow> inversions (bubble xs) < inversions xs"
proof (induction xs rule: bubble.induct)
  case (1 x y zs)
  {
    case 1
    then show ?case using "1.IH"(1,3) by (auto simp: filter_bubble)
  next
    case 2
    show ?case
    proof (cases "x > y")
      case True
      have "length (filter (\<lambda>z. z < y) zs) \<le> length (filter (\<lambda>z. z < x) zs)"
        using True by (induction zs) auto
      then show ?thesis using True "1.IH"(1) [OF True] by (auto simp: filter_bubble)
    next
      case False
      then have "\<not> sorted (y # zs)" using 2 by (auto simp: not_less intro: order_trans)
      then show ?thesis using False "1.IH"(4) [OF False] by (simp add: filter_bubble)
    qed
  }
qed auto

lemma sort_pass_eq:
  assumes "array_wf a" "arr_array a = ys @ x # zs" "unat i = length ys" "n = length zs"
  shows "sort_pass n i a ch =
     Inr (a\<lparr>arr_array := ys @ bubble (x # zs)\<rparr>, ch \<or> \<not> sorted (x # zs))"
  using assms
proof (induction n arbitrary: i a ys x zs ch)
  case 0
  then show ?case by simp
next
  case (Suc n)
  then obtain y zs' where zs: "zs = y # zs'" by (cases zs) auto
  have i: "unat i + 1 < length (arr_array a)" "unat (arr_capacity a) = length (arr_array a)"
    using Suc.prems zs by (auto simp: array_wf_def)
  have i1: "unat (i + 1) = unat i + 1"
    using i unat_add_u32 [of i 1] unat_u32_bound [of "arr_capacity a"] by simp
  have g: "Array_get a i = Inr x" "Array_get a (i + 1) = Inr y"
    using Suc.prems i i1 zs by (simp_all add: Array_get_wf nth_append)
  have srt: "sorted (x # y # zs') \<longleftrightarrow> x \<le> y \<and> sorted (y # zs')" by (auto intro: order_trans)
  show ?case
  proof (cases "x > y")
    case True
    let ?a2 = "a\<lparr>arr_array := ys @ y # x # zs'\<rparr>"
    have s1: "Array_set a i y = Inr (a\<lparr>arr_array := ys @ y # y # zs'\<rparr>)"
      using Suc.prems i zs by (simp add: Array_set_wf list_update_append)
    have s2: "Array_set (a\<lparr>arr_array := ys @ y # y # zs'\<rparr>) (i + 1) x = Inr ?a2"
      using Suc.prems i i1 zs by (simp add: Array_set_wf array_wf_def list_update_append)
    have "sort_pass n (i + 1) ?a2 True =
        Inr (?a2\<lparr>arr_array := (ys @ [y]) @ bubble (x # zs')\<rparr>, True \<or> \<not> sorted (x # zs'))"
      by (rule Suc.IH) (use Suc.prems i1 zs in \<open>auto simp: array_wf_def\<close>)
    then show ?thesis using True g s1 s2 zs by auto
  next
    case False
    have "sort_pass n (i + 1) a ch =
        Inr (a\<lparr>arr_array := (ys @ [x]) @ bubble (y # zs')\<rparr>, ch \<or> \<not> sorted (y # zs'))"
      by (rule Suc.IH) (use Suc.prems i1 zs in auto)
    then show ?thesis using False g zs srt by (auto simp: not_less)
  qed
qed

lemma Array_sort_nonempty:
  assumes "array_wf a" "arr_array a \<noteq> []"
  shows "\<exists>b. Array_sort a = Some (Inr b) \<and> array_wf b \<and> arr_capacity b = arr_capacity a
           \<and> arr_array b = sort (arr_array a)"
  using assms
proof (induction "inversions (arr_array a)" arbitrary: a rule: less_induct)
  case less
  obtain x zs where xs: "arr_array a = x # zs" using less.prems(2) by (cases "arr_array a") auto
  have cap: "unat (arr_capacity a) = Suc (length zs)" using less.prems(1) xs by (simp add: array_wf_def)
  have n: "unat (Array_length a - 1) = length zs"
    using cap by (simp add: Array_length_def unat_sub_u32)
  have pass: "sort_pass (length zs) 0 a False =
      Inr (a\<lparr>arr_array := bubble (x # zs)\<rparr>, \<not> sorted (x # zs))"
    using sort_pass_eq [of a "[]" x zs 0 "length zs" False] less.prems(1) xs by simp
  show ?case
  proof (cases "sorted (x # zs)")
    case True
    then have "Array_sort a = Some (Inr (a\<lparr>arr_array := x # zs\<rparr>))"
      using pass by (subst Array_sort.simps) (simp add: n bubble_sorted)
    moreover have "sort (x # zs) = x # zs" using True by (rule sorted_sort_id)
    ultimately show ?thesis using less.prems(1) xs True by (simp add: array_wf_def)
  next
    case False
    let ?a = "a\<lparr>arr_array := bubble (x # zs)\<rparr>"
    have "Array_sort a = Array_sort ?a"
      using pass False by (subst Array_sort.simps) (simp add: n)
    moreover have "inversions (arr_array ?a) < inversions (arr_array a)"
      using inversions_bubble(2) [OF False] xs by simp
    moreover have "array_wf ?a" using less.prems(1) xs by (simp add: array_wf_def)
    moreover have "arr_array ?a \<noteq> []" using length_bubble [of "x # zs"] by (cases "bubble (x # zs)") auto
    moreover have "sort (bubble (x # zs)) = sort (x # zs)"
      by (rule properties_for_sort) (simp, rule sorted_sort)
    ultimately show ?thesis using less.hyps [of ?a] xs by simp
  qed
qed

text \<open>C36. \<open>Array::sort\<close> ends and sorts: on an array with at least one element the bubble sort
  returns the ascending permutation of the elements, after finitely many passes. On an array
  without elements the bound \<open>length - 1\<close> wraps around and the first access raises an exception.\<close>

theorem Array_sort_correct:
  assumes "array_wf a"
  shows "if arr_array a \<noteq> []
         then (\<exists>b. Array_sort a = Some (Inr b) \<and> arr_array b = sort (arr_array a) \<and> Array_length b = Array_length a)
         else Array_sort a = Some (Inl (Thrown OUT_OF_BOUNDS))"
proof (cases "arr_array a = []")
  case True
  then have cap: "arr_capacity a = 0" using assms by (simp add: array_wf_def unat_eq_0)
  have "unat (Array_length a - 1) = Suc 4294967294" by (simp add: Array_length_def cap)
  moreover have "Array_get a 0 = Inl (Thrown OUT_OF_BOUNDS)" by (simp add: Array_get_def cap)
  ultimately have "sort_pass (unat (Array_length a - 1)) 0 a False = Inl (Thrown OUT_OF_BOUNDS)"
    by (simp only: sort_pass.simps andThen_simps)
  then show ?thesis using True by (subst Array_sort.simps) simp
next
  case False
  then show ?thesis using Array_sort_nonempty [OF assms] by (auto simp: Array_length_def)
qed

theorem Array_sort_correct_witness:
  "\<exists>b. Array_sort \<lparr>arr_array = [3, 1, 2 :: nat], arr_capacity = 3\<rparr> = Some (Inr b) \<and> arr_array b = [1, 2, 3]"
  using Array_sort_correct [of "\<lparr>arr_array = [3, 1, 2 :: nat], arr_capacity = 3\<rparr>"]
  by (auto simp: array_wf_def)

end
