(* ===== verification/Array_Lists.thy ===== *)
theory Array_Lists
  imports Arrays
begin

text \<open>
  \<open>lib/util/ArrayList\<close>: a list in a growing raw array. A collection that is passed to
  \<open>addAll\<close>, \<open>removeAll\<close> or \<open>containsAll\<close> is the list of elements its iterator
  delivers. Doubling the capacity wraps around for capacities of 2^31 and more and then never reaches the
  requested value; a loop that does not end is the fault \<open>Spins\<close>.
\<close>

section \<open>State and operations\<close>

record 'a array_list =
  al_elements :: "'a list"
  al_capacity :: u32
  al_length :: u32

definition ArrayList_empty :: "'a array_list" where
  "ArrayList_empty = \<lparr>al_elements = [], al_capacity = 0, al_length = 0\<rparr>"

definition ArrayList_new :: "'a \<Rightarrow> u32 \<Rightarrow> 'a array_list" where
  "ArrayList_new dflt capacity =
     \<lparr>al_elements = replicate (unat capacity) dflt, al_capacity = capacity, al_length = 0\<rparr>"

partial_function (option) grow_capacity :: "u32 \<Rightarrow> u32 \<Rightarrow> u32 option" where
  "grow_capacity capacity newCapacity =
     (if capacity < newCapacity then grow_capacity (capacity * 2) newCapacity else Some capacity)"

definition ArrayList_ensureCapacity :: "'a \<Rightarrow> 'a array_list \<Rightarrow> u32 \<Rightarrow> 'a array_list outcome" where
  "ArrayList_ensureCapacity dflt l0 newCapacity =
     (let l = (if al_capacity l0 = 0
               then l0\<lparr>al_capacity := 8, al_elements := replicate 8 dflt\<rparr> else l0)
      in if newCapacity \<le> al_capacity l then Inr l
         else (case grow_capacity (al_capacity l) newCapacity of
                 None \<Rightarrow> Inl Spins
               | Some capacity \<Rightarrow>
                   andThen (array_copy_loop (unat (al_capacity l)) 0 (al_elements l)
                              (replicate (unat capacity) dflt)) (\<lambda>elements.
                   Inr (l\<lparr>al_capacity := capacity, al_elements := elements\<rparr>))))"

definition ArrayList_get :: "'a array_list \<Rightarrow> u32 \<Rightarrow> 'a outcome" where
  "ArrayList_get l index =
     (if index \<ge> al_length l then Inl (Thrown OUT_OF_BOUNDS) else readAt (al_elements l) index)"

definition ArrayList_add :: "'a \<Rightarrow> 'a array_list \<Rightarrow> 'a \<Rightarrow> 'a array_list outcome" where
  "ArrayList_add dflt l0 element =
     andThen (ArrayList_ensureCapacity dflt l0 (al_length l0 + 1)) (\<lambda>l.
     andThen (writeAt (al_elements l) (al_length l) element) (\<lambda>elements.
     Inr (l\<lparr>al_elements := elements, al_length := al_length l + 1\<rparr>)))"

primrec ArrayList_addAll :: "'a \<Rightarrow> 'a array_list \<Rightarrow> 'a list \<Rightarrow> 'a array_list outcome" where
  "ArrayList_addAll dflt l [] = Inr l"
| "ArrayList_addAll dflt l (x # xs) =
     andThen (ArrayList_add dflt l x) (\<lambda>l'. ArrayList_addAll dflt l' xs)"

definition ArrayList_of_array :: "'a \<Rightarrow> 'a array \<Rightarrow> 'a array_list outcome" where
  "ArrayList_of_array dflt elements =
     ArrayList_addAll dflt (ArrayList_new dflt (Array_length elements)) (arr_array elements)"

text \<open>The loop \<open>for (i = length - 1; i > index; i--) elements[i] = elements[i - 1]\<close> of the positional \<open>add\<close>.\<close>

function shift_up :: "u32 \<Rightarrow> u32 \<Rightarrow> 'a list \<Rightarrow> 'a list outcome" where
  "shift_up i index elements =
     (if i > index
      then andThen (readAt elements (i - 1)) (\<lambda>x.
           andThen (writeAt elements i x) (shift_up (i - 1) index))
      else Inr elements)"
  by pat_completeness auto
termination
  by (relation "measure (\<lambda>(i, _, _). unat i)")
    (auto simp: unat_sub_u32 word_less_nat_alt intro!: diff_less)

declare shift_up.simps [simp del]

definition ArrayList_add_at :: "'a \<Rightarrow> 'a array_list \<Rightarrow> u32 \<Rightarrow> 'a \<Rightarrow> 'a array_list outcome" where
  "ArrayList_add_at dflt l0 index element =
     (if index > al_length l0 then Inr l0
      else andThen (ArrayList_ensureCapacity dflt l0 (al_length l0 + 1)) (\<lambda>l.
           andThen (shift_up (al_length l - 1) index (al_elements l)) (\<lambda>elements.
           andThen (writeAt elements index element) (\<lambda>elements'.
           Inr (l\<lparr>al_elements := elements', al_length := al_length l + 1\<rparr>)))))"

fun shift_down :: "nat \<Rightarrow> u32 \<Rightarrow> u32 \<Rightarrow> 'a list \<Rightarrow> 'a list outcome" where
  "shift_down 0 i index elements = Inr elements"
| "shift_down (Suc n) i index elements =
     andThen (readAt elements (index + i + 1)) (\<lambda>x.
     andThen (writeAt elements (index + i) x) (shift_down n (i + 1) index))"

definition ArrayList_remove_at :: "'a array_list \<Rightarrow> u32 \<Rightarrow> ('a array_list \<times> 'a) outcome" where
  "ArrayList_remove_at l index =
     (if index \<ge> al_length l then Inl (Thrown OUT_OF_BOUNDS)
      else andThen (readAt (al_elements l) index) (\<lambda>tmp.
           let numMoved = al_length l - index - 1
           in andThen (if numMoved \<noteq> 0 then shift_down (unat numMoved) 0 index (al_elements l)
                       else Inr (al_elements l)) (\<lambda>elements.
              Inr (l\<lparr>al_elements := elements, al_length := al_length l - 1\<rparr>, tmp))))"

text \<open>The scan of \<open>indexOf\<close> tests the element before the bound, so it reads \<open>elements[length]\<close> when it finds nothing.\<close>

function index_scan :: "'a list \<Rightarrow> u32 \<Rightarrow> 'a \<Rightarrow> u32 \<Rightarrow> u32 outcome" where
  "index_scan elements len element index =
     andThen (readAt elements index) (\<lambda>x.
     if x \<noteq> element \<and> index < len then index_scan elements len element (index + 1) else Inr index)"
  by pat_completeness auto
termination
  by (relation "measure (\<lambda>(_, len, _, index). unat len - unat index)")
    (auto simp: unat_Suc_u32 word_less_nat_alt)

declare index_scan.simps [simp del]

definition ArrayList_indexOf :: "'a array_list \<Rightarrow> 'a \<Rightarrow> u32 outcome" where
  "ArrayList_indexOf l element =
     andThen (index_scan (al_elements l) (al_length l) element 0) (\<lambda>index.
     Inr (if index = al_length l then UINT32_MAX else index))"

definition ArrayList_remove :: "'a array_list \<Rightarrow> 'a \<Rightarrow> ('a array_list \<times> bool) outcome" where
  "ArrayList_remove l element =
     andThen (ArrayList_indexOf l element) (\<lambda>index.
     if index \<ge> al_length l then Inr (l, False)
     else andThen (ArrayList_remove_at l index) (\<lambda>(l', tmp). Inr (l', True)))"

primrec remove_all_loop :: "'a array_list \<Rightarrow> bool \<Rightarrow> 'a list \<Rightarrow> ('a array_list \<times> bool) outcome" where
  "remove_all_loop l changed [] = Inr (l, changed)"
| "remove_all_loop l changed (x # xs) =
     andThen (ArrayList_remove l x) (\<lambda>(l', removed). remove_all_loop l' (removed \<or> changed) xs)"

definition ArrayList_removeAll :: "'a array_list \<Rightarrow> 'a list \<Rightarrow> ('a array_list \<times> bool) outcome" where
  "ArrayList_removeAll l other = remove_all_loop l False other"

definition ArrayList_contains :: "'a array_list \<Rightarrow> 'a \<Rightarrow> bool outcome" where
  "ArrayList_contains l element =
     andThen (ArrayList_indexOf l element) (\<lambda>index. Inr (index < al_length l))"

primrec ArrayList_containsAll :: "'a array_list \<Rightarrow> 'a list \<Rightarrow> bool outcome" where
  "ArrayList_containsAll l [] = Inr True"
| "ArrayList_containsAll l (x # xs) =
     andThen (ArrayList_contains l x) (\<lambda>found. if found then ArrayList_containsAll l xs else Inr False)"

definition ArrayList_clear :: "'a array_list \<Rightarrow> 'a array_list" where
  "ArrayList_clear l = l\<lparr>al_length := 0\<rparr>"

definition ArrayList_size :: "'a array_list \<Rightarrow> u32" where
  "ArrayList_size l = al_length l"

definition ArrayList_isEmpty :: "'a array_list \<Rightarrow> bool" where
  "ArrayList_isEmpty l \<longleftrightarrow> al_length l = 0"

definition ArrayList_set :: "'a array_list \<Rightarrow> u32 \<Rightarrow> 'a \<Rightarrow> 'a array_list outcome" where
  "ArrayList_set l index element =
     (if index \<ge> al_length l then Inr l
      else andThen (writeAt (al_elements l) index element) (\<lambda>elements. Inr (l\<lparr>al_elements := elements\<rparr>)))"

definition ArrayList_toArray :: "'a \<Rightarrow> 'a array_list \<Rightarrow> 'a array outcome" where
  "ArrayList_toArray dflt l = array_wrap_loop (unat (al_length l)) 0 (al_elements l) (Array_new dflt (al_length l))"

definition ArrayList_begin :: "'a \<Rightarrow> 'a array_list \<Rightarrow> 'a iterator outcome" where
  "ArrayList_begin dflt l = andThen (ArrayList_toArray dflt l) (\<lambda>a. Iterator_new dflt a 0)"

definition ArrayList_end :: "'a \<Rightarrow> 'a array_list \<Rightarrow> 'a iterator outcome" where
  "ArrayList_end dflt l = andThen (ArrayList_toArray dflt l) (\<lambda>a. Iterator_new dflt a (al_length l))"

definition ArrayList_getArray :: "'a array_list \<Rightarrow> 'a list" where
  "ArrayList_getArray l = al_elements l"

section \<open>The list a state stands for\<close>

definition al_wf :: "'a array_list \<Rightarrow> bool" where
  "al_wf l \<longleftrightarrow> length (al_elements l) = unat (al_capacity l) \<and> unat (al_length l) \<le> unat (al_capacity l)"

definition al_abs :: "'a array_list \<Rightarrow> 'a list" where
  "al_abs l = take (unat (al_length l)) (al_elements l)"

lemma length_al_abs: "al_wf l \<Longrightarrow> length (al_abs l) = unat (al_length l)"
  by (simp add: al_wf_def al_abs_def)

lemma al_wf_new [simp]: "al_wf (ArrayList_new dflt n)" "al_abs (ArrayList_new dflt n) = []"
  by (simp_all add: al_wf_def al_abs_def ArrayList_new_def)

lemma al_wf_empty [simp]: "al_wf ArrayList_empty" "al_abs ArrayList_empty = []"
  by (simp_all add: al_wf_def al_abs_def ArrayList_empty_def)

lemma grow_capacity_ends:
  assumes "0 < unat c" "unat n \<le> 2147483648"
  shows "\<exists>c'. grow_capacity c n = Some c' \<and> unat n \<le> unat c' \<and> unat c \<le> unat c'"
  using assms
proof (induction "4294967296 - unat c" arbitrary: c rule: less_induct)
  case less
  show ?case
  proof (cases "c < n")
    case True
    then have "unat c < 2147483648" using less.prems(2) by (simp add: word_less_nat_alt)
    then have c2: "unat (c * 2) = unat c * 2" by (simp add: unat_mult_u32)
    then have "\<exists>c'. grow_capacity (c * 2) n = Some c' \<and> unat n \<le> unat c' \<and> unat (c * 2) \<le> unat c'"
      using less.prems \<open>unat c < 2147483648\<close> by (intro less.hyps) simp_all
    then show ?thesis using True c2 by (subst grow_capacity.simps) auto
  next
    case False
    then show ?thesis by (subst grow_capacity.simps) (simp add: word_less_nat_alt not_less)
  qed
qed

lemma ensureCapacity_wf:
  assumes "al_wf l" "unat n \<le> 2147483648"
  shows "\<exists>l'. ArrayList_ensureCapacity dflt l n = Inr l' \<and> al_wf l' \<and> al_length l' = al_length l
           \<and> al_abs l' = al_abs l \<and> unat n \<le> unat (al_capacity l')"
proof -
  define m where "m = (if al_capacity l = 0 then l\<lparr>al_capacity := 8, al_elements := replicate 8 dflt\<rparr> else l)"
  have m: "al_wf m" "al_length m = al_length l" "al_abs m = al_abs l" "0 < unat (al_capacity m)"
    using assms(1) by (auto simp: m_def al_wf_def al_abs_def unat_gt_0)
  show ?thesis
  proof (cases "n \<le> al_capacity m")
    case True
    then have "ArrayList_ensureCapacity dflt l n = Inr m"
      by (simp add: ArrayList_ensureCapacity_def m_def Let_def)
    then show ?thesis using m True by (auto simp: word_le_nat_alt)
  next
    case False
    obtain c where c: "grow_capacity (al_capacity m) n = Some c" "unat n \<le> unat c" "unat (al_capacity m) \<le> unat c"
      using grow_capacity_ends [OF m(4) assms(2)] by blast
    let ?e = "al_elements m @ drop (unat (al_capacity m)) (replicate (unat c) dflt)"
    have "array_copy_loop (unat (al_capacity m)) 0 (al_elements m) (replicate (unat c) dflt) = Inr ?e"
      using m(1) c(3) by (simp add: array_copy_loop_eq al_wf_def)
    then have "ArrayList_ensureCapacity dflt l n = Inr (m\<lparr>al_capacity := c, al_elements := ?e\<rparr>)"
      using False c(1) by (simp add: ArrayList_ensureCapacity_def m_def Let_def)
    then show ?thesis using m c by (auto simp: al_wf_def al_abs_def)
  qed
qed

lemma ArrayList_add_abs:
  assumes "al_wf l" "length (al_abs l) < 2147483648"
  shows "\<exists>l'. ArrayList_add dflt l x = Inr l' \<and> al_wf l' \<and> al_abs l' = al_abs l @ [x]"
proof -
  have len: "unat (al_length l) < 2147483648" using assms length_al_abs by metis
  then have l1: "unat (al_length l + 1) = unat (al_length l) + 1" using unat_add_u32 [of "al_length l" 1] by simp
  then have "unat (al_length l + 1) \<le> 2147483648" using len by simp
  from ensureCapacity_wf [OF assms(1) this] obtain m where m:
    "ArrayList_ensureCapacity dflt l (al_length l + 1) = Inr m" "al_wf m" "al_length m = al_length l"
    "al_abs m = al_abs l" "unat (al_length l + 1) \<le> unat (al_capacity m)" by blast
  have lt: "unat (al_length l) < length (al_elements m)" using m l1 by (simp add: al_wf_def)
  then have "ArrayList_add dflt l x =
      Inr (m\<lparr>al_elements := (al_elements m)[unat (al_length l) := x], al_length := al_length l + 1\<rparr>)"
    using m by (simp add: ArrayList_add_def)
  then show ?thesis
    using m l1 lt by (auto simp: al_wf_def al_abs_def take_Suc_conv_app_nth)
qed

lemma ArrayList_addAll_abs:
  assumes "al_wf l" "length (al_abs l) + length xs \<le> 2147483648"
  shows "\<exists>l'. ArrayList_addAll dflt l xs = Inr l' \<and> al_wf l' \<and> al_abs l' = al_abs l @ xs"
  using assms
proof (induction xs arbitrary: l)
  case (Cons x xs)
  obtain m where m: "ArrayList_add dflt l x = Inr m" "al_wf m" "al_abs m = al_abs l @ [x]"
    using ArrayList_add_abs [OF Cons.prems(1)] Cons.prems(2) by fastforce
  then show ?case using Cons.IH [OF m(2)] Cons.prems(2) by auto
qed simp

lemma ArrayList_get_abs:
  "al_wf l \<Longrightarrow> ArrayList_get l i =
     (if unat i < length (al_abs l) then Inr (al_abs l ! unat i) else Inl (Thrown OUT_OF_BOUNDS))"
  by (auto simp: ArrayList_get_def al_wf_def al_abs_def word_le_nat_alt)

lemma ArrayList_set_abs:
  assumes "al_wf l"
  shows "\<exists>l'. ArrayList_set l i x = Inr l' \<and> al_wf l' \<and> al_abs l' = (al_abs l)[unat i := x]"
  using assms by (auto simp: ArrayList_set_def al_wf_def al_abs_def word_le_nat_alt take_update_swap
      list_update_beyond)

lemma shift_down_eq:
  assumes "unat index + unat i + n < length es" "length es < 4294967296"
  shows "shift_down n i index es =
    Inr (take (unat index + unat i) es @ take n (drop (unat index + unat i + 1) es)
         @ drop (unat index + unat i + n) es)"
  using assms
proof (induction n arbitrary: i es)
  case (Suc n)
  let ?j = "unat index + unat i"
  have ji: "unat (index + i) = ?j" using Suc.prems by (simp add: unat_add_u32)
  have ji1: "unat (index + i + 1) = ?j + 1" using Suc.prems ji unat_add_u32 [of "index + i" 1] by simp
  have i1: "unat (i + 1) = unat i + 1" using Suc.prems unat_add_u32 [of i 1] by simp
  let ?es = "es[?j := es ! (?j + 1)]"
  have "shift_down (Suc n) i index es =
      Inr (take (?j + 1) ?es @ take n (drop (?j + 2) ?es) @ drop (?j + 1 + n) ?es)"
    using Suc.prems Suc.IH [of "i + 1" ?es] i1 ji ji1 by simp
  moreover have "take (?j + 1) ?es = take ?j es @ [es ! (?j + 1)]"
    using Suc.prems by (simp add: take_Suc_conv_app_nth)
  moreover have "take (Suc n) (drop (?j + 1) es) = es ! (?j + 1) # take n (drop (?j + 2) es)"
    using Suc.prems by (simp add: Cons_nth_drop_Suc [symmetric])
  ultimately show ?case using Suc.prems by simp
qed simp

lemma ArrayList_remove_at_abs:
  assumes "al_wf l" "unat i < length (al_abs l)"
  shows "\<exists>l'. ArrayList_remove_at l i = Inr (l', al_abs l ! unat i) \<and> al_wf l'
           \<and> al_abs l' = take (unat i) (al_abs l) @ drop (Suc (unat i)) (al_abs l)"
proof -
  let ?n = "unat (al_length l)" and ?es = "al_elements l"
  have i: "unat i < ?n" "?n \<le> length ?es" "length ?es = unat (al_capacity l)"
    using assms by (auto simp: al_wf_def length_al_abs)
  have es: "length ?es < 4294967296" using i(3) by simp
  have d: "unat (al_length l - i) = ?n - unat i" using i by (simp add: unat_sub_u32)
  have nm: "unat (al_length l - i - 1) = ?n - unat i - 1" using i d by (subst unat_sub_u32) simp_all
  have sd: "shift_down (?n - unat i - 1) 0 i ?es =
      Inr (take (unat i) ?es @ take (?n - unat i - 1) (drop (unat i + 1) ?es) @ drop (?n - 1) ?es)"
    using shift_down_eq [of i 0 "?n - unat i - 1" ?es] i es by simp
  let ?r = "take (unat i) ?es @ take (?n - unat i - 1) (drop (unat i + 1) ?es) @ drop (?n - 1) ?es"
  have "(if al_length l - i - 1 \<noteq> 0 then shift_down (unat (al_length l - i - 1)) 0 i ?es else Inr ?es) = Inr ?r"
  proof (cases "?n - unat i - 1 = 0")
    case True
    then have "al_length l - i - 1 = 0" using nm by (simp add: unat_eq_0)
    moreover have "?n - 1 = unat i" using True i by linarith
    then have "?r = ?es" using True by simp
    ultimately show ?thesis by simp
  next
    case False
    then have "al_length l - i - 1 \<noteq> 0" using nm by auto
    then show ?thesis using sd nm by simp
  qed
  then have run: "ArrayList_remove_at l i =
      Inr (l\<lparr>al_elements := ?r, al_length := al_length l - 1\<rparr>, ?es ! unat i)"
    using i by (simp add: ArrayList_remove_at_def Let_def word_le_nat_alt)
  have n1: "unat (al_length l - 1) = ?n - 1" using i by (simp add: unat_sub_u32)
  show ?thesis
  proof (intro exI conjI)
    show "ArrayList_remove_at l i = Inr (l\<lparr>al_elements := ?r, al_length := al_length l - 1\<rparr>, al_abs l ! unat i)"
      using run i by (simp add: al_abs_def)
    show "al_wf (l\<lparr>al_elements := ?r, al_length := al_length l - 1\<rparr>)"
      using i n1 by (simp add: al_wf_def)
    show "al_abs (l\<lparr>al_elements := ?r, al_length := al_length l - 1\<rparr>)
        = take (unat i) (al_abs l) @ drop (Suc (unat i)) (al_abs l)"
    proof -
      have "unat i \<le> ?n - 1" using i by linarith
      then show ?thesis using i n1 by (simp add: al_abs_def min_absorb1 min_absorb2 drop_take)
    qed
  qed
qed

section \<open>Searching\<close>

lemma index_scan_eq:
  assumes "unat len \<le> length es" "unat i \<le> unat len"
    and "\<forall>j < unat i. es ! j \<noteq> x"
  shows "index_scan es len x i =
    (if x \<in> set (take (unat len) es) then Inr (of_nat (length (takeWhile (\<lambda>y. y \<noteq> x) es)))
     else if unat len < length es then Inr len else Inl BadAccess)"
  using assms
proof (induction "unat len - unat i" arbitrary: i rule: less_induct)
  case less
  have first: "length (takeWhile (\<lambda>y. y \<noteq> x) es) = unat i" if "unat i < length es" "es ! unat i = x"
    using that less.prems(3) takeWhile_eq_take_P_nth [of "unat i" es "\<lambda>y. y \<noteq> x"] by simp
  show ?case
  proof (cases "unat i < unat len")
    case True
    then have r: "readAt es i = Inr (es ! unat i)" using less.prems(1) by simp
    show ?thesis
    proof (cases "es ! unat i = x")
      case True
      moreover have "x \<in> set (take (unat len) es)"
        using True \<open>unat i < unat len\<close> less.prems(1) by (auto simp: in_set_conv_nth)
      ultimately show ?thesis using r first \<open>unat i < unat len\<close> less.prems(1)
        by (subst index_scan.simps) simp
    next
      case False
      have i1: "unat (i + 1) = Suc (unat i)" using True by (simp add: unat_Suc_u32 [of i len] word_less_nat_alt)
      have "index_scan es len x i = index_scan es len x (i + 1)"
        using r False True by (subst index_scan.simps) (simp add: word_less_nat_alt)
      also have "\<dots> = (if x \<in> set (take (unat len) es) then Inr (of_nat (length (takeWhile (\<lambda>y. y \<noteq> x) es)))
         else if unat len < length es then Inr len else Inl BadAccess)"
        by (rule less.hyps) (use True False i1 less.prems in \<open>auto simp: less_Suc_eq\<close>)
      finally show ?thesis .
    qed
  next
    case False
    then have i: "unat i = unat len" "i = len" using less.prems(2) by (auto simp: u32_eq_iff)
    have "x \<notin> set (take (unat len) es)" using less.prems(1,3) i by (auto simp: in_set_conv_nth)
    then show ?thesis using i less.prems(1) by (subst index_scan.simps) (simp add: readAt_def)
  qed
qed

lemma takeWhile_shorter: "x \<in> set xs \<Longrightarrow> length (takeWhile (\<lambda>y. y \<noteq> x) xs) < length xs"
  by (induction xs) auto

lemma takeWhile_al_abs:
  "x \<in> set (take n es) \<Longrightarrow> takeWhile (\<lambda>y. y \<noteq> x) es = takeWhile (\<lambda>y. y \<noteq> x) (take n es)"
  by (metis (mono_tags, lifting) append_take_drop_id takeWhile_append1)

lemma indexOf_abs:
  assumes "al_wf l"
  shows "ArrayList_indexOf l x =
    (if x \<in> set (al_abs l) then Inr (of_nat (length (takeWhile (\<lambda>y. y \<noteq> x) (al_abs l))))
     else if al_length l < al_capacity l then Inr UINT32_MAX else Inl BadAccess)"
proof -
  have b: "unat (al_length l) \<le> length (al_elements l)" using assms by (simp add: al_wf_def)
  have "index_scan (al_elements l) (al_length l) x 0 =
    (if x \<in> set (al_abs l) then Inr (of_nat (length (takeWhile (\<lambda>y. y \<noteq> x) (al_elements l))))
     else if unat (al_length l) < length (al_elements l) then Inr (al_length l) else Inl BadAccess)"
    using index_scan_eq [of "al_length l" "al_elements l" 0 x] b by (simp add: al_abs_def)
  moreover have "length (takeWhile (\<lambda>y. y \<noteq> x) (al_abs l)) < unat (al_length l)" if "x \<in> set (al_abs l)"
    using that takeWhile_shorter [of x "al_abs l"] length_al_abs [OF assms] by auto
  moreover from this
  have "unat (of_nat (length (takeWhile (\<lambda>y. y \<noteq> x) (al_abs l))) :: u32) = length (takeWhile (\<lambda>y. y \<noteq> x) (al_abs l))"
    if "x \<in> set (al_abs l)"
    using that unat_u32_bound [of "al_length l"] by (intro of_nat_unat_u32) linarith
  moreover have "takeWhile (\<lambda>y. y \<noteq> x) (al_elements l) = takeWhile (\<lambda>y. y \<noteq> x) (al_abs l)"
    if "x \<in> set (al_abs l)" using that takeWhile_al_abs by (metis al_abs_def)
  ultimately show ?thesis
    using assms by (auto simp: ArrayList_indexOf_def al_wf_def word_less_nat_alt u32_eq_iff)
qed

text \<open>Removing an element that is in the list removes its first occurrence.\<close>

lemma remove1_takeWhile:
  "x \<in> set xs \<Longrightarrow> remove1 x xs = takeWhile (\<lambda>y. y \<noteq> x) xs @ drop (Suc (length (takeWhile (\<lambda>y. y \<noteq> x) xs))) xs"
  by (induction xs) auto

lemma ArrayList_remove_member:
  assumes "al_wf q" "x \<in> set (al_abs q)"
  shows "\<exists>q'. ArrayList_remove q x = Inr (q', True) \<and> al_wf q' \<and> al_abs q' = remove1 x (al_abs q)"
proof -
  let ?k = "length (takeWhile (\<lambda>y. y \<noteq> x) (al_abs q))"
  have k: "?k < length (al_abs q)" using assms(2) by (rule takeWhile_shorter)
  have len: "length (al_abs q) = unat (al_length q)" using assms(1) by (rule length_al_abs)
  have uk: "unat (of_nat ?k :: u32) = ?k" using k len unat_u32_bound [of "al_length q"]
    by (simp add: unat_of_nat del: unat_u32_bound)
  have "\<not> of_nat ?k \<ge> al_length q" using k len uk by (simp add: word_le_nat_alt)
  then show ?thesis
    using ArrayList_remove_at_abs [OF assms(1), of "of_nat ?k"] k uk assms
    by (auto simp: ArrayList_remove_def indexOf_abs remove1_takeWhile
        simp flip: takeWhile_eq_take)
qed

section \<open>Inserting at a position\<close>

lemma shift_up_eq:
  assumes "unat index \<le> unat i" "unat i < length es"
  shows "shift_up i index es =
    Inr (take (Suc (unat index)) es @ take (unat i - unat index) (drop (unat index) es) @ drop (Suc (unat i)) es)"
  using assms
proof (induction "unat i" arbitrary: i es)
  case 0
  then show ?case by (subst shift_up.simps) (simp add: word_less_nat_alt)
next
  case (Suc k)
  show ?case
  proof (cases "index < i")
    case False
    then have "unat i = unat index" using Suc.prems(1) by (simp add: word_less_nat_alt)
    then show ?thesis using False Suc.prems by (subst shift_up.simps) simp
  next
    case True
    let ?es = "es[Suc k := es ! k]"
    have i1: "unat (i - 1) = k" using Suc.hyps(2) by (simp add: unat_sub_u32)
    have ik: "unat i = Suc k" "unat index \<le> k" using True Suc.hyps(2) by (auto simp: word_less_nat_alt)
    have "shift_up i index es = shift_up (i - 1) index ?es"
      using True Suc.prems i1 ik by (subst shift_up.simps) simp
    also have "\<dots> = Inr (take (Suc (unat index)) ?es @ take (k - unat index) (drop (unat index) ?es) @ drop (Suc k) ?es)"
      using Suc.hyps(1) [of "i - 1" ?es] i1 ik Suc.prems by simp
    also have "take (Suc (unat index)) ?es = take (Suc (unat index)) es" using ik by simp
    also have "take (k - unat index) (drop (unat index) ?es) = take (k - unat index) (drop (unat index) es)"
      using ik by (simp add: drop_update_swap)
    also have "drop (Suc k) ?es = es ! k # drop (Suc (Suc k)) es"
      using ik Suc.prems by (metis Cons_nth_drop_Suc drop_update_cancel length_list_update lessI nth_list_update_eq)
    also have "take (k - unat index) (drop (unat index) es) @ es ! k # drop (Suc (Suc k)) es
        = take (Suc k - unat index) (drop (unat index) es) @ drop (Suc (Suc k)) es"
      using ik Suc.prems by (simp add: Suc_diff_le take_Suc_conv_app_nth)
    finally show ?thesis using ik by simp
  qed
qed

lemma toArray_abs:
  assumes "al_wf l"
  shows "\<exists>a. ArrayList_toArray dflt l = Inr a \<and> array_wf a \<and> arr_array a = al_abs l"
  using assms
  by (simp add: ArrayList_toArray_def array_wrap_loop_eq al_wf_def al_abs_def array_wf_def Array_new_def)

section \<open>Properties\<close>

text \<open>C29. \<open>ArrayList\<close> implements a list. As long as it holds fewer than 2^31 elements, \<open>add\<close>
  appends, \<open>get\<close> and \<open>set\<close> access the element at an index, \<open>remove\<close> takes the element
  at an index out and closes the gap, and \<open>get\<close> and \<open>remove\<close> raise an exception for an
  index behind the end. Growing the array never loses an element and always ends.\<close>

theorem ArrayList_refines_list:
  assumes "al_wf l" "length (al_abs l) < 2147483648"
  shows "(\<exists>l'. ArrayList_add dflt l x = Inr l' \<and> al_wf l' \<and> al_abs l' = al_abs l @ [x])
     \<and> ArrayList_get l i = (if unat i < length (al_abs l) then Inr (al_abs l ! unat i) else Inl (Thrown OUT_OF_BOUNDS))
     \<and> (\<exists>l'. ArrayList_set l i x = Inr l' \<and> al_wf l' \<and> al_abs l' = (al_abs l)[unat i := x])
     \<and> (if unat i < length (al_abs l)
        then (\<exists>l'. ArrayList_remove_at l i = Inr (l', al_abs l ! unat i) \<and> al_wf l'
                \<and> al_abs l' = take (unat i) (al_abs l) @ drop (Suc (unat i)) (al_abs l))
        else ArrayList_remove_at l i = Inl (Thrown OUT_OF_BOUNDS))"
proof -
  have "ArrayList_remove_at l i = Inl (Thrown OUT_OF_BOUNDS)" if "\<not> unat i < length (al_abs l)"
    using that assms(1) by (simp add: ArrayList_remove_at_def length_al_abs word_le_nat_alt)
  then show ?thesis
    using ArrayList_add_abs [OF assms] ArrayList_get_abs [OF assms(1)] ArrayList_set_abs [OF assms(1)]
      ArrayList_remove_at_abs [OF assms(1)] by simp
qed

theorem ArrayList_refines_list_witness:
  "\<exists>l'. ArrayList_add 0 \<lparr>al_elements = [7, 8 :: nat], al_capacity = 2, al_length = 2\<rparr> 9 = Inr l'
     \<and> al_wf l' \<and> al_abs l' = [7, 8, 9]"
  using ArrayList_refines_list [of "\<lparr>al_elements = [7, 8 :: nat], al_capacity = 2, al_length = 2\<rparr>" 0 9 0]
  by (simp add: al_wf_def al_abs_def)

text \<open>\<open>indexOf\<close> returns the first position of an element. For an element that is not in the
  list it returns the largest 32-bit value, but only while the array has a spare slot: on a full array
  it reads one element behind the end.\<close>

lemma ArrayList_indexOf_correct:
  assumes "al_wf l"
  shows "ArrayList_indexOf l x =
    (if x \<in> set (al_abs l) then Inr (of_nat (length (takeWhile (\<lambda>y. y \<noteq> x) (al_abs l))))
     else if al_length l < al_capacity l then Inr UINT32_MAX else Inl BadAccess)"
  using assms by (rule indexOf_abs)

lemma ArrayList_indexOf_correct_witness:
  "ArrayList_indexOf \<lparr>al_elements = [7, 8 :: nat], al_capacity = 2, al_length = 2\<rparr> 8 = Inr 1
   \<and> ArrayList_indexOf \<lparr>al_elements = [7, 8 :: nat], al_capacity = 2, al_length = 2\<rparr> 9 = Inl BadAccess"
  using ArrayList_indexOf_correct [of "\<lparr>al_elements = [7, 8 :: nat], al_capacity = 2, al_length = 2\<rparr>"]
  by (simp add: al_wf_def al_abs_def)

text \<open>Inserting at a position loses the last element. The elements from the position on move up by
  one, but the move starts one slot too low: the last element is overwritten, and the new last
  element is whatever the slot behind the old end held. Inserting into an empty list
  accesses memory outside of the array.\<close>

lemma ArrayList_add_at_loses_last:
  assumes "al_wf l" "length (al_abs l) < 2147483648"
  shows "(al_abs l \<noteq> [] \<and> unat i < length (al_abs l) \<longrightarrow>
            (\<exists>l' y. ArrayList_add_at dflt l i x = Inr l'
               \<and> al_abs l' = take (unat i) (al_abs l) @ x # butlast (drop (unat i) (al_abs l)) @ [y]))
     \<and> (al_abs l = [] \<longrightarrow> ArrayList_add_at dflt l 0 x = Inl BadAccess)"
proof -
  let ?n = "unat (al_length l)"
  have n: "length (al_abs l) = ?n" using assms(1) by (rule length_al_abs)
  have l1: "unat (al_length l + 1) = ?n + 1" using assms(2) n unat_add_u32 [of "al_length l" 1] by simp
  then have "unat (al_length l + 1) \<le> 2147483648" using assms(2) n by simp
  from ensureCapacity_wf [OF assms(1) this, of dflt] obtain m where m:
    "ArrayList_ensureCapacity dflt l (al_length l + 1) = Inr m" "al_wf m" "al_length m = al_length l"
    "al_abs m = al_abs l" "unat (al_length l + 1) \<le> unat (al_capacity m)" by blast
  let ?es = "al_elements m"
  have es: "?n + 1 \<le> length ?es" "take ?n ?es = al_abs l" using m l1 by (auto simp: al_wf_def al_abs_def)
  have "\<exists>l' y. ArrayList_add_at dflt l i x = Inr l'
      \<and> al_abs l' = take (unat i) (al_abs l) @ x # butlast (drop (unat i) (al_abs l)) @ [y]"
    if i: "unat i < ?n"
  proof -
    let ?k = "?n - 1 - unat i"
    have lm: "unat (al_length m - 1) = ?n - 1" using i m by (simp add: unat_sub_u32)
    let ?sh = "take (Suc (unat i)) ?es @ take ?k (drop (unat i) ?es) @ drop ?n ?es"
    have "shift_up (al_length m - 1) i ?es = Inr ?sh"
      using shift_up_eq [of i "al_length m - 1" ?es] i es lm by simp
    moreover have "unat i < length ?sh" using i es by simp
    ultimately have run: "ArrayList_add_at dflt l i x =
        Inr (m\<lparr>al_elements := ?sh[unat i := x], al_length := al_length l + 1\<rparr>)"
      using i m by (simp add: ArrayList_add_at_def word_less_nat_alt)
    have sh: "?sh[unat i := x] = take (unat i) ?es @ x # take ?k (drop (unat i) ?es) @ drop ?n ?es"
      using i es by (simp add: list_update_append take_Suc_conv_app_nth)
    have dr: "drop ?n ?es = ?es ! ?n # drop (Suc ?n) ?es" using es(1) by (simp add: Cons_nth_drop_Suc)
    have "take (unat i) ?es = take (unat i) (al_abs l)" using i by (simp add: es(2) [symmetric] min_def)
    moreover have "take ?k (drop (unat i) ?es) = butlast (drop (unat i) (al_abs l))"
      using i es by (simp add: es(2) [symmetric] butlast_take drop_take)
    ultimately have "take (?n + 1) (?sh[unat i := x])
        = take (unat i) (al_abs l) @ x # butlast (drop (unat i) (al_abs l)) @ [?es ! ?n]"
      using i n unfolding sh by (simp add: dr Suc_diff_le take_Cons')
    then show ?thesis using run l1 by (auto simp: al_abs_def)
  qed
  moreover have "ArrayList_add_at dflt l 0 x = Inl BadAccess" if "al_abs l = []"
  proof -
    have z: "al_length l = 0" using that n by (simp add: unat_eq_0)
    have "length ?es < 4294967296" using m(2) by (simp add: al_wf_def)
    then have "writeAt ?es (- 1) y = Inl BadAccess" for y by (simp add: writeAt_def)
    then have "shift_up (- 1) 0 ?es = Inl BadAccess"
      by (subst shift_up.simps) (simp add: readAt_def word_less_nat_alt)
    then show ?thesis using m z by (simp add: ArrayList_add_at_def)
  qed
  ultimately show ?thesis using n by auto
qed

lemma ArrayList_add_at_loses_last_witness:
  "\<exists>l' y. ArrayList_add_at 0 \<lparr>al_elements = [7, 8, 9, 0 :: nat], al_capacity = 4, al_length = 3\<rparr> 1 5 = Inr l'
     \<and> al_abs l' = [7, 5, 8, y]"
  using ArrayList_add_at_loses_last [of "\<lparr>al_elements = [7, 8, 9, 0 :: nat], al_capacity = 4, al_length = 3\<rparr>" 1 0 5]
  by (simp add: al_wf_def al_abs_def)

end
