(* ===== verification/Queues.thy ===== *)
theory Queues
  imports Array_Lists
begin

text \<open>
  The contract of a queue, and two implementations of it from \<open>lib/util\<close>: \<open>ArrayBlockingQueue\<close> (on an
  \<open>ArrayList\<close>) and \<open>RingBuffer\<close>. \<open>pop\<close> on an empty queue busy-waits, which is the fault \<open>Spins\<close>.
\<close>

section \<open>The contract of a queue\<close>

primrec push_all :: "('q \<Rightarrow> 'a \<Rightarrow> 'q outcome) \<Rightarrow> 'q \<Rightarrow> 'a list \<Rightarrow> 'q outcome" where
  "push_all push q [] = Inr q"
| "push_all push q (x # xs) = andThen (push q x) (\<lambda>q'. push_all push q' xs)"

primrec pop_many :: "('q \<Rightarrow> ('q \<times> 'a) outcome) \<Rightarrow> 'q \<Rightarrow> nat \<Rightarrow> ('q \<times> 'a list) outcome" where
  "pop_many pop q 0 = Inr (q, [])"
| "pop_many pop q (Suc n) =
     andThen (pop q) (\<lambda>(q', x). andThen (pop_many pop q' n) (\<lambda>(q'', xs). Inr (q'', x # xs)))"

locale fifo =
  fixes inv :: "'q \<Rightarrow> bool"
    and abs :: "'q \<Rightarrow> 'a list"
    and push :: "'q \<Rightarrow> 'a \<Rightarrow> 'q outcome"
    and pop :: "'q \<Rightarrow> ('q \<times> 'a) outcome"
    and limit :: nat
  assumes push_back: "inv q \<Longrightarrow> length (abs q) < limit
      \<Longrightarrow> \<exists>q'. push q x = Inr q' \<and> inv q' \<and> abs q' = abs q @ [x]"
    and pop_front: "inv q \<Longrightarrow> abs q = x # xs \<Longrightarrow> \<exists>q'. pop q = Inr (q', x) \<and> inv q' \<and> abs q' = xs"
begin

lemma push_all_back:
  assumes "inv q" "length (abs q) + length xs \<le> limit"
  shows "\<exists>q'. push_all push q xs = Inr q' \<and> inv q' \<and> abs q' = abs q @ xs"
  using assms
proof (induction xs arbitrary: q)
  case (Cons x xs)
  obtain q1 where "push q x = Inr q1" "inv q1" "abs q1 = abs q @ [x]"
    using push_back [OF Cons.prems(1)] Cons.prems(2) by fastforce
  then show ?case using Cons.IH [of q1] Cons.prems(2) by auto
qed simp

lemma pop_many_front:
  assumes "inv q" "abs q = xs @ ys"
  shows "\<exists>q'. pop_many pop q (length xs) = Inr (q', xs) \<and> inv q' \<and> abs q' = ys"
  using assms
proof (induction xs arbitrary: q)
  case (Cons x xs)
  obtain q1 where "pop q = Inr (q1, x)" "inv q1" "abs q1 = xs @ ys"
    using pop_front [OF Cons.prems(1), of x "xs @ ys"] Cons.prems(2) by auto
  then show ?case using Cons.IH [of q1] by auto
qed simp

text \<open>First in, first out: what is pushed behind \<open>old\<close> comes out in the same order, after \<open>old\<close>.\<close>

lemma first_in_first_out:
  assumes "inv q" "length (abs q) + length xs \<le> limit"
  shows "\<exists>q1 q2. push_all push q xs = Inr q1 \<and> pop_many pop q1 (length (abs q) + length xs) = Inr (q2, abs q @ xs)
           \<and> inv q2 \<and> abs q2 = []"
proof -
  obtain q1 where "push_all push q xs = Inr q1" "inv q1" "abs q1 = abs q @ xs"
    using push_all_back [OF assms] by blast
  moreover from this pop_many_front [of q1 "abs q @ xs" "[]"]
  obtain q2 where "pop_many pop q1 (length (abs q @ xs)) = Inr (q2, abs q @ xs)" "inv q2" "abs q2 = []"
    by auto
  ultimately show ?thesis by auto
qed

end

locale blocking_fifo = fifo +
  assumes pop_blocks: "inv q \<Longrightarrow> abs q = [] \<Longrightarrow> pop q = Inl Spins"

section \<open>ArrayBlockingQueue\<close>

type_synonym 'a array_queue = "'a array_list"

definition ABQ_new :: "'a \<Rightarrow> 'a array_queue" where
  "ABQ_new dflt = ArrayList_new dflt 16"

definition ABQ_new_capacity :: "'a \<Rightarrow> u32 \<Rightarrow> 'a array_queue" where
  "ABQ_new_capacity dflt capacity = ArrayList_new dflt 16"

definition ABQ_isEmpty :: "'a array_queue \<Rightarrow> bool" where
  "ABQ_isEmpty q = ArrayList_isEmpty q"

definition ABQ_push :: "'a \<Rightarrow> 'a array_queue \<Rightarrow> 'a \<Rightarrow> 'a array_queue outcome" where
  "ABQ_push dflt q element = ArrayList_add dflt q element"

definition ABQ_pop :: "'a array_queue \<Rightarrow> ('a array_queue \<times> 'a) outcome" where
  "ABQ_pop q = (if ABQ_isEmpty q then Inl Spins else ArrayList_remove_at q 0)"

definition ABQ_add :: "'a \<Rightarrow> 'a array_queue \<Rightarrow> 'a \<Rightarrow> 'a array_queue outcome" where
  "ABQ_add dflt q element = ArrayList_add dflt q element"

definition ABQ_addAll :: "'a \<Rightarrow> 'a array_queue \<Rightarrow> 'a list \<Rightarrow> 'a array_queue outcome" where
  "ABQ_addAll dflt q other = ArrayList_addAll dflt q other"

definition ABQ_remove :: "'a array_queue \<Rightarrow> 'a \<Rightarrow> ('a array_queue \<times> bool) outcome" where
  "ABQ_remove q element = ArrayList_remove q element"

definition ABQ_removeAll :: "'a array_queue \<Rightarrow> 'a list \<Rightarrow> ('a array_queue \<times> bool) outcome" where
  "ABQ_removeAll q other = ArrayList_removeAll q other"

definition ABQ_contains :: "'a array_queue \<Rightarrow> 'a \<Rightarrow> bool outcome" where
  "ABQ_contains q element = ArrayList_contains q element"

definition ABQ_containsAll :: "'a array_queue \<Rightarrow> 'a list \<Rightarrow> bool outcome" where
  "ABQ_containsAll q other = ArrayList_containsAll q other"

definition ABQ_clear :: "'a array_queue \<Rightarrow> 'a array_queue" where
  "ABQ_clear q = ArrayList_clear q"

definition ABQ_size :: "'a array_queue \<Rightarrow> u32" where
  "ABQ_size q = ArrayList_size q"

definition ABQ_toArray :: "'a \<Rightarrow> 'a array_queue \<Rightarrow> 'a array outcome" where
  "ABQ_toArray dflt q = ArrayList_toArray dflt q"

lemma ABQ_isEmpty_abs: "al_wf q \<Longrightarrow> ABQ_isEmpty q \<longleftrightarrow> al_abs q = []"
  using length_al_abs [of q] by (auto simp: ABQ_isEmpty_def ArrayList_isEmpty_def al_abs_def unat_eq_0)

interpretation abq: blocking_fifo al_wf al_abs "ABQ_push dflt" ABQ_pop 2147483648 for dflt
proof unfold_locales
  show "\<exists>q'. ABQ_push dflt q x = Inr q' \<and> al_wf q' \<and> al_abs q' = al_abs q @ [x]"
    if "al_wf q" "length (al_abs q) < 2147483648" for q x
    using ArrayList_add_abs [OF that] by (simp add: ABQ_push_def)
  show "\<exists>q'. ABQ_pop q = Inr (q', x) \<and> al_wf q' \<and> al_abs q' = xs" if "al_wf q" "al_abs q = x # xs" for q x xs
    using ArrayList_remove_at_abs [of q 0] that by (simp add: ABQ_pop_def ABQ_isEmpty_abs)
  show "ABQ_pop q = Inl Spins" if "al_wf q" "al_abs q = []" for q
    using that by (simp add: ABQ_pop_def ABQ_isEmpty_abs)
qed

section \<open>RingBuffer\<close>

record 'a ring_buffer =
  rb_buffer :: "'a array"
  rb_capacity :: u32
  rb_readIndex :: u32
  rb_writeIndex :: u32
  rb_size :: u32

definition RingBuffer_new :: "'a \<Rightarrow> u32 \<Rightarrow> 'a ring_buffer outcome" where
  "RingBuffer_new dflt capacity =
     (if capacity = 0 then Inl (Thrown INVALID_ARGUMENT)
      else Inr \<lparr>rb_buffer = Array_new dflt capacity, rb_capacity = capacity, rb_readIndex = 0,
                rb_writeIndex = 0, rb_size = 0\<rparr>)"

definition RingBuffer_push :: "'a ring_buffer \<Rightarrow> 'a \<Rightarrow> 'a ring_buffer outcome" where
  "RingBuffer_push r element =
     andThen (Array_set (rb_buffer r) (rb_writeIndex r) element) (\<lambda>b.
     let w = rb_writeIndex r + 1
     in Inr (r\<lparr>rb_buffer := b, rb_writeIndex := (if w \<ge> rb_capacity r then 0 else w), rb_size := rb_size r + 1\<rparr>))"

definition RingBuffer_pop :: "'a ring_buffer \<Rightarrow> ('a ring_buffer \<times> 'a) outcome" where
  "RingBuffer_pop r =
     andThen (Array_get (rb_buffer r) (rb_readIndex r)) (\<lambda>tmp.
     let i = rb_readIndex r + 1
     in Inr (r\<lparr>rb_readIndex := (if i \<ge> rb_capacity r then 0 else i), rb_size := rb_size r - 1\<rparr>, tmp))"

definition RingBuffer_isEmpty :: "'a ring_buffer \<Rightarrow> bool" where
  "RingBuffer_isEmpty r \<longleftrightarrow> rb_size r = 0"

definition rb_inv :: "nat \<Rightarrow> 'a ring_buffer \<Rightarrow> bool" where
  "rb_inv cap r \<longleftrightarrow> array_wf (rb_buffer r) \<and> arr_capacity (rb_buffer r) = rb_capacity r
     \<and> unat (rb_capacity r) = cap \<and> unat (rb_readIndex r) < cap \<and> unat (rb_size r) \<le> cap
     \<and> unat (rb_writeIndex r) = (unat (rb_readIndex r) + unat (rb_size r)) mod cap"

definition rb_abs :: "'a ring_buffer \<Rightarrow> 'a list" where
  "rb_abs r = map (\<lambda>i. arr_array (rb_buffer r) ! ((unat (rb_readIndex r) + i) mod unat (rb_capacity r)))
                [0..<unat (rb_size r)]"

lemma ring_next:
  assumes "unat (i :: u32) < unat (cap :: u32)"
  shows "unat (if i + 1 \<ge> cap then 0 else i + 1) = (unat i + 1) mod unat cap"
proof -
  have "unat (i + 1) = unat i + 1" using assms unat_Suc_u32 [of i cap] by (simp add: word_less_nat_alt)
  then show ?thesis using assms by (cases "unat i + 1 = unat cap") (auto simp: word_le_nat_alt)
qed

lemma ring_slots_differ:
  assumes "i < n" "n < cap"
  shows "(r + i) mod cap \<noteq> (r + n) mod (cap :: nat)"
proof
  assume "(r + i) mod cap = (r + n) mod cap"
  then have "cap dvd n - i" using assms mod_eq_dvd_iff_nat [of "r + i" "r + n" cap] by simp
  then show False using assms by (auto dest: dvd_imp_le)
qed

lemma RingBuffer_push_abs:
  assumes "rb_inv cap r" "length (rb_abs r) < cap"
  shows "\<exists>r'. RingBuffer_push r x = Inr r' \<and> rb_inv cap r' \<and> rb_abs r' = rb_abs r @ [x]"
proof -
  let ?w = "unat (rb_writeIndex r)" and ?n = "unat (rb_size r)" and ?b = "rb_buffer r" and ?r = "unat (rb_readIndex r)"
  have n: "?n < cap" using assms(2) by (simp add: rb_abs_def)
  have i: "array_wf ?b" "length (arr_array ?b) = cap" "unat (rb_capacity r) = cap" "?r < cap"
    "?w = (?r + ?n) mod cap" "?w < cap" using assms(1) n by (auto simp: rb_inv_def array_wf_def)
  have n1: "unat (rb_size r + 1) = ?n + 1"
    using n i(3) unat_Suc_u32 [of "rb_size r" "rb_capacity r"] by (simp add: word_less_nat_alt)
  let ?r' = "r\<lparr>rb_buffer := ?b\<lparr>arr_array := (arr_array ?b)[?w := x]\<rparr>,
    rb_writeIndex := (if rb_writeIndex r + 1 \<ge> rb_capacity r then 0 else rb_writeIndex r + 1), rb_size := rb_size r + 1\<rparr>"
  have "RingBuffer_push r x = Inr ?r'" using i by (simp add: RingBuffer_push_def Array_set_wf Let_def)
  moreover have "rb_inv cap ?r'"
  proof -
    have "unat (rb_writeIndex ?r') = (?w + 1) mod cap"
      using ring_next [of "rb_writeIndex r" "rb_capacity r"] i by simp
    also have "\<dots> = (?r + (?n + 1)) mod cap" using i(5) by (simp add: mod_Suc_eq)
    finally show ?thesis using assms(1) n n1 by (simp add: rb_inv_def)
  qed
  moreover have "rb_abs ?r' = rb_abs r @ [x]"
    using i n1 n ring_slots_differ [of _ ?n cap ?r, THEN not_sym] by (simp add: rb_abs_def)
  ultimately show ?thesis by blast
qed

lemma RingBuffer_pop_abs:
  assumes "rb_inv cap r" "rb_abs r = x # xs"
  shows "\<exists>r'. RingBuffer_pop r = Inr (r', x) \<and> rb_inv cap r' \<and> rb_abs r' = xs"
proof -
  let ?n = "unat (rb_size r)" and ?b = "rb_buffer r" and ?r = "unat (rb_readIndex r)"
  have i: "array_wf ?b" "length (arr_array ?b) = cap" "unat (rb_capacity r) = cap" "?r < cap"
    using assms(1) by (auto simp: rb_inv_def array_wf_def)
  have "length (rb_abs r) = ?n" by (simp add: rb_abs_def)
  then obtain m where m: "?n = Suc m" using assms(2) by (metis length_Cons)
  have xs: "x = arr_array ?b ! ?r" "xs = map (\<lambda>k. arr_array ?b ! ((?r + Suc k) mod cap)) [0..<m]"
    using assms(2) i by (auto simp: rb_abs_def m upt_conv_Cons map_Suc_upt [symmetric] o_def simp del: upt_Suc)
  have n1: "unat (rb_size r - 1) = m" using m by (simp add: unat_sub_u32)
  let ?r' = "r\<lparr>rb_readIndex := (if rb_readIndex r + 1 \<ge> rb_capacity r then 0 else rb_readIndex r + 1), rb_size := rb_size r - 1\<rparr>"
  have nxt: "unat (rb_readIndex ?r') = (?r + 1) mod cap"
    using ring_next [of "rb_readIndex r" "rb_capacity r"] i by simp
  have "RingBuffer_pop r = Inr (?r', x)" using i xs by (simp add: RingBuffer_pop_def Array_get_wf Let_def)
  moreover have "rb_inv cap ?r'"
    using assms(1) nxt n1 m i by (simp add: rb_inv_def mod_simps)
  moreover have "rb_abs ?r' = xs"
    using nxt n1 i xs(2) by (simp add: rb_abs_def mod_simps)
  ultimately show ?thesis by blast
qed

lemma RingBuffer_push_full:
  assumes "rb_inv cap r" "length (rb_abs r) = cap"
  shows "\<exists>r' r''. RingBuffer_push r x = Inr r' \<and> RingBuffer_pop r' = Inr (r'', x)"
proof -
  have "unat (rb_size r) = cap" using assms(2) by (simp add: rb_abs_def)
  then have w: "unat (rb_writeIndex r) = unat (rb_readIndex r)" and i: "unat (rb_readIndex r) < cap"
      "array_wf (rb_buffer r)" "length (arr_array (rb_buffer r)) = cap"
    using assms(1) by (auto simp: rb_inv_def array_wf_def)
  have "rb_writeIndex r = rb_readIndex r" using w by (simp add: word_unat_eq_iff)
  moreover have "array_wf (rb_buffer r\<lparr>arr_array := (arr_array (rb_buffer r))[unat (rb_readIndex r) := x]\<rparr>)"
    using i(2) by (simp add: array_wf_def)
  ultimately show ?thesis using i by (simp add: RingBuffer_push_def RingBuffer_pop_def Array_set_wf Array_get_wf Let_def)
qed

interpretation ring: fifo "rb_inv cap" rb_abs RingBuffer_push RingBuffer_pop cap for cap
  by unfold_locales (auto intro: RingBuffer_push_abs RingBuffer_pop_abs)

section \<open>Properties\<close>

text \<open>C28. \<open>RingBuffer\<close> is a queue of bounded size: as long as the elements in it and those pushed are not more than its
  capacity, elements come out in the order in which they went in, also across the wrap-around of the two
  indices. \<open>push\<close> does not check for this: into a full buffer it writes over the oldest element, and the next
  \<open>pop\<close> returns the new element in its place.\<close>

theorem RingBuffer_fifo:
  assumes "rb_inv cap r" "length (rb_abs r) + length xs \<le> cap"
  shows "\<exists>r1 r2. push_all RingBuffer_push r xs = Inr r1
           \<and> pop_many RingBuffer_pop r1 (length (rb_abs r) + length xs) = Inr (r2, rb_abs r @ xs)
           \<and> rb_abs r2 = [] \<and> RingBuffer_isEmpty r2
           \<and> (length (rb_abs r) = cap \<longrightarrow> (\<exists>r3 r4. RingBuffer_push r x = Inr r3 \<and> RingBuffer_pop r3 = Inr (r4, x)))"
proof -
  obtain r1 r2 where "push_all RingBuffer_push r xs = Inr r1"
    "pop_many RingBuffer_pop r1 (length (rb_abs r) + length xs) = Inr (r2, rb_abs r @ xs)" "rb_abs r2 = []"
    using ring.first_in_first_out [OF assms] by blast
  moreover from this have "RingBuffer_isEmpty r2" by (simp add: rb_abs_def RingBuffer_isEmpty_def unat_eq_0)
  ultimately show ?thesis using RingBuffer_push_full [OF assms(1), of x] by blast
qed

theorem RingBuffer_fifo_witness:
  "\<exists>r1 r2. push_all RingBuffer_push
       \<lparr>rb_buffer = \<lparr>arr_array = [1, 2, 3 :: nat], arr_capacity = 3\<rparr>, rb_capacity = 3, rb_readIndex = 2,
        rb_writeIndex = 0, rb_size = 1\<rparr> [8, 9] = Inr r1
     \<and> pop_many RingBuffer_pop r1 (Suc (Suc (Suc 0))) = Inr (r2, [3, 8, 9])"
  using RingBuffer_fifo [of 3 "\<lparr>rb_buffer = \<lparr>arr_array = [1, 2, 3 :: nat], arr_capacity = 3\<rparr>, rb_capacity = 3,
      rb_readIndex = 2, rb_writeIndex = 0, rb_size = 1\<rparr>" "[8, 9]"]
  by (auto simp: rb_inv_def rb_abs_def array_wf_def simp del: push_all.simps pop_many.simps)

end
