(* ===== verification/Linked_Queues.thy ===== *)
theory Linked_Queues
  imports Queues
begin

text \<open>
  \<open>LinkedBlockingQueue\<close> and \<open>LinkedList\<close> of \<open>lib/util\<close>, which extends the queue by positional access. A node
  lives at an address of a store, \<open>new Node\<close> takes an address that was never used, \<open>delete\<close> empties it, and
  an access through a null or dangling pointer is \<open>BadAccess\<close>. Loops that follow pointers are partial functions.
\<close>

section \<open>State\<close>

record 'a node =
  n_element :: 'a
  n_next :: "nat option"

record 'a linked_queue =
  q_nodes :: "nat \<rightharpoonup> 'a node"
  q_fresh :: nat
  q_head :: "nat option"
  q_tail :: "nat option"
  q_length :: u32

definition LBQ_empty :: "'a linked_queue" where
  "LBQ_empty = \<lparr>q_nodes = Map.empty, q_fresh = 0, q_head = None, q_tail = None, q_length = 0\<rparr>"

text \<open>The access \<open>p->...\<close>, the store \<open>p->next = v\<close> and \<open>new Node(x)\<close>.\<close>

definition deref :: "'a linked_queue \<Rightarrow> nat option \<Rightarrow> 'a node outcome" where
  "deref q p = (case p of None \<Rightarrow> Inl BadAccess
      | Some a \<Rightarrow> (case q_nodes q a of None \<Rightarrow> Inl BadAccess | Some n \<Rightarrow> Inr n))"

definition put_next :: "'a linked_queue \<Rightarrow> nat option \<Rightarrow> nat option \<Rightarrow> 'a linked_queue outcome" where
  "put_next q p v = (case p of None \<Rightarrow> Inl BadAccess
      | Some a \<Rightarrow> (case q_nodes q a of None \<Rightarrow> Inl BadAccess
                  | Some n \<Rightarrow> Inr (q\<lparr>q_nodes := (q_nodes q)(a \<mapsto> n\<lparr>n_next := v\<rparr>)\<rparr>)))"

definition new_node :: "'a linked_queue \<Rightarrow> 'a \<Rightarrow> 'a linked_queue" where
  "new_node q x = q\<lparr>q_nodes := (q_nodes q)(q_fresh q \<mapsto> \<lparr>n_element = x, n_next = None\<rparr>), q_fresh := Suc (q_fresh q)\<rparr>"

definition delete_node :: "'a linked_queue \<Rightarrow> nat option \<Rightarrow> 'a linked_queue" where
  "delete_node q p = (case p of None \<Rightarrow> q | Some a \<Rightarrow> q\<lparr>q_nodes := (q_nodes q)(a := None)\<rparr>)"

section \<open>LinkedBlockingQueue\<close>

definition LBQ_push :: "'a linked_queue \<Rightarrow> 'a \<Rightarrow> 'a linked_queue outcome" where
  "LBQ_push q0 element =
     (let node = Some (q_fresh q0); q = new_node q0 element
      in andThen (if q_head q = None then Inr (q\<lparr>q_head := node, q_tail := node\<rparr>)
                  else andThen (put_next q (q_tail q) node) (\<lambda>q1. Inr (q1\<lparr>q_tail := node\<rparr>))) (\<lambda>q2.
         Inr (q2\<lparr>q_length := q_length q2 + 1\<rparr>)))"

definition LBQ_isEmpty :: "'a linked_queue \<Rightarrow> bool" where
  "LBQ_isEmpty q \<longleftrightarrow> q_length q = 0"

definition LBQ_pop :: "'a linked_queue \<Rightarrow> ('a linked_queue \<times> 'a) outcome" where
  "LBQ_pop q =
     (if LBQ_isEmpty q then Inl Spins
      else andThen (deref q (q_head q)) (\<lambda>n.
           let q1 = delete_node (q\<lparr>q_head := n_next n\<rparr>) (q_head q)
           in Inr (q1\<lparr>q_length := q_length q1 - 1\<rparr>, n_element n)))"

definition LBQ_add :: "'a linked_queue \<Rightarrow> 'a \<Rightarrow> 'a linked_queue outcome" where
  "LBQ_add q element = LBQ_push q element"

primrec LBQ_addAll :: "'a linked_queue \<Rightarrow> 'a list \<Rightarrow> 'a linked_queue outcome" where
  "LBQ_addAll q [] = Inr q"
| "LBQ_addAll q (x # xs) = andThen (LBQ_push q x) (\<lambda>q'. LBQ_addAll q' xs)"

text \<open>
  \<open>remove\<close>: the loop \<open>while (current != nullptr)\<close> never advances \<open>current\<close>. Its body either
  removes the second node and returns, or the loop goes on with the same state for ever.
\<close>

definition LBQ_remove :: "'a linked_queue \<Rightarrow> 'a \<Rightarrow> ('a linked_queue \<times> bool) outcome" where
  "LBQ_remove q element =
     (if q_head q = None then Inr (q, False)
      else andThen (deref q (q_head q)) (\<lambda>h.
           if n_element h = element then andThen (LBQ_pop q) (\<lambda>(q', x). Inr (q', True))
           else andThen (deref q (n_next h)) (\<lambda>n.
                if n_element n = element
                then andThen (put_next q (q_head q) (n_next n)) (\<lambda>q1.
                     let q2 = delete_node q1 (n_next h)
                     in Inr (q2\<lparr>q_length := q_length q2 - 1\<rparr>, True))
                else Inl Spins)))"

primrec LBQ_removeAll_loop :: "'a linked_queue \<Rightarrow> bool \<Rightarrow> 'a list \<Rightarrow> ('a linked_queue \<times> bool) outcome" where
  "LBQ_removeAll_loop q ret [] = Inr (q, ret)"
| "LBQ_removeAll_loop q ret (x # xs) =
     andThen (LBQ_remove q x) (\<lambda>(q', removed). LBQ_removeAll_loop q' (if removed then ret else False) xs)"

definition LBQ_removeAll :: "'a linked_queue \<Rightarrow> 'a list \<Rightarrow> ('a linked_queue \<times> bool) outcome" where
  "LBQ_removeAll q other = LBQ_removeAll_loop q True other"

partial_function (option) contains_from :: "'a linked_queue \<Rightarrow> 'a \<Rightarrow> nat option \<Rightarrow> bool outcome option" where
  "contains_from q element current =
     (case deref q current of
        Inl e \<Rightarrow> Some (Inl e)
      | Inr n \<Rightarrow> (if n_element n \<noteq> element
                 then (if n_next n = None then Some (Inr False) else contains_from q element (n_next n))
                 else Some (Inr True)))"

definition LBQ_contains :: "'a linked_queue \<Rightarrow> 'a \<Rightarrow> bool outcome option" where
  "LBQ_contains q element = contains_from q element (q_head q)"

primrec LBQ_containsAll :: "'a linked_queue \<Rightarrow> 'a list \<Rightarrow> bool outcome option" where
  "LBQ_containsAll q [] = Some (Inr True)"
| "LBQ_containsAll q (x # xs) =
     (case LBQ_contains q x of
        None \<Rightarrow> None
      | Some (Inl e) \<Rightarrow> Some (Inl e)
      | Some (Inr found) \<Rightarrow> if found then LBQ_containsAll q xs else Some (Inr False))"

partial_function (option) LBQ_clear :: "'a linked_queue \<Rightarrow> 'a linked_queue outcome option" where
  "LBQ_clear q =
     (if LBQ_isEmpty q then Some (Inr q)
      else (case LBQ_pop q of Inl e \<Rightarrow> Some (Inl e) | Inr (q', x) \<Rightarrow> LBQ_clear q'))"

definition LBQ_size :: "'a linked_queue \<Rightarrow> u32" where
  "LBQ_size q = q_length q"

partial_function (option) fill_array ::
  "'a linked_queue \<Rightarrow> nat option \<Rightarrow> u32 \<Rightarrow> 'a array \<Rightarrow> 'a array outcome option" where
  "fill_array q current i ret =
     (if current = None then Some (Inr ret)
      else (case andThen (deref q current) (\<lambda>n. andThen (Array_set ret i (n_element n)) (\<lambda>r. Inr (r, n_next n))) of
              Inl e \<Rightarrow> Some (Inl e)
            | Inr (r, nx) \<Rightarrow> fill_array q nx (i + 1) r))"

definition LBQ_toArray :: "'a \<Rightarrow> 'a linked_queue \<Rightarrow> 'a array outcome option" where
  "LBQ_toArray dflt q = fill_array q (q_head q) 0 (Array_new dflt (q_length q))"

section \<open>LinkedList\<close>

fun insert_loop :: "nat \<Rightarrow> u32 \<Rightarrow> u32 \<Rightarrow> nat option \<Rightarrow> 'a linked_queue \<Rightarrow> nat option \<Rightarrow> 'a linked_queue outcome" where
  "insert_loop 0 i index node q current = Inr q"
| "insert_loop (Suc k) i index node q current =
     (if i = index
      then andThen (deref q current) (\<lambda>c.
           andThen (put_next q node (n_next c)) (\<lambda>q1.
           andThen (put_next q1 current node) (\<lambda>q2.
           Inr (q2\<lparr>q_length := q_length q2 + 1\<rparr>))))
      else andThen (deref q current) (\<lambda>c. insert_loop k (i + 1) index node q (n_next c)))"

definition LinkedList_add_at :: "'a linked_queue \<Rightarrow> u32 \<Rightarrow> 'a \<Rightarrow> 'a linked_queue outcome" where
  "LinkedList_add_at q0 index element =
     andThen (if index > q_length q0 \<or> q_head q0 = None then LBQ_push q0 element else Inr q0) (\<lambda>q.
     insert_loop (unat (q_length q)) 0 index (Some (q_fresh q)) (new_node q element) (q_head q))"

fun remove_loop :: "nat \<Rightarrow> u32 \<Rightarrow> u32 \<Rightarrow> 'a linked_queue \<Rightarrow> nat option \<Rightarrow> nat option \<Rightarrow> ('a linked_queue \<times> 'a) outcome" where
  "remove_loop 0 i index q pred current = Inl (Thrown OUT_OF_BOUNDS)"
| "remove_loop (Suc k) i index q pred current =
     (if i = index
      then andThen (deref q current) (\<lambda>c.
           andThen (put_next q pred (n_next c)) (\<lambda>q1.
           let q2 = (if n_next c = None then q1\<lparr>q_tail := pred\<rparr> else q1);
               q3 = q2\<lparr>q_length := q_length q2 - 1\<rparr>
           in Inr (delete_node q3 current, n_element c)))
      else andThen (deref q current) (\<lambda>c. remove_loop k (i + 1) index q current (n_next c)))"

definition LinkedList_remove_at :: "'a linked_queue \<Rightarrow> u32 \<Rightarrow> ('a linked_queue \<times> 'a) outcome" where
  "LinkedList_remove_at q index =
     (if index = 0 then LBQ_pop q
      else remove_loop (unat (q_length q)) 0 index q (q_head q) (q_head q))"

fun set_loop :: "nat \<Rightarrow> u32 \<Rightarrow> u32 \<Rightarrow> 'a \<Rightarrow> 'a linked_queue \<Rightarrow> nat option \<Rightarrow> 'a linked_queue outcome" where
  "set_loop 0 i index element q current = Inr q"
| "set_loop (Suc k) i index element q current =
     andThen (deref q current) (\<lambda>c.
     if i = index
     then Inr (q\<lparr>q_nodes := (q_nodes q)(the current \<mapsto> c\<lparr>n_element := element\<rparr>)\<rparr>)
     else set_loop k (i + 1) index element q (n_next c))"

definition LinkedList_set :: "'a linked_queue \<Rightarrow> u32 \<Rightarrow> 'a \<Rightarrow> 'a linked_queue outcome" where
  "LinkedList_set q index element =
     (if index \<ge> q_length q then Inr q else set_loop (unat (q_length q)) 0 index element q (q_head q))"

partial_function (option) index_from :: "'a linked_queue \<Rightarrow> 'a \<Rightarrow> nat option \<Rightarrow> u32 \<Rightarrow> u32 outcome option" where
  "index_from q element current ret =
     (case deref q current of
        Inl e \<Rightarrow> Some (Inl e)
      | Inr n \<Rightarrow> (if n_element n \<noteq> element
                 then (if n_next n = None then Some (Inr UINT32_MAX) else index_from q element (n_next n) (ret + 1))
                 else Some (Inr ret)))"

definition LinkedList_indexOf :: "'a linked_queue \<Rightarrow> 'a \<Rightarrow> u32 outcome option" where
  "LinkedList_indexOf q element = index_from q element (q_head q) 0"

fun walk_to :: "nat \<Rightarrow> 'a linked_queue \<Rightarrow> nat option \<Rightarrow> 'a outcome" where
  "walk_to 0 q current = andThen (deref q current) (\<lambda>c. Inr (n_element c))"
| "walk_to (Suc k) q current = andThen (deref q current) (\<lambda>c. walk_to k q (n_next c))"

definition LinkedList_get :: "'a linked_queue \<Rightarrow> u32 \<Rightarrow> 'a outcome" where
  "LinkedList_get q index =
     (if index \<ge> q_length q then Inl (Thrown OUT_OF_BOUNDS) else walk_to (unat index) q (q_head q))"

section \<open>The list a chain of nodes stands for\<close>

fun chain :: "(nat \<rightharpoonup> 'a node) \<Rightarrow> nat option \<Rightarrow> nat list \<Rightarrow> 'a list \<Rightarrow> nat option \<Rightarrow> bool" where
  "chain m p [] [] r \<longleftrightarrow> p = r"
| "chain m p (a # as) (x # xs) r \<longleftrightarrow>
     p = Some a \<and> (\<exists>n. m a = Some n \<and> n_element n = x \<and> chain m (n_next n) as xs r)"
| "chain m p _ _ r \<longleftrightarrow> False"

fun lbq_walk :: "nat \<Rightarrow> (nat \<rightharpoonup> 'a node) \<Rightarrow> nat option \<Rightarrow> 'a list" where
  "lbq_walk 0 m p = []"
| "lbq_walk (Suc k) m p =
     (case p of None \<Rightarrow> [] | Some a \<Rightarrow> (case m a of None \<Rightarrow> [] | Some n \<Rightarrow> n_element n # lbq_walk k m (n_next n)))"

definition lbq_abs :: "'a linked_queue \<Rightarrow> 'a list" where
  "lbq_abs q = lbq_walk (unat (q_length q)) (q_nodes q) (q_head q)"

definition lbq_rep :: "'a linked_queue \<Rightarrow> nat list \<Rightarrow> 'a list \<Rightarrow> bool" where
  "lbq_rep q as xs \<longleftrightarrow> chain (q_nodes q) (q_head q) as xs None \<and> distinct as
     \<and> unat (q_length q) = length xs \<and> (as \<noteq> [] \<longrightarrow> q_tail q = Some (last as))
     \<and> (\<forall>a \<ge> q_fresh q. q_nodes q a = None)"

definition lbq_inv :: "'a linked_queue \<Rightarrow> bool" where
  "lbq_inv q \<longleftrightarrow> (\<exists>as. lbq_rep q as (lbq_abs q))"

lemma chain_length: "chain m p as xs r \<Longrightarrow> length as = length xs"
  by (induction m p as xs r rule: chain.induct) auto

lemma chain_append:
  "length as = length xs \<Longrightarrow> chain m p (as @ bs) (xs @ ys) r \<longleftrightarrow> (\<exists>q. chain m p as xs q \<and> chain m q bs ys r)"
  by (induction as xs arbitrary: p rule: list_induct2) auto

lemma chain_cong: "(\<And>a. a \<in> set as \<Longrightarrow> m' a = m a) \<Longrightarrow> chain m' p as xs r = chain m p as xs r"
  by (induction m p as xs r rule: chain.induct) auto

lemma chain_dom: "chain m p as xs r \<Longrightarrow> a \<in> set as \<Longrightarrow> m a \<noteq> None"
  by (induction m p as xs r rule: chain.induct) auto

lemma chain_walk: "chain m p as xs None \<Longrightarrow> lbq_walk (length xs) m p = xs"
  by (induction m p as xs "None :: nat option" rule: chain.induct) auto

lemma lbq_rep_abs: "lbq_rep q as xs \<Longrightarrow> lbq_abs q = xs"
  by (auto simp: lbq_rep_def lbq_abs_def intro: chain_walk)

lemma lbq_rep_inv: "lbq_rep q as xs \<Longrightarrow> lbq_inv q"
  using lbq_rep_abs [of q as xs] by (auto simp: lbq_inv_def)

lemma lbq_rep_fresh: "lbq_rep q as xs \<Longrightarrow> a \<in> set as \<Longrightarrow> a < q_fresh q"
  using chain_dom [of "q_nodes q" "q_head q" as xs None a] by (force simp: lbq_rep_def not_less [symmetric])

lemma lbq_rep_head: "lbq_rep q as xs \<Longrightarrow> q_head q = None \<longleftrightarrow> xs = []"
  by (cases as; cases xs) (auto simp: lbq_rep_def)

text \<open>Giving the last node of a chain a new successor.\<close>

lemma chain_relink_last:
  assumes "chain m p (as @ [a]) (xs @ [x]) r" "distinct (as @ [a])" "m a = Some n"
  shows "chain (m(a \<mapsto> n\<lparr>n_next := r'\<rparr>)) p (as @ [a]) (xs @ [x]) r'"
proof -
  have len: "length as = length xs" using chain_length [OF assms(1)] by simp
  have "chain (m(a \<mapsto> n\<lparr>n_next := r'\<rparr>)) p as xs q = chain m p as xs q" for q
    by (rule chain_cong) (use assms(2) in auto)
  then show ?thesis using assms(1,3) len by (simp add: chain_append)
qed

lemma LBQ_push_rep:
  assumes R: "lbq_rep q as xs" and "length xs < 4294967295"
  shows "\<exists>q'. LBQ_push q x = Inr q' \<and> lbq_rep q' (as @ [q_fresh q]) (xs @ [x])"
proof -
  let ?f = "q_fresh q" and ?q = "new_node q x"
  have ch: "chain (q_nodes q) (q_head q) as xs None" "distinct as" "unat (q_length q) = length xs"
    "as \<noteq> [] \<Longrightarrow> q_tail q = Some (last as)" "\<forall>a \<ge> ?f. q_nodes q a = None" using R by (auto simp: lbq_rep_def)
  have nf: "?f \<notin> set as" using lbq_rep_fresh [OF R] by blast
  have l1: "unat (q_length q + 1) = length xs + 1" using ch(3) assms(2) unat_add_u32 [of "q_length q" 1] by simp
  show ?thesis
  proof (cases xs rule: rev_cases)
    case Nil
    then have "as = []" using chain_length [OF ch(1)] by simp
    then show ?thesis using Nil ch l1 by (simp add: LBQ_push_def new_node_def lbq_rep_def Let_def)
  next
    case (snoc ys y)
    then obtain bs b where as: "as = bs @ [b]" using chain_length [OF ch(1)] by (cases as rule: rev_cases) auto
    obtain n where n: "q_nodes q b = Some n" using chain_dom [OF ch(1), of b] as by auto
    obtain h where hd: "q_head q = Some h" using lbq_rep_head [OF R] snoc by auto
    have bf: "b \<noteq> ?f" using nf as by auto
    let ?m = "(q_nodes q)(?f \<mapsto> \<lparr>n_element = x, n_next = None\<rparr>)"
    let ?m' = "?m(b \<mapsto> n\<lparr>n_next := Some ?f\<rparr>)"
    have "chain ?m (q_head q) (bs @ [b]) (ys @ [y]) None"
      using ch(1) nf as snoc by (subst chain_cong [of _ _ "q_nodes q"]) auto
    then have "chain ?m' (q_head q) (bs @ [b]) (ys @ [y]) (Some ?f)"
      by (rule chain_relink_last) (use ch(2) as n bf in auto)
    moreover have "chain ?m' (Some ?f) [?f] [x] None" using bf by simp
    ultimately have "chain ?m' (q_head q) (as @ [?f]) (xs @ [x]) None"
      using chain_length [OF ch(1)] as snoc by (auto simp: chain_append simp del: append_assoc)
    moreover have "LBQ_push q x = Inr (?q\<lparr>q_nodes := ?m', q_tail := Some ?f, q_length := q_length q + 1\<rparr>)"
      using hd ch(4) as n bf by (simp add: LBQ_push_def put_next_def new_node_def Let_def)
    ultimately show ?thesis
      using ch l1 nf as n by (auto simp: lbq_rep_def new_node_def)
  qed
qed

lemma LBQ_pop_rep:
  assumes R: "lbq_rep q as (x # xs)"
  shows "\<exists>q' bs. LBQ_pop q = Inr (q', x) \<and> lbq_rep q' bs xs"
proof -
  obtain a bs where as: "as = a # bs" using R by (cases as) (auto simp: lbq_rep_def)
  obtain n where n: "q_head q = Some a" "q_nodes q a = Some n" "n_element n = x"
    "chain (q_nodes q) (n_next n) bs xs None" using R as by (auto simp: lbq_rep_def)
  have len: "unat (q_length q) = Suc (length xs)" "distinct (a # bs)" using R as by (auto simp: lbq_rep_def)
  have l1: "unat (q_length q - 1) = length xs" using len by (simp add: unat_sub_u32)
  have ne: "\<not> LBQ_isEmpty q" using len by (auto simp: LBQ_isEmpty_def)
  have "chain ((q_nodes q)(a := None)) (n_next n) bs xs None"
    using n(4) len(2) by (subst chain_cong [of _ _ "q_nodes q"]) auto
  then have "lbq_rep (q\<lparr>q_head := n_next n, q_nodes := (q_nodes q)(a := None), q_length := q_length q - 1\<rparr>) bs xs"
    using R as len l1 by (auto simp: lbq_rep_def)
  moreover have "LBQ_pop q =
      Inr (q\<lparr>q_head := n_next n, q_nodes := (q_nodes q)(a := None), q_length := q_length q - 1\<rparr>, x)"
    using n ne by (simp add: LBQ_pop_def deref_def delete_node_def Let_def)
  ultimately show ?thesis by blast
qed

interpretation lbq: blocking_fifo lbq_inv lbq_abs LBQ_push LBQ_pop 4294967295
proof unfold_locales
  fix q :: "'a linked_queue" and x
  assume q: "lbq_inv q" "length (lbq_abs q) < 4294967295"
  then obtain as where "lbq_rep q as (lbq_abs q)" by (auto simp: lbq_inv_def)
  from LBQ_push_rep [OF this q(2), of x] show "\<exists>q'. LBQ_push q x = Inr q' \<and> lbq_inv q' \<and> lbq_abs q' = lbq_abs q @ [x]"
    using lbq_rep_abs lbq_rep_inv by blast
next
  fix q :: "'a linked_queue" and x xs
  assume q: "lbq_inv q" "lbq_abs q = x # xs"
  then obtain as where "lbq_rep q as (x # xs)" by (auto simp: lbq_inv_def)
  from LBQ_pop_rep [OF this] show "\<exists>q'. LBQ_pop q = Inr (q', x) \<and> lbq_inv q' \<and> lbq_abs q' = xs"
    using lbq_rep_abs lbq_rep_inv by blast
next
  fix q :: "'a linked_queue"
  assume q: "lbq_inv q" "lbq_abs q = []"
  then have "q_length q = 0" by (auto simp: lbq_inv_def lbq_rep_def unat_eq_0)
  then show "LBQ_pop q = Inl Spins" by (simp add: LBQ_pop_def LBQ_isEmpty_def)
qed

section \<open>Inserting at a position\<close>

lemma insert_loop_eq:
  assumes "chain (q_nodes q) cur (as @ a # bs) (xs @ y # ys) None" "length as = length xs"
    and "length xs < k" "unat i + length xs = unat index"
    and "q_nodes q a = Some n" "q_nodes q f = Some nf" "f \<noteq> a"
  shows "insert_loop k i index (Some f) q cur =
    Inr (q\<lparr>q_nodes := (q_nodes q)(f \<mapsto> nf\<lparr>n_next := n_next n\<rparr>, a \<mapsto> n\<lparr>n_next := Some f\<rparr>),
           q_length := q_length q + 1\<rparr>)"
  using assms
proof (induction as xs arbitrary: k i cur rule: list_induct2')
  case 1
  then obtain k' where k: "k = Suc k'" by (cases k) auto
  have "i = index" using 1 by (simp add: u32_eq_iff)
  moreover have "cur = Some a" using 1(1) by simp
  ultimately show ?case using 1(5-7) k by (simp add: deref_def put_next_def fun_upd_def)
next
  case (4 b as x xs)
  then obtain k' where k: "k = Suc k'" by (cases k) auto
  obtain nb where nb: "cur = Some b" "q_nodes q b = Some nb" "chain (q_nodes q) (n_next nb) (as @ a # bs) (xs @ y # ys) None"
    using 4(2) by auto
  have i1: "unat (i + 1) = unat i + 1" "i \<noteq> index"
    using 4(5) unat_Suc_u32 [of i index] by (auto simp: word_less_nat_alt)
  have "insert_loop k' (i + 1) index (Some f) q (n_next nb) =
    Inr (q\<lparr>q_nodes := (q_nodes q)(f \<mapsto> nf\<lparr>n_next := n_next n\<rparr>, a \<mapsto> n\<lparr>n_next := Some f\<rparr>),
           q_length := q_length q + 1\<rparr>)"
    by (rule 4(1)) (use 4 nb i1 k in auto)
  then show ?case using nb k i1 by (simp add: deref_def fun_upd_def)
qed auto

lemma LinkedList_add_at_rep:
  assumes R: "lbq_rep q as xs" and i: "unat i < length xs" and "length xs < 4294967295"
  shows "\<exists>q'. LinkedList_add_at q i x = Inr q'
    \<and> lbq_abs q' = take (Suc (unat i)) xs @ x # drop (Suc (unat i)) xs"
proof -
  let ?j = "unat i" and ?f = "q_fresh q" and ?q = "new_node q x"
  have ch: "chain (q_nodes q) (q_head q) as xs None" "distinct as" "unat (q_length q) = length xs"
    using R by (auto simp: lbq_rep_def)
  have la: "length as = length xs" using ch(1) by (rule chain_length)
  have nf: "?f \<notin> set as" using lbq_rep_fresh [OF R] by blast
  obtain h where hd: "q_head q = Some h" using lbq_rep_head [OF R] i by fastforce
  define bs a cs ys y zs where d: "bs = take ?j as" "a = as ! ?j" "cs = drop (Suc ?j) as"
    "ys = take ?j xs" "y = xs ! ?j" "zs = drop (Suc ?j) xs"
  have as: "as = bs @ a # cs" "xs = ys @ y # zs" "length bs = length ys" "length ys = ?j" "length cs = length zs"
    using i la by (simp_all add: d id_take_nth_drop)
  have ma: "a \<in> set as" "a \<noteq> ?f" using as nf by auto
  then obtain n where n: "q_nodes q a = Some n" using chain_dom [OF ch(1)] by blast
  have cong: "chain (q_nodes ?q) (q_head q) as xs None"
    using ch(1) nf by (subst chain_cong [of _ _ "q_nodes q"]) (auto simp: new_node_def)
  let ?nf = "\<lparr>n_element = x, n_next = n_next n\<rparr>"
  let ?m = "(q_nodes q)(?f \<mapsto> ?nf, a \<mapsto> n\<lparr>n_next := Some ?f\<rparr>)"
  have lp: "insert_loop (length xs) 0 i (Some ?f) ?q (q_head q) =
      Inr (?q\<lparr>q_nodes := ?m, q_length := q_length q + 1\<rparr>)"
    using insert_loop_eq [of ?q "q_head q" bs a cs ys y zs "length xs" 0 i n ?f "\<lparr>n_element = x, n_next = None\<rparr>"]
      cong as n ma i by (simp add: new_node_def)
  have run: "LinkedList_add_at q i x = Inr (?q\<lparr>q_nodes := ?m, q_length := q_length q + 1\<rparr>)"
    using lp hd ch(3) i by (simp add: LinkedList_add_at_def word_less_nat_alt)
  obtain p where c1: "chain (q_nodes q) (q_head q) bs ys p" and c2: "chain (q_nodes q) p (a # cs) (y # zs) None"
    using ch(1) as by (auto simp: chain_append)
  have c2': "p = Some a" "n_element n = y" "chain (q_nodes q) (n_next n) cs zs None" using c2 n by auto
  have "chain ?m (q_head q) bs ys p"
    using c1 ch(2) nf as by (subst chain_cong [of _ _ "q_nodes q"]) auto
  moreover have "chain ?m (n_next n) cs zs None"
    using c2'(3) ch(2) nf as by (subst chain_cong [of _ _ "q_nodes q"]) auto
  ultimately have "chain ?m (q_head q) (bs @ a # ?f # cs) (ys @ y # x # zs) None"
    using c2' as(3) ma by (auto simp: chain_append)
  from chain_walk [OF this]
  have "lbq_walk (length (ys @ y # x # zs)) ?m (q_head q) = ys @ y # x # zs" .
  moreover have "unat (q_length q + 1) = length (ys @ y # x # zs)"
    using ch(3) assms(3) as unat_add_u32 [of "q_length q" 1] by simp
  moreover have "lbq_abs (?q\<lparr>q_nodes := ?m, q_length := q_length q + 1\<rparr>) = lbq_walk (unat (q_length q + 1)) ?m (q_head q)"
    by (simp add: lbq_abs_def new_node_def)
  ultimately have "lbq_abs (?q\<lparr>q_nodes := ?m, q_length := q_length q + 1\<rparr>) = ys @ y # x # zs"
    by (simp only:)
  also have "\<dots> = take (Suc ?j) xs @ x # drop (Suc ?j) xs" using i by (simp add: d take_Suc_conv_app_nth)
  finally show ?thesis using run by blast
qed

section \<open>Searching and removing\<close>

lemma contains_from_chain:
  assumes "chain (q_nodes q) p as xs None" "xs \<noteq> []"
  shows "contains_from q x p = Some (Inr (x \<in> set xs))"
  using assms
proof (induction as xs arbitrary: p rule: list_induct2')
  case (4 a as y ys)
  obtain n where n: "p = Some a" "q_nodes q a = Some n" "n_element n = y" "chain (q_nodes q) (n_next n) as ys None"
    using 4(2) by auto
  have nx: "n_next n = None \<longleftrightarrow> ys = []" using n(4) by (cases as; cases ys) auto
  show ?case
    using 4(1) [OF n(4)] n nx by (subst contains_from.simps) (auto simp: deref_def)
qed auto

lemma LBQ_clear_rep: "lbq_rep q as xs \<Longrightarrow> \<exists>q'. LBQ_clear q = Some (Inr q') \<and> lbq_rep q' [] []"
proof (induction xs arbitrary: q as)
  case Nil
  then have "as = []" "LBQ_isEmpty q"
    using chain_length [of "q_nodes q" "q_head q" as "[]" None] by (auto simp: lbq_rep_def LBQ_isEmpty_def unat_eq_0)
  then show ?case using Nil by (subst LBQ_clear.simps) auto
next
  case (Cons x xs)
  then have ne: "\<not> LBQ_isEmpty q" by (auto simp: lbq_rep_def LBQ_isEmpty_def)
  obtain q1 bs where "LBQ_pop q = Inr (q1, x)" "lbq_rep q1 bs xs" using LBQ_pop_rep [OF Cons.prems] by blast
  then show ?case using Cons.IH [of q1 bs] ne by (subst LBQ_clear.simps) auto
qed

lemma lbq_rep2:
  assumes "lbq_rep q as (y # z # zs)"
  obtains a b bs n k where "as = a # b # bs" "q_head q = Some a" "q_nodes q a = Some n" "n_element n = y"
    "n_next n = Some b" "q_nodes q b = Some k" "n_element k = z" "a \<noteq> b" "chain (q_nodes q) (n_next k) bs zs None"
proof -
  obtain a b bs where as: "as = a # b # bs" using assms by (cases as rule: list.exhaust; cases "tl as") (auto simp: lbq_rep_def)
  show thesis using assms as that by (auto simp: lbq_rep_def)
qed

section \<open>Properties\<close>

definition lbq2 :: "nat linked_queue" where
  "lbq2 = \<lparr>q_nodes = [0 \<mapsto> \<lparr>n_element = 7, n_next = Some 1\<rparr>, 1 \<mapsto> \<lparr>n_element = 8, n_next = None\<rparr>],
           q_fresh = 2, q_head = Some 0, q_tail = Some 1, q_length = 2\<rparr>"

lemma lbq2_rep: "lbq_rep lbq2 [0, 1] [7, 8]"
  by (auto simp: lbq2_def lbq_rep_def)

text \<open>C27. \<open>LinkedBlockingQueue\<close> is a queue: elements pushed onto a queue come out in the order in
  which they went in, behind those that were there before; afterwards the queue is empty,
  and a further \<open>pop\<close> waits.\<close>

theorem LBQ_fifo:
  assumes "lbq_inv q" "length (lbq_abs q) + length xs \<le> 4294967295"
  shows "\<exists>q1 q2. push_all LBQ_push q xs = Inr q1
           \<and> pop_many LBQ_pop q1 (length (lbq_abs q) + length xs) = Inr (q2, lbq_abs q @ xs)
           \<and> lbq_abs q2 = [] \<and> LBQ_pop q2 = Inl Spins"
  using lbq.first_in_first_out [OF assms] lbq.pop_blocks by metis

theorem LBQ_fifo_witness:
  "\<exists>q1 q2. push_all LBQ_push lbq2 [9, 5] = Inr q1 \<and> pop_many LBQ_pop q1 (Suc (Suc (Suc (Suc 0)))) = Inr (q2, [7, 8, 9, 5])"
  using LBQ_fifo [of lbq2 "[9, 5]"] lbq_rep_inv [OF lbq2_rep] lbq_rep_abs [OF lbq2_rep]
  by (auto simp del: push_all.simps pop_many.simps)

text \<open>\<open>remove(element)\<close> of \<open>LinkedBlockingQueue\<close> looks at the first two elements only. If
  the element is neither of them, it follows a null pointer on a queue of one element and
  loops for ever on a longer one. If it removes the last node, the tail pointer is left
  dangling and the next \<open>push\<close> writes to freed memory.\<close>

lemma LBQ_remove_faults:
  assumes "lbq_inv q" "y \<noteq> x"
  shows "(lbq_abs q = [y] \<longrightarrow> LBQ_remove q x = Inl BadAccess)
     \<and> (lbq_abs q = y # z # zs \<and> z \<noteq> x \<longrightarrow> LBQ_remove q x = Inl Spins)
     \<and> (lbq_abs q = [y, x] \<longrightarrow> (\<exists>q'. LBQ_remove q x = Inr (q', True) \<and> lbq_abs q' = [y] \<and> LBQ_push q' w = Inl BadAccess))"
proof (intro conjI impI)
  obtain as where R: "lbq_rep q as (lbq_abs q)" using assms(1) by (auto simp: lbq_inv_def)
  {
    assume a: "lbq_abs q = [y]"
    with R obtain a n where "q_head q = Some a" "q_nodes q a = Some n" "n_element n = y" "n_next n = None"
      by (cases as; cases "tl as") (auto simp: lbq_rep_def)
    then show "LBQ_remove q x = Inl BadAccess" using assms(2) by (simp add: LBQ_remove_def deref_def)
  next
    assume a: "lbq_abs q = y # z # zs \<and> z \<noteq> x"
    then have "lbq_rep q as (y # z # zs)" using R by simp
    then show "LBQ_remove q x = Inl Spins"
      by (rule lbq_rep2) (use a assms(2) in \<open>simp add: LBQ_remove_def deref_def\<close>)
  next
    assume a: "lbq_abs q = [y, x]"
    then have R2: "lbq_rep q as [y, x]" using R by simp
    obtain a b bs n k where n: "as = a # b # bs" "q_head q = Some a" "q_nodes q a = Some n" "n_element n = y"
      "n_next n = Some b" "q_nodes q b = Some k" "n_element k = x" "a \<noteq> b" "chain (q_nodes q) (n_next k) bs [] None"
      by (rule lbq_rep2 [OF R2])
    have b: "bs = []" "n_next k = None" using n(9) by (cases bs; simp)+
    have q: "unat (q_length q) = 2" "q_tail q = Some b" "q_nodes q (q_fresh q) = None" "b \<noteq> q_fresh q"
      using R2 n b by (auto simp: lbq_rep_def)
    have "q_length q = 2" using q(1) by (simp add: u32_eq_iff)
    let ?q = "q\<lparr>q_nodes := (q_nodes q)(a \<mapsto> n\<lparr>n_next := None\<rparr>, b := None), q_length := q_length q - 1\<rparr>"
    have "LBQ_remove q x = Inr (?q, True)"
      using n b assms(2) by (simp add: LBQ_remove_def deref_def put_next_def delete_node_def Let_def)
    moreover have "lbq_abs ?q = [y]" using n b \<open>q_length q = 2\<close> by (simp add: lbq_abs_def)
    moreover have "LBQ_push ?q w = Inl BadAccess"
      using n q b by (simp add: LBQ_push_def new_node_def put_next_def Let_def)
    ultimately show "\<exists>q'. LBQ_remove q x = Inr (q', True) \<and> lbq_abs q' = [y] \<and> LBQ_push q' w = Inl BadAccess"
      by blast
  }
qed

lemma LBQ_remove_faults_witness:
  "LBQ_remove lbq2 5 = Inl Spins
   \<and> (\<exists>q'. LBQ_remove lbq2 8 = Inr (q', True) \<and> lbq_abs q' = [7] \<and> LBQ_push q' 6 = Inl BadAccess)"
  using LBQ_remove_faults [of lbq2 7 5 8 "[]" 6] LBQ_remove_faults [of lbq2 7 8 8 "[]" 6]
    lbq_rep_inv [OF lbq2_rep] lbq_rep_abs [OF lbq2_rep] by simp

text \<open>\<open>LinkedList::add(index, element)\<close> inserts behind the element at \<open>index\<close>, not in front of
  it, and into an empty list it inserts the element twice.\<close>

lemma LinkedList_add_at_position:
  assumes "lbq_inv q" "length (lbq_abs q) < 4294967294"
  shows "(unat i < length (lbq_abs q) \<longrightarrow> (\<exists>q'. LinkedList_add_at q i x = Inr q'
            \<and> lbq_abs q' = take (Suc (unat i)) (lbq_abs q) @ x # drop (Suc (unat i)) (lbq_abs q)))
     \<and> (lbq_abs q = [] \<longrightarrow> (\<exists>q'. LinkedList_add_at q 0 x = Inr q' \<and> lbq_abs q' = [x, x]))"
proof (intro conjI impI)
  obtain as where R: "lbq_rep q as (lbq_abs q)" using assms(1) by (auto simp: lbq_inv_def)
  show "\<exists>q'. LinkedList_add_at q i x = Inr q'
      \<and> lbq_abs q' = take (Suc (unat i)) (lbq_abs q) @ x # drop (Suc (unat i)) (lbq_abs q)"
    if "unat i < length (lbq_abs q)" using LinkedList_add_at_rep [OF R that] assms(2) by simp
  assume e: "lbq_abs q = []"
  obtain q1 where q1: "LBQ_push q x = Inr q1" "lbq_rep q1 (as @ [q_fresh q]) [x]"
    using LBQ_push_rep [OF R, of x] e by auto
  obtain q2 where q2: "LinkedList_add_at q1 0 x = Inr q2" "lbq_abs q2 = [x, x]"
    using LinkedList_add_at_rep [OF q1(2), of 0 x] by auto
  obtain h where "q_head q1 = Some h" using lbq_rep_head [OF q1(2)] by auto
  then have "LinkedList_add_at q 0 x = LinkedList_add_at q1 0 x"
    using q1(1) lbq_rep_head [OF R] e by (simp add: LinkedList_add_at_def)
  then show "\<exists>q'. LinkedList_add_at q 0 x = Inr q' \<and> lbq_abs q' = [x, x]" using q2 by simp
qed

lemma LinkedList_add_at_position_witness:
  "\<exists>q'. LinkedList_add_at lbq2 0 5 = Inr q' \<and> lbq_abs q' = [7, 5, 8]"
  using LinkedList_add_at_position [of lbq2 0 5] lbq_rep_inv [OF lbq2_rep] lbq_rep_abs [OF lbq2_rep] by simp

end
