(* ===== verification/Hash_Maps.thy ===== *)
theory Hash_Maps
  imports Array_Lists
begin

text \<open>
  \<open>lib/util/HashMap\<close>, \<open>HashNode\<close> and \<open>HashSet\<close>. A bucket is the list of its nodes, in
  the order of the \<open>next\<close> pointers. The conversion \<open>(uint32_t) key\<close> is the argument \<open>hash\<close>
  (the identity for integers, the hash code for strings). The table is allocated on first
  use, by \<open>const\<close> operations too, so \<open>get\<close> and \<open>keySet\<close> return the map. A table of
  size 0 has no bucket to access.
\<close>

section \<open>State and operations\<close>

record ('k, 'v) hash_map =
  hm_table :: "('k \<times> 'v) list list"
  hm_isInitialized :: bool
  hm_tableSize :: u32
  hm_count :: u32

definition HashMap_new :: "u32 \<Rightarrow> ('k, 'v) hash_map" where
  "HashMap_new tableSize = \<lparr>hm_table = [], hm_isInitialized = False, hm_tableSize = tableSize, hm_count = 0\<rparr>"

definition HashMap_default :: "('k, 'v) hash_map" where
  "HashMap_default = HashMap_new 47"

definition HashMap_initialize :: "('k, 'v) hash_map \<Rightarrow> ('k, 'v) hash_map" where
  "HashMap_initialize m =
     m\<lparr>hm_table := replicate (unat (hm_tableSize m)) [], hm_isInitialized := True\<rparr>"

definition ensure_init :: "('k, 'v) hash_map \<Rightarrow> ('k, 'v) hash_map" where
  "ensure_init m = (if hm_isInitialized m then m else HashMap_initialize m)"

definition slot :: "('k \<Rightarrow> u32) \<Rightarrow> ('k, 'v) hash_map \<Rightarrow> 'k \<Rightarrow> u32" where
  "slot hash m key = hash key mod hm_tableSize m"

text \<open>The walk through a bucket in \<open>put\<close>: overwrite the entry of the key, or append a new one (second component).\<close>

fun bucket_put :: "'k \<Rightarrow> 'v \<Rightarrow> ('k \<times> 'v) list \<Rightarrow> ('k \<times> 'v) list \<times> bool" where
  "bucket_put key value [] = ([(key, value)], True)"
| "bucket_put key value (entry # rest) =
     (if fst entry \<noteq> key
      then (let (rest', added) = bucket_put key value rest in (entry # rest', added))
      else ((fst entry, value) # rest, False))"

definition HashMap_put :: "('k \<Rightarrow> u32) \<Rightarrow> ('k, 'v) hash_map \<Rightarrow> 'k \<Rightarrow> 'v \<Rightarrow> ('k, 'v) hash_map outcome" where
  "HashMap_put hash m0 key value =
     (let m = ensure_init m0
      in andThen (readAt (hm_table m) (slot hash m key)) (\<lambda>bucket.
         let (bucket', added) = bucket_put key value bucket
         in andThen (writeAt (hm_table m) (slot hash m key) bucket') (\<lambda>table.
            Inr (m\<lparr>hm_table := table, hm_count := (if added then hm_count m + 1 else hm_count m)\<rparr>))))"

primrec put_all :: "('k \<Rightarrow> u32) \<Rightarrow> ('k, 'v) hash_map \<Rightarrow> ('k \<times> 'v) list \<Rightarrow> ('k, 'v) hash_map outcome" where
  "put_all hash m [] = Inr m"
| "put_all hash m (p # ps) = andThen (HashMap_put hash m (fst p) (snd p)) (\<lambda>m'. put_all hash m' ps)"

definition HashMap_of_list :: "('k \<Rightarrow> u32) \<Rightarrow> ('k \<times> 'v) list \<Rightarrow> ('k, 'v) hash_map outcome" where
  "HashMap_of_list hash list = put_all hash (HashMap_default\<lparr>hm_count := of_nat (length list)\<rparr>) list"

fun bucket_get :: "'k \<Rightarrow> ('k \<times> 'v) list \<Rightarrow> 'v outcome" where
  "bucket_get key [] = Inl (Thrown KEY_NOT_FOUND)"
| "bucket_get key (entry # rest) = (if fst entry = key then Inr (snd entry) else bucket_get key rest)"

definition HashMap_get ::
  "('k \<Rightarrow> u32) \<Rightarrow> ('k, 'v) hash_map \<Rightarrow> 'k \<Rightarrow> (('k, 'v) hash_map \<times> 'v) outcome" where
  "HashMap_get hash m0 key =
     (let m = ensure_init m0
      in andThen (readAt (hm_table m) (slot hash m key)) (\<lambda>bucket.
         andThen (bucket_get key bucket) (\<lambda>v. Inr (m, v))))"

fun bucket_remove :: "'k \<Rightarrow> ('k \<times> 'v) list \<Rightarrow> (('k \<times> 'v) list \<times> 'v) outcome" where
  "bucket_remove key [] = Inl (Thrown KEY_NOT_FOUND)"
| "bucket_remove key (entry # rest) =
     (if fst entry \<noteq> key
      then andThen (bucket_remove key rest) (\<lambda>(rest', v). Inr (entry # rest', v))
      else Inr (rest, snd entry))"

definition HashMap_remove ::
  "('k \<Rightarrow> u32) \<Rightarrow> ('k, 'v) hash_map \<Rightarrow> 'k \<Rightarrow> (('k, 'v) hash_map \<times> 'v) outcome" where
  "HashMap_remove hash m0 key =
     (let m = ensure_init m0
      in andThen (readAt (hm_table m) (slot hash m key)) (\<lambda>bucket.
         andThen (bucket_remove key bucket) (\<lambda>(bucket', tmp).
         andThen (writeAt (hm_table m) (slot hash m key) bucket') (\<lambda>table.
         Inr (m\<lparr>hm_table := table, hm_count := hm_count m - 1\<rparr>, tmp)))))"

fun bucket_contains :: "'k \<Rightarrow> ('k \<times> 'v) list \<Rightarrow> bool" where
  "bucket_contains key [] = False"
| "bucket_contains key (entry # rest) = (if fst entry \<noteq> key then bucket_contains key rest else True)"

definition HashMap_containsKey :: "('k \<Rightarrow> u32) \<Rightarrow> ('k, 'v) hash_map \<Rightarrow> 'k \<Rightarrow> bool outcome" where
  "HashMap_containsKey hash m key =
     (if \<not> hm_isInitialized m then Inr False
      else andThen (readAt (hm_table m) (slot hash m key)) (\<lambda>bucket. Inr (bucket_contains key bucket)))"

definition HashMap_size :: "('k, 'v) hash_map \<Rightarrow> u32" where
  "HashMap_size m = hm_count m"

definition HashMap_clear :: "('k, 'v) hash_map \<Rightarrow> ('k, 'v) hash_map" where
  "HashMap_clear m0 =
     (let m = ensure_init m0
      in m\<lparr>hm_table := replicate (unat (hm_tableSize m)) [], hm_count := 0\<rparr>)"

text \<open>\<open>keySet\<close> collects the keys bucket by bucket in an \<open>ArrayList\<close>.\<close>

fun key_loop :: "'k \<Rightarrow> nat \<Rightarrow> u32 \<Rightarrow> ('k \<times> 'v) list list \<Rightarrow> 'k array_list \<Rightarrow> 'k array_list outcome" where
  "key_loop dflt 0 i table keyList = Inr keyList"
| "key_loop dflt (Suc n) i table keyList =
     andThen (readAt table i) (\<lambda>bucket.
     andThen (ArrayList_addAll dflt keyList (map fst bucket)) (key_loop dflt n (i + 1) table))"

definition HashMap_keySet :: "'k \<Rightarrow> ('k, 'v) hash_map \<Rightarrow> (('k, 'v) hash_map \<times> 'k array) outcome" where
  "HashMap_keySet dflt m0 =
     (let m = ensure_init m0
      in andThen (key_loop dflt (unat (hm_tableSize m)) 0 (hm_table m) ArrayList_empty) (\<lambda>keyList.
         andThen (ArrayList_toArray dflt keyList) (\<lambda>a. Inr (m, a))))"

section \<open>HashSet\<close>

type_synonym 'k hash_set = "('k, bool) hash_map"

definition HashSet_new :: "'k hash_set" where
  "HashSet_new = HashMap_new 47"

definition HashSet_new_capacity :: "u32 \<Rightarrow> 'k hash_set" where
  "HashSet_new_capacity capacity = HashMap_new capacity"

definition HashSet_contains :: "('k \<Rightarrow> u32) \<Rightarrow> 'k hash_set \<Rightarrow> 'k \<Rightarrow> bool outcome" where
  "HashSet_contains hash s element =
     andThen (HashMap_containsKey hash s element) (\<lambda>found.
     if \<not> found then Inr False
     else andThen (HashMap_get hash s element) (\<lambda>(s', v). Inr v))"

definition HashSet_add :: "('k \<Rightarrow> u32) \<Rightarrow> 'k hash_set \<Rightarrow> 'k \<Rightarrow> ('k hash_set \<times> bool) outcome" where
  "HashSet_add hash s element =
     andThen (HashSet_contains hash s element) (\<lambda>found.
     if found then Inr (s, False)
     else andThen (HashMap_put hash s element True) (\<lambda>s'. Inr (s', True)))"

primrec addAll_loop :: "('k \<Rightarrow> u32) \<Rightarrow> 'k hash_set \<Rightarrow> bool \<Rightarrow> 'k list \<Rightarrow> ('k hash_set \<times> bool) outcome" where
  "addAll_loop hash s modified [] = Inr (s, modified)"
| "addAll_loop hash s modified (x # xs) =
     andThen (HashSet_add hash s x) (\<lambda>(s', added). addAll_loop hash s' (added \<or> modified) xs)"

definition HashSet_addAll :: "('k \<Rightarrow> u32) \<Rightarrow> 'k hash_set \<Rightarrow> 'k list \<Rightarrow> ('k hash_set \<times> bool) outcome" where
  "HashSet_addAll hash s other = addAll_loop hash s False other"

definition HashSet_remove :: "('k \<Rightarrow> u32) \<Rightarrow> 'k hash_set \<Rightarrow> 'k \<Rightarrow> ('k hash_set \<times> bool) outcome" where
  "HashSet_remove hash s element =
     andThen (HashSet_contains hash s element) (\<lambda>found.
     if \<not> found then Inr (s, False)
     else andThen (HashMap_remove hash s element) (\<lambda>(s', v). Inr (s', True)))"

primrec removeAll_loop :: "('k \<Rightarrow> u32) \<Rightarrow> 'k hash_set \<Rightarrow> bool \<Rightarrow> 'k list \<Rightarrow> ('k hash_set \<times> bool) outcome" where
  "removeAll_loop hash s modified [] = Inr (s, modified)"
| "removeAll_loop hash s modified (x # xs) =
     andThen (HashSet_remove hash s x) (\<lambda>(s', removed). removeAll_loop hash s' (removed \<or> modified) xs)"

definition HashSet_removeAll :: "('k \<Rightarrow> u32) \<Rightarrow> 'k hash_set \<Rightarrow> 'k list \<Rightarrow> ('k hash_set \<times> bool) outcome" where
  "HashSet_removeAll hash s other = removeAll_loop hash s False other"

primrec HashSet_containsAll :: "('k \<Rightarrow> u32) \<Rightarrow> 'k hash_set \<Rightarrow> 'k list \<Rightarrow> bool outcome" where
  "HashSet_containsAll hash s [] = Inr True"
| "HashSet_containsAll hash s (x # xs) =
     andThen (HashSet_contains hash s x) (\<lambda>found. if \<not> found then Inr False else HashSet_containsAll hash s xs)"

definition HashSet_isEmpty :: "'k hash_set \<Rightarrow> bool" where
  "HashSet_isEmpty s \<longleftrightarrow> HashMap_size s = 0"

definition HashSet_clear :: "'k hash_set \<Rightarrow> 'k hash_set" where
  "HashSet_clear s = HashMap_clear s"

definition HashSet_size :: "'k hash_set \<Rightarrow> u32" where
  "HashSet_size s = HashMap_size s"

definition HashSet_toArray :: "'k \<Rightarrow> 'k hash_set \<Rightarrow> ('k hash_set \<times> 'k array) outcome" where
  "HashSet_toArray dflt s = HashMap_keySet dflt s"

section \<open>The map a state stands for\<close>

definition hm_abs :: "('k \<Rightarrow> u32) \<Rightarrow> ('k, 'v) hash_map \<Rightarrow> 'k \<rightharpoonup> 'v" where
  "hm_abs hash m k = (if hm_isInitialized m then map_of (hm_table m ! unat (slot hash m k)) k else None)"

definition hm_inv :: "('k \<Rightarrow> u32) \<Rightarrow> ('k, 'v) hash_map \<Rightarrow> bool" where
  "hm_inv hash m \<longleftrightarrow> 0 < hm_tableSize m
     \<and> (hm_isInitialized m \<longrightarrow> length (hm_table m) = unat (hm_tableSize m)
          \<and> (\<forall>i < length (hm_table m). distinct (map fst (hm_table m ! i))
                \<and> (\<forall>e \<in> set (hm_table m ! i). unat (slot hash m (fst e)) = i)))
     \<and> finite (dom (hm_abs hash m)) \<and> hm_count m = of_nat (card (dom (hm_abs hash m)))"

lemma slot_update [simp]:
  "slot hash (m\<lparr>hm_table := t\<rparr>) k = slot hash m k" "slot hash (m\<lparr>hm_count := c\<rparr>) k = slot hash m k"
  by (simp_all add: slot_def)

lemma bucket_put_map:
  "map_of (fst (bucket_put k v b)) = (map_of b)(k \<mapsto> v)"
  "snd (bucket_put k v b) \<longleftrightarrow> map_of b k = None"
  "fst ` set (fst (bucket_put k v b)) = insert k (fst ` set b)"
  "distinct (map fst b) \<Longrightarrow> distinct (map fst (fst (bucket_put k v b)))"
proof (induction k v b rule: bucket_put.induct)
  case (2 k v e b)
  case 1 then show ?case using 2 by (cases e) (auto simp: split_beta fun_eq_iff)
  case 2 then show ?case using "2.IH" by (cases e) (auto simp: split_beta)
  case 3 then show ?case using "2.IH" by (auto simp: split_beta)
  case 4 then show ?case using "2.IH" by (auto simp: split_beta)
qed auto

lemma bucket_get_map: "bucket_get k b = (case map_of b k of None \<Rightarrow> Inl (Thrown KEY_NOT_FOUND) | Some v \<Rightarrow> Inr v)"
  by (induction k b rule: bucket_get.induct) auto

lemma bucket_contains_map: "bucket_contains k b \<longleftrightarrow> map_of b k \<noteq> None"
  by (induction k b rule: bucket_contains.induct) auto

lemma bucket_remove_map:
  assumes "distinct (map fst b)"
  shows "case map_of b k of
      None \<Rightarrow> bucket_remove k b = Inl (Thrown KEY_NOT_FOUND)
    | Some v \<Rightarrow> (\<exists>b'. bucket_remove k b = Inr (b', v) \<and> map_of b' = (map_of b)(k := None)
                  \<and> set b' \<subseteq> set b \<and> distinct (map fst b'))"
  using assms
proof (induction b)
  case (Cons e b)
  show ?case
  proof (cases "fst e = k")
    case True
    then have "map_of b k = None" using Cons.prems by (auto simp: map_of_eq_None_iff)
    then have "map_of b = (map_of (e # b))(k := None)" using True by (auto simp: fun_eq_iff)
    then show ?thesis using True Cons.prems by (cases e) auto
  next
    case False
    then have m: "map_of (e # b) k = map_of b k" by (cases e) simp
    have IH: "case map_of b k of
        None \<Rightarrow> bucket_remove k b = Inl (Thrown KEY_NOT_FOUND)
      | Some v \<Rightarrow> (\<exists>b'. bucket_remove k b = Inr (b', v) \<and> map_of b' = (map_of b)(k := None)
                  \<and> set b' \<subseteq> set b \<and> distinct (map fst b'))"
      using Cons by simp
    show ?thesis
    proof (cases "map_of b k")
      case None
      then show ?thesis using IH False m by simp
    next
      case (Some v)
      then obtain b' where b': "bucket_remove k b = Inr (b', v)" "map_of b' = (map_of b)(k := None)"
        "set b' \<subseteq> set b" "distinct (map fst b')" using IH by auto
      then have "distinct (map fst (e # b'))" using Cons.prems by auto
      moreover have "map_of (e # b') = (map_of (e # b))(k := None)" using False b'(2) by (cases e) auto
      ultimately show ?thesis using Some False b' m by auto
    qed
  qed
qed simp

lemma ensure_init_abs [simp]:
  "hm_inv hash m \<Longrightarrow> hm_abs hash (ensure_init m) = hm_abs hash m"
  "hm_inv hash m \<Longrightarrow> hm_inv hash (ensure_init m)"
proof -
  assume I: "hm_inv hash m"
  show a: "hm_abs hash (ensure_init m) = hm_abs hash m"
  proof (cases "hm_isInitialized m")
    case False
    have "unat (hash k mod hm_tableSize m) < unat (hm_tableSize m)" for k
      using I by (simp add: hm_inv_def unat_mod word_less_nat_alt)
    then show ?thesis using False
      by (auto simp: fun_eq_iff hm_abs_def ensure_init_def HashMap_initialize_def slot_def)
  qed (simp add: ensure_init_def)
  then show "hm_inv hash (ensure_init m)"
    using I by (auto simp: hm_inv_def ensure_init_def HashMap_initialize_def)
qed

lemma ensure_init_init [simp]: "hm_isInitialized (ensure_init m)"
  by (simp add: ensure_init_def HashMap_initialize_def)

lemma slot_bound: "hm_inv hash m \<Longrightarrow> hm_isInitialized m \<Longrightarrow> unat (slot hash m k) < length (hm_table m)"
  by (simp add: hm_inv_def slot_def unat_mod word_less_nat_alt)

text \<open>Replacing the bucket of a key by one that differs from it in that key only.\<close>

lemma replace_bucket:
  assumes I: "hm_inv hash m" "hm_isInitialized m"
    and b: "map_of b = (map_of (hm_table m ! unat (slot hash m k)))(k := v)" "distinct (map fst b)"
      "\<And>e. e \<in> set b \<Longrightarrow> fst e = k \<or> e \<in> set (hm_table m ! unat (slot hash m k)) \<or> fst e \<in> fst ` set (hm_table m ! unat (slot hash m k))"
    and c: "c = of_nat (card (dom ((hm_abs hash m)(k := v))))"
  shows "hm_abs hash (m\<lparr>hm_table := (hm_table m)[unat (slot hash m k) := b], hm_count := c\<rparr>) = (hm_abs hash m)(k := v)"
    and "hm_inv hash (m\<lparr>hm_table := (hm_table m)[unat (slot hash m k) := b], hm_count := c\<rparr>)"
proof -
  let ?m = "m\<lparr>hm_table := (hm_table m)[unat (slot hash m k) := b], hm_count := c\<rparr>"
  have bd: "unat (slot hash m j) < length (hm_table m)" for j using I by (rule slot_bound)
  show abs: "hm_abs hash ?m = (hm_abs hash m)(k := v)"
  proof
    fix j
    show "hm_abs hash ?m j = ((hm_abs hash m)(k := v)) j"
    proof (cases "unat (slot hash m j) = unat (slot hash m k)")
      case True
      then show ?thesis using I(2) bd [of k] b(1) by (simp add: hm_abs_def)
    next
      case False
      then have "j \<noteq> k" by auto
      then show ?thesis using False I(2) by (simp add: hm_abs_def)
    qed
  qed
  have "distinct (map fst (hm_table ?m ! i)) \<and> (\<forall>e \<in> set (hm_table ?m ! i). unat (slot hash m (fst e)) = i)"
    if i: "i < length (hm_table m)" for i
  proof (cases "i = unat (slot hash m k)")
    case True
    have "unat (slot hash m (fst e)) = i" if "e \<in> set (hm_table m ! i)" for e using I that i by (auto simp: hm_inv_def)
    then show ?thesis using True i b(2,3) by fastforce
  next
    case False
    then show ?thesis using I i by (simp add: hm_inv_def)
  qed
  moreover have "finite (dom ((hm_abs hash m)(k := v)))"
    using I(1) by (auto simp: hm_inv_def intro: finite_subset [of _ "insert k (dom (hm_abs hash m))"])
  ultimately show "hm_inv hash ?m" using I c abs by (simp add: hm_inv_def)
qed

lemma HashMap_put_abs:
  assumes I: "hm_inv hash m"
  shows "\<exists>m'. HashMap_put hash m k v = Inr m' \<and> hm_inv hash m' \<and> hm_abs hash m' = (hm_abs hash m)(k \<mapsto> v)"
proof -
  let ?m = "ensure_init m" and ?i = "unat (slot hash (ensure_init m) k)"
  let ?b = "hm_table ?m ! ?i"
  let ?r = "bucket_put k v ?b"
  have I': "hm_inv hash ?m" "hm_isInitialized ?m" using I by simp_all
  have bd: "?i < length (hm_table ?m)" using I' by (rule slot_bound)
  let ?c = "if snd ?r then hm_count ?m + 1 else hm_count ?m"
  have abs: "hm_abs hash ?m k = map_of ?b k" by (simp add: hm_abs_def)
  have fin: "finite (dom (hm_abs hash ?m))" "hm_count ?m = of_nat (card (dom (hm_abs hash ?m)))"
    using I'(1) by (auto simp: hm_inv_def)
  have c: "?c = of_nat (card (dom ((hm_abs hash ?m)(k \<mapsto> v))))"
  proof (cases "map_of ?b k")
    case None
    then show ?thesis using abs fin by (simp add: bucket_put_map domIff card_insert_if)
  next
    case (Some w)
    then have "insert k (dom (hm_abs hash ?m)) = dom (hm_abs hash ?m)" using abs by (auto simp: dom_def)
    then show ?thesis using Some fin by (simp add: bucket_put_map)
  qed
  have di: "distinct (map fst ?b)" using I' bd by (simp add: hm_inv_def)
  have sub: "fst e = k \<or> e \<in> set ?b \<or> fst e \<in> fst ` set ?b" if "e \<in> set (fst ?r)" for e
    using that bucket_put_map(3) [of k v ?b] by (metis image_eqI insert_iff)
  let ?m' = "?m\<lparr>hm_table := (hm_table ?m)[?i := fst ?r], hm_count := ?c\<rparr>"
  have "HashMap_put hash m k v = Inr ?m'"
    using bd by (simp add: HashMap_put_def Let_def split_beta)
  moreover have "hm_abs hash ?m' = (hm_abs hash ?m)(k \<mapsto> v)"
    by (rule replace_bucket(1) [OF I' bucket_put_map(1,4) sub c]) (simp_all add: di)
  moreover have "hm_inv hash ?m'"
    by (rule replace_bucket(2) [OF I' bucket_put_map(1,4) sub c]) (simp_all add: di)
  ultimately show ?thesis using I by simp
qed

lemma HashMap_get_abs:
  assumes I: "hm_inv hash m"
  shows "case hm_abs hash m k of
      None \<Rightarrow> HashMap_get hash m k = Inl (Thrown KEY_NOT_FOUND)
    | Some v \<Rightarrow> HashMap_get hash m k = Inr (ensure_init m, v)"
proof -
  have bd: "unat (slot hash (ensure_init m) k) < length (hm_table (ensure_init m))"
    using I by (intro slot_bound) simp_all
  have "hm_abs hash m k = map_of (hm_table (ensure_init m) ! unat (slot hash (ensure_init m) k)) k"
    using ensure_init_abs(1) [OF I] by (metis ensure_init_init hm_abs_def)
  then show ?thesis
    using bd by (auto simp: HashMap_get_def bucket_get_map Let_def split: option.split)
qed

lemma HashMap_containsKey_abs:
  "hm_inv hash m \<Longrightarrow> HashMap_containsKey hash m k = Inr (hm_abs hash m k \<noteq> None)"
  using slot_bound [of hash m k]
  by (simp add: HashMap_containsKey_def bucket_contains_map hm_abs_def)

lemma HashMap_remove_abs:
  assumes I: "hm_inv hash m"
  shows "case hm_abs hash m k of
      None \<Rightarrow> HashMap_remove hash m k = Inl (Thrown KEY_NOT_FOUND)
    | Some v \<Rightarrow> (\<exists>m'. HashMap_remove hash m k = Inr (m', v) \<and> hm_inv hash m' \<and> hm_abs hash m' = (hm_abs hash m)(k := None))"
proof -
  let ?m = "ensure_init m" and ?i = "unat (slot hash (ensure_init m) k)"
  let ?b = "hm_table ?m ! ?i"
  have I': "hm_inv hash ?m" "hm_isInitialized ?m" using I by simp_all
  have bd: "?i < length (hm_table ?m)" using I' by (rule slot_bound)
  have abs: "hm_abs hash ?m k = map_of ?b k" by (simp add: hm_abs_def)
  then have abs': "hm_abs hash m k = map_of ?b k" using ensure_init_abs(1) [OF I] by simp
  have fin: "finite (dom (hm_abs hash ?m))" "hm_count ?m = of_nat (card (dom (hm_abs hash ?m)))"
    using I'(1) by (auto simp: hm_inv_def)
  have di: "distinct (map fst ?b)" using I' bd by (simp add: hm_inv_def)
  note B = bucket_remove_map [OF di, of k]
  show ?thesis
  proof (cases "map_of ?b k")
    case None
    then show ?thesis using B abs' bd by (simp add: HashMap_remove_def Let_def)
  next
    case (Some v)
    then obtain b' where b': "bucket_remove k ?b = Inr (b', v)" "map_of b' = (map_of ?b)(k := None)"
      "set b' \<subseteq> set ?b" "distinct (map fst b')" using B by auto
    have k: "k \<in> dom (hm_abs hash ?m)" using abs Some by auto
    then have "0 < card (dom (hm_abs hash ?m))" using fin(1) by (auto simp: card_gt_0_iff)
    then have c: "hm_count ?m - 1 = of_nat (card (dom ((hm_abs hash ?m)(k := None))))"
      using fin k by (simp add: card_Diff_singleton of_nat_diff Suc_leI)
    have sub: "fst e = k \<or> e \<in> set ?b \<or> fst e \<in> fst ` set ?b" if "e \<in> set b'" for e
      using that b'(3) by auto
    let ?m' = "?m\<lparr>hm_table := (hm_table ?m)[?i := b'], hm_count := hm_count ?m - 1\<rparr>"
    have "HashMap_remove hash m k = Inr (?m', v)" using bd b'(1) by (simp add: HashMap_remove_def Let_def)
    moreover have "hm_abs hash ?m' = (hm_abs hash ?m)(k := None)"
      by (rule replace_bucket(1) [OF I' b'(2,4) sub c])
    moreover have "hm_inv hash ?m'" by (rule replace_bucket(2) [OF I' b'(2,4) sub c])
    ultimately show ?thesis using I abs' Some by simp
  qed
qed

lemma hm_abs_new [simp]: "hm_abs hash (HashMap_new n) = Map.empty"
  by (simp add: HashMap_new_def hm_abs_def fun_eq_iff)

lemma hm_inv_new: "0 < n \<Longrightarrow> hm_inv hash (HashMap_new n)"
  by (simp add: hm_inv_def) (simp add: HashMap_new_def)

section \<open>The contract of a map\<close>

locale map_contract =
  fixes inv :: "'m \<Rightarrow> bool"
    and lookup :: "'m \<Rightarrow> 'k \<rightharpoonup> 'v"
    and put :: "'m \<Rightarrow> 'k \<Rightarrow> 'v \<Rightarrow> 'm outcome"
    and get :: "'m \<Rightarrow> 'k \<Rightarrow> ('m \<times> 'v) outcome"
    and remove :: "'m \<Rightarrow> 'k \<Rightarrow> ('m \<times> 'v) outcome"
    and containsKey :: "'m \<Rightarrow> 'k \<Rightarrow> bool outcome"
    and count :: "'m \<Rightarrow> u32"
  assumes put_lookup: "inv m \<Longrightarrow> \<exists>m'. put m k v = Inr m' \<and> inv m' \<and> lookup m' = (lookup m)(k \<mapsto> v)"
    and get_lookup: "inv m \<Longrightarrow> lookup m k = Some v
      \<Longrightarrow> \<exists>m'. get m k = Inr (m', v) \<and> inv m' \<and> lookup m' = lookup m"
    and get_missing: "inv m \<Longrightarrow> lookup m k = None \<Longrightarrow> get m k = Inl (Thrown KEY_NOT_FOUND)"
    and remove_lookup: "inv m \<Longrightarrow> lookup m k = Some v
      \<Longrightarrow> \<exists>m'. remove m k = Inr (m', v) \<and> inv m' \<and> lookup m' = (lookup m)(k := None)"
    and remove_missing: "inv m \<Longrightarrow> lookup m k = None \<Longrightarrow> remove m k = Inl (Thrown KEY_NOT_FOUND)"
    and contains_lookup: "inv m \<Longrightarrow> containsKey m k = Inr (lookup m k \<noteq> None)"
    and count_lookup: "inv m \<Longrightarrow> finite (dom (lookup m)) \<and> count m = of_nat (card (dom (lookup m)))"
begin

text \<open>A key that was put is found with its value, and every other key is found as before.\<close>

lemma put_get:
  assumes "inv m"
  shows "\<exists>m'. put m k v = Inr m' \<and> inv m' \<and> containsKey m' k = Inr True \<and> (\<exists>m''. get m' k = Inr (m'', v))
           \<and> (\<forall>j. j \<noteq> k \<longrightarrow> containsKey m' j = containsKey m j)"
proof -
  obtain m' where "put m k v = Inr m'" "inv m'" "lookup m' = (lookup m)(k \<mapsto> v)"
    using put_lookup [OF assms] by blast
  then show ?thesis using get_lookup [of m' k v] contains_lookup assms by auto
qed

text \<open>Removing a key after putting it gives the old map back.\<close>

lemma put_remove:
  assumes "inv m" "lookup m k = None"
  shows "\<exists>m' m''. put m k v = Inr m' \<and> remove m' k = Inr (m'', v) \<and> inv m'' \<and> lookup m'' = lookup m
           \<and> count m'' = count m"
proof -
  obtain m' where m': "put m k v = Inr m'" "inv m'" "lookup m' = (lookup m)(k \<mapsto> v)"
    using put_lookup [OF assms(1)] by blast
  moreover obtain m'' where m'': "remove m' k = Inr (m'', v)" "inv m''" "lookup m'' = (lookup m')(k := None)"
    using remove_lookup [of m' k v] m' by auto
  moreover have "lookup m'' = lookup m" using m' m'' assms(2) by (auto simp: fun_eq_iff)
  ultimately show ?thesis using count_lookup assms(1) by metis
qed

end

interpretation hmap: map_contract "hm_inv hash" "hm_abs hash" "HashMap_put hash" "HashMap_get hash"
    "HashMap_remove hash" "HashMap_containsKey hash" HashMap_size for hash
proof unfold_locales
  fix m :: "('a, 'b) hash_map" and k v
  assume I: "hm_inv hash m"
  show "\<exists>m'. HashMap_put hash m k v = Inr m' \<and> hm_inv hash m' \<and> hm_abs hash m' = (hm_abs hash m)(k \<mapsto> v)"
    using I by (rule HashMap_put_abs)
  show "\<exists>m'. HashMap_get hash m k = Inr (m', v) \<and> hm_inv hash m' \<and> hm_abs hash m' = hm_abs hash m"
    if "hm_abs hash m k = Some v" using HashMap_get_abs [OF I, of k] that I by simp
  show "HashMap_get hash m k = Inl (Thrown KEY_NOT_FOUND)" if "hm_abs hash m k = None"
    using HashMap_get_abs [OF I, of k] that by simp
  show "\<exists>m'. HashMap_remove hash m k = Inr (m', v) \<and> hm_inv hash m' \<and> hm_abs hash m' = (hm_abs hash m)(k := None)"
    if "hm_abs hash m k = Some v" using HashMap_remove_abs [OF I, of k] that by simp
  show "HashMap_remove hash m k = Inl (Thrown KEY_NOT_FOUND)" if "hm_abs hash m k = None"
    using HashMap_remove_abs [OF I, of k] that by simp
  show "HashMap_containsKey hash m k = Inr (hm_abs hash m k \<noteq> None)" using I by (rule HashMap_containsKey_abs)
  show "finite (dom (hm_abs hash m)) \<and> HashMap_size m = of_nat (card (dom (hm_abs hash m)))"
    using I by (simp add: hm_inv_def HashMap_size_def)
qed

section \<open>The hash set on top of the map\<close>

definition hs_inv :: "('k \<Rightarrow> u32) \<Rightarrow> 'k hash_set \<Rightarrow> bool" where
  "hs_inv hash s \<longleftrightarrow> hm_inv hash s \<and> (\<forall>k. hm_abs hash s k \<noteq> Some False)"

definition hs_set :: "('k \<Rightarrow> u32) \<Rightarrow> 'k hash_set \<Rightarrow> 'k set" where
  "hs_set hash s = dom (hm_abs hash s)"

lemma HashSet_contains_set: "hs_inv hash s \<Longrightarrow> HashSet_contains hash s x = Inr (x \<in> hs_set hash s)"
  using hmap.contains_lookup [of hash s x] hmap.get_lookup [of hash s x True]
  by (cases "hm_abs hash s x"; cases "the (hm_abs hash s x)")
    (auto simp: hs_inv_def hs_set_def HashSet_contains_def)

lemma HashSet_add_set:
  assumes "hs_inv hash s"
  shows "\<exists>s'. HashSet_add hash s x = Inr (s', x \<notin> hs_set hash s) \<and> hs_inv hash s' \<and> hs_set hash s' = insert x (hs_set hash s)"
proof (cases "x \<in> hs_set hash s")
  case True
  then show ?thesis using assms by (auto simp: HashSet_add_def HashSet_contains_set)
next
  case False
  obtain s' where "HashMap_put hash s x True = Inr s'" "hm_inv hash s'" "hm_abs hash s' = (hm_abs hash s)(x \<mapsto> True)"
    using hmap.put_lookup [of hash s x True] assms by (auto simp: hs_inv_def)
  then show ?thesis
    using False assms by (auto simp: HashSet_add_def HashSet_contains_set hs_inv_def hs_set_def)
qed

lemma HashSet_remove_set:
  assumes "hs_inv hash s"
  shows "\<exists>s'. HashSet_remove hash s x = Inr (s', x \<in> hs_set hash s) \<and> hs_inv hash s' \<and> hs_set hash s' = hs_set hash s - {x}"
proof (cases "x \<in> hs_set hash s")
  case False
  then show ?thesis using assms by (auto simp: HashSet_remove_def HashSet_contains_set)
next
  case True
  then obtain v where "hm_abs hash s x = Some v" by (auto simp: hs_set_def)
  then obtain s' where "HashMap_remove hash s x = Inr (s', v)" "hm_inv hash s'" "hm_abs hash s' = (hm_abs hash s)(x := None)"
    using hmap.remove_lookup [of hash s x v] assms by (auto simp: hs_inv_def)
  then show ?thesis
    using True assms by (auto simp: HashSet_remove_def HashSet_contains_set hs_inv_def hs_set_def)
qed

lemma HashSet_addAll_set:
  assumes "hs_inv hash s"
  shows "\<exists>s'. addAll_loop hash s b xs = Inr (s', b \<or> \<not> set xs \<subseteq> hs_set hash s)
           \<and> hs_inv hash s' \<and> hs_set hash s' = hs_set hash s \<union> set xs"
  using assms
proof (induction xs arbitrary: s b)
  case (Cons x xs)
  obtain s1 where s1: "HashSet_add hash s x = Inr (s1, x \<notin> hs_set hash s)" "hs_inv hash s1"
    "hs_set hash s1 = insert x (hs_set hash s)" using HashSet_add_set [OF Cons.prems] by blast
  obtain s2 where s2: "addAll_loop hash s1 (x \<notin> hs_set hash s \<or> b) xs
      = Inr (s2, (x \<notin> hs_set hash s \<or> b) \<or> \<not> set xs \<subseteq> hs_set hash s1)"
    "hs_inv hash s2" "hs_set hash s2 = hs_set hash s1 \<union> set xs" using Cons.IH [OF s1(2)] by blast
  have "((x \<notin> hs_set hash s \<or> b) \<or> \<not> set xs \<subseteq> hs_set hash s1) \<longleftrightarrow> (b \<or> \<not> set (x # xs) \<subseteq> hs_set hash s)"
    using s1(3) by (cases "x \<in> hs_set hash s") (auto simp: insert_absorb)
  then show ?case using s1 s2 by auto
qed simp

section \<open>The keys of the map\<close>

lemma distinct_concat_nth:
  assumes "\<And>i. i < length xss \<Longrightarrow> distinct (xss ! i)"
    and "\<And>i j. i < j \<Longrightarrow> j < length xss \<Longrightarrow> set (xss ! i) \<inter> set (xss ! j) = {}"
  shows "distinct (concat xss)"
  using assms
proof (induction xss)
  case (Cons xs xss)
  have "distinct xs" using Cons.prems(1) [of 0] by simp
  moreover have "distinct (concat xss)"
    by (rule Cons.IH) (use Cons.prems(1) [of "Suc i" for i] Cons.prems(2) [of "Suc i" "Suc j" for i j] in auto)
  moreover have "set xs \<inter> set (concat xss) = {}"
  proof -
    have "set xs \<inter> set ys = {}" if "ys \<in> set xss" for ys
      using that Cons.prems(2) [of 0 "Suc j" for j] by (auto simp: in_set_conv_nth [of _ xss])
    then show ?thesis by auto
  qed
  ultimately show ?case by simp
qed simp

lemma hm_keys:
  assumes "hm_inv hash m" "hm_isInitialized m"
  shows "distinct (concat (map (map fst) (hm_table m)))"
    and "set (concat (map (map fst) (hm_table m))) = dom (hm_abs hash m)"
proof -
  have len: "length (hm_table m) = unat (hm_tableSize m)"
    and d: "\<And>i. i < length (hm_table m) \<Longrightarrow> distinct (map fst (hm_table m ! i))"
    and sl: "\<And>i e. i < length (hm_table m) \<Longrightarrow> e \<in> set (hm_table m ! i) \<Longrightarrow> unat (slot hash m (fst e)) = i"
    using assms by (auto simp: hm_inv_def)
  show "distinct (concat (map (map fst) (hm_table m)))"
  proof (rule distinct_concat_nth)
    fix i j assume "i < j" "j < length (map (map fst) (hm_table m))"
    then show "set (map (map fst) (hm_table m) ! i) \<inter> set (map (map fst) (hm_table m) ! j) = {}"
      using sl [of i] sl [of j] by fastforce
  qed (use d in simp)
  have "k \<in> set (concat (map (map fst) (hm_table m))) \<longleftrightarrow> k \<in> dom (hm_abs hash m)" for k
  proof
    assume "k \<in> set (concat (map (map fst) (hm_table m)))"
    then obtain b where "b \<in> set (hm_table m)" "k \<in> fst ` set b" by auto
    then obtain i where "i < length (hm_table m)" "k \<in> fst ` set (hm_table m ! i)" by (metis in_set_conv_nth)
    then have "k \<in> fst ` set (hm_table m ! unat (slot hash m k))" using sl [of i] by auto
    then show "k \<in> dom (hm_abs hash m)" using assms(2) by (simp add: hm_abs_def domIff map_of_eq_None_iff)
  next
    assume "k \<in> dom (hm_abs hash m)"
    then have "k \<in> fst ` set (hm_table m ! unat (slot hash m k))"
      using assms(2) by (simp add: hm_abs_def domIff map_of_eq_None_iff)
    moreover have "unat (slot hash m k) < length (hm_table m)"
      by (rule slot_bound [OF assms])
    ultimately show "k \<in> set (concat (map (map fst) (hm_table m)))" by force
  qed
  then show "set (concat (map (map fst) (hm_table m))) = dom (hm_abs hash m)" by blast
qed

lemma key_loop_abs:
  assumes "al_wf l" "unat i + n = length table" "length table < 2 ^ 32"
    and "length (al_abs l) + length (concat (drop (unat i) table)) \<le> 2147483648"
  shows "\<exists>l'. key_loop dflt n i table l = Inr l' \<and> al_wf l'
           \<and> al_abs l' = al_abs l @ concat (map (map fst) (drop (unat i) table))"
  using assms
proof (induction n arbitrary: i l)
  case (Suc n)
  have i: "unat i < length table" "unat (i + 1) = unat i + 1"
    using Suc.prems(2,3) by (auto simp: unat_word_ariths)
  have dr: "drop (unat i) table = table ! unat i # drop (unat (i + 1)) table"
    using i by (simp add: Cons_nth_drop_Suc)
  obtain l1 where l1: "ArrayList_addAll dflt l (map fst (table ! unat i)) = Inr l1" "al_wf l1"
    "al_abs l1 = al_abs l @ map fst (table ! unat i)"
    using ArrayList_addAll_abs [OF Suc.prems(1), of "map fst (table ! unat i)" dflt] Suc.prems(4) dr by auto
  obtain l2 where "key_loop dflt n (i + 1) table l1 = Inr l2" "al_wf l2"
    "al_abs l2 = al_abs l1 @ concat (map (map fst) (drop (unat (i + 1)) table))"
    using Suc.IH [OF l1(2), of "i + 1"] Suc.prems(2-4) i(2) dr l1(3) by auto
  then show ?case using l1 i dr by auto
qed simp

lemma HashMap_keySet_abs:
  assumes "hm_inv hash m" "card (dom (hm_abs hash m)) \<le> 2147483648"
  shows "\<exists>m' a. HashMap_keySet dflt m = Inr (m', a) \<and> hm_inv hash m' \<and> hm_abs hash m' = hm_abs hash m
           \<and> distinct (arr_array a) \<and> set (arr_array a) = dom (hm_abs hash m)"
proof -
  let ?m = "ensure_init m" let ?ks = "concat (map (map fst) (hm_table ?m))"
  have I: "hm_inv hash ?m" "hm_abs hash ?m = hm_abs hash m" using ensure_init_abs [OF assms(1)] by auto
  have t: "hm_isInitialized ?m" by simp
  note K = hm_keys [OF I(1) t]
  have "length (concat (hm_table ?m)) = length ?ks" by (simp add: length_concat comp_def)
  also have "\<dots> = card (dom (hm_abs hash m))" using K I(2) by (metis distinct_card)
  finally have "length (concat (hm_table ?m)) \<le> 2147483648" using assms(2) by simp
  then obtain l where l: "key_loop dflt (unat (hm_tableSize ?m)) 0 (hm_table ?m) ArrayList_empty = Inr l"
    "al_wf l" "al_abs l = ?ks"
    using key_loop_abs [of ArrayList_empty 0 "unat (hm_tableSize ?m)" "hm_table ?m" dflt] I(1) t
    by (auto simp: hm_inv_def)
  obtain a where a: "ArrayList_toArray dflt l = Inr a" "arr_array a = al_abs l" using toArray_abs [OF l(2)] by blast
  then have "HashMap_keySet dflt m = Inr (?m, a)" using l by (simp add: HashMap_keySet_def Let_def)
  then show ?thesis using I K a l(3) by auto
qed

section \<open>The initializer list constructor\<close>

lemma put_count_shift:
  "HashMap_put hash (m\<lparr>hm_count := hm_count m + c\<rparr>) k v
    = andThen (HashMap_put hash m k v) (\<lambda>m'. Inr (m'\<lparr>hm_count := hm_count m' + c\<rparr>))"
  by (auto simp: HashMap_put_def Let_def ensure_init_def HashMap_initialize_def slot_def readAt_def writeAt_def split_beta)

lemma put_all_count_shift:
  "put_all hash (m\<lparr>hm_count := hm_count m + c\<rparr>) ps
    = andThen (put_all hash m ps) (\<lambda>m'. Inr (m'\<lparr>hm_count := hm_count m' + c\<rparr>))"
  by (induction ps arbitrary: m) (simp_all add: put_count_shift andThen_def split: sum.splits)

lemma put_all_abs:
  assumes "hm_inv hash m"
  shows "\<exists>m'. put_all hash m ps = Inr m' \<and> hm_inv hash m' \<and> hm_abs hash m' = hm_abs hash m ++ map_of (rev ps)"
  using assms
proof (induction ps arbitrary: m)
  case (Cons p ps)
  obtain m1 where "HashMap_put hash m (fst p) (snd p) = Inr m1" "hm_inv hash m1"
    "hm_abs hash m1 = (hm_abs hash m)(fst p \<mapsto> snd p)" using hmap.put_lookup [OF Cons.prems] by blast
  moreover have "(hm_abs hash m)(fst p \<mapsto> snd p) ++ map_of (rev ps) = hm_abs hash m ++ map_of (rev (p # ps))"
    by (cases p) (rule ext, simp add: map_add_def split: option.split)
  ultimately show ?case using Cons.IH [of m1] by (metis andThen_simps(2) put_all.simps(2))
qed simp

text \<open>The constructor from an initializer list starts to count at the length of the list and \<open>put\<close>
  counts every new key again: the size it reports is wrong.\<close>

lemma HashMap_of_list_counts_twice:
  "\<exists>m. HashMap_of_list hash ps = Inr m \<and> hm_abs hash m = map_of (rev ps)
     \<and> HashMap_size m = of_nat (length ps) + of_nat (card (fst ` set ps))"
proof -
  obtain m where m: "put_all hash HashMap_default ps = Inr m" "hm_inv hash m"
    "hm_abs hash m = hm_abs hash HashMap_default ++ map_of (rev ps)"
    using put_all_abs [of hash HashMap_default ps] hm_inv_new [of 47 hash] by (auto simp: HashMap_default_def)
  let ?m = "m\<lparr>hm_count := hm_count m + of_nat (length ps)\<rparr>"
  have "HashMap_of_list hash ps = Inr ?m"
    using put_all_count_shift [of hash HashMap_default "of_nat (length ps)" ps] m(1)
    by (simp add: HashMap_of_list_def HashMap_default_def HashMap_new_def)
  moreover have "hm_abs hash ?m = hm_abs hash m" by (rule ext) (simp add: hm_abs_def)
  then have "hm_abs hash ?m = map_of (rev ps)" using m(3) by (simp add: HashMap_default_def)
  moreover have "hm_count m = of_nat (card (fst ` set ps))"
    using m(2,3) by (simp add: hm_inv_def HashMap_default_def dom_map_of_conv_image_fst)
  ultimately show ?thesis by (auto simp: HashMap_size_def add.commute)
qed

section \<open>Properties\<close>

text \<open>C11. \<open>HashMap\<close> implements a finite map, whatever the hash function and the number of buckets.
  From every state that satisfies the invariant \<open>put\<close> returns and updates the entry of the key
  and no other, \<open>get\<close> returns the value of the key or raises \<open>KEY_NOT_FOUND\<close>, \<open>remove\<close>
  takes exactly the entry of the key out, \<open>containsKey\<close> decides membership, and the counter
  is the number of entries. Each operation keeps the invariant.\<close>

theorem HashMap_refines_map:
  assumes "hm_inv hash m"
  shows "(\<exists>m'. HashMap_put hash m k v = Inr m' \<and> hm_inv hash m' \<and> hm_abs hash m' = (hm_abs hash m)(k \<mapsto> v))
    \<and> (case hm_abs hash m k of
         None \<Rightarrow> HashMap_get hash m k = Inl (Thrown KEY_NOT_FOUND)
               \<and> HashMap_remove hash m k = Inl (Thrown KEY_NOT_FOUND)
       | Some w \<Rightarrow> (\<exists>m'. HashMap_get hash m k = Inr (m', w) \<and> hm_inv hash m' \<and> hm_abs hash m' = hm_abs hash m)
               \<and> (\<exists>m'. HashMap_remove hash m k = Inr (m', w) \<and> hm_inv hash m'
                      \<and> hm_abs hash m' = (hm_abs hash m)(k := None)))
    \<and> HashMap_containsKey hash m k = Inr (k \<in> dom (hm_abs hash m))
    \<and> HashMap_size m = of_nat (card (dom (hm_abs hash m)))"
  using hmap.put_lookup [OF assms] hmap.get_lookup [OF assms] hmap.get_missing [OF assms]
    hmap.remove_lookup [OF assms] hmap.remove_missing [OF assms] hmap.contains_lookup [OF assms]
    hmap.count_lookup [OF assms]
  by (auto simp: domIff split: option.split)

theorem HashMap_refines_map_witness:
  "\<exists>m'. HashMap_put (\<lambda>k. k) (HashMap_default :: (u32, bool) hash_map) 48 True = Inr m'
     \<and> hm_inv (\<lambda>k. k) m' \<and> hm_abs (\<lambda>k. k) m' = (hm_abs (\<lambda>k. k) (HashMap_default :: (u32, bool) hash_map))(48 \<mapsto> True)"
  using HashMap_refines_map [of "\<lambda>k. k" "HashMap_default :: (u32, bool) hash_map" 48 True]
    hm_inv_new [of 47 "\<lambda>k. k"] by (auto simp: HashMap_default_def)

text \<open>C31. \<open>keySet\<close> returns every key of the map exactly once, for a map of at most 2^31 entries.\<close>

theorem HashMap_keySet_correct:
  assumes "hm_inv hash m" "card (dom (hm_abs hash m)) \<le> 2147483648"
  shows "\<exists>m' a. HashMap_keySet dflt m = Inr (m', a) \<and> hm_inv hash m' \<and> hm_abs hash m' = hm_abs hash m
           \<and> distinct (arr_array a) \<and> set (arr_array a) = dom (hm_abs hash m)"
  using assms by (rule HashMap_keySet_abs)

theorem HashMap_keySet_correct_witness:
  "\<exists>m m' a. HashMap_put (\<lambda>k. k) (HashMap_new 3 :: (u32, bool) hash_map) 5 True = Inr m
     \<and> HashMap_keySet 0 m = Inr (m', a) \<and> distinct (arr_array a) \<and> set (arr_array a) = {5}"
proof -
  have "hm_inv (\<lambda>k. k) (HashMap_new 3 :: (u32, bool) hash_map)" by (simp add: hm_inv_new)
  from HashMap_put_abs [OF this, of 5 True] obtain m where m: "HashMap_put (\<lambda>k. k) (HashMap_new 3) 5 True = Inr m"
      "hm_inv (\<lambda>k. k) m" "hm_abs (\<lambda>k. k) m = [5 \<mapsto> True]" by auto
  then show ?thesis using HashMap_keySet_correct [OF m(2), of 0] by auto
qed

text \<open>C30. \<open>HashSet\<close> implements a finite set on top of the map: \<open>contains\<close> decides membership,
  \<open>add\<close>, \<open>addAll\<close> and \<open>remove\<close> compute insertion, union and deletion, and their results say
  whether the set changed.\<close>

theorem HashSet_refines_set:
  assumes "hs_inv hash s"
  shows "HashSet_contains hash s x = Inr (x \<in> hs_set hash s)
    \<and> (\<exists>s'. HashSet_add hash s x = Inr (s', x \<notin> hs_set hash s) \<and> hs_inv hash s'
          \<and> hs_set hash s' = insert x (hs_set hash s))
    \<and> (\<exists>s'. HashSet_addAll hash s xs = Inr (s', \<not> set xs \<subseteq> hs_set hash s) \<and> hs_inv hash s'
          \<and> hs_set hash s' = hs_set hash s \<union> set xs)
    \<and> (\<exists>s'. HashSet_remove hash s x = Inr (s', x \<in> hs_set hash s) \<and> hs_inv hash s'
          \<and> hs_set hash s' = hs_set hash s - {x})"
  using HashSet_contains_set [OF assms] HashSet_add_set [OF assms] HashSet_remove_set [OF assms]
    HashSet_addAll_set [OF assms, of False xs] by (simp add: HashSet_addAll_def)

theorem HashSet_refines_set_witness:
  "\<exists>s'. HashSet_add (\<lambda>k. k) (HashSet_new :: u32 hash_set) 5 = Inr (s', True) \<and> hs_set (\<lambda>k. k) s' = {5}"
  using HashSet_refines_set [of "\<lambda>k. k" "HashSet_new :: u32 hash_set" 5 "[]"]
  by (auto simp: HashSet_new_def hs_inv_def hs_set_def hm_inv_new)

end
