(* ===== verification/Spinlocks.thy ===== *)
theory Spinlocks
  imports Prelude
begin

text \<open>
  \<open>lib/async/Atomic\<close> and \<open>lib/async/Spinlock\<close>. An operation of \<open>Atomic\<close> is a function
  from the content of the cell to the new content and the result. The processor executes each
  locked instruction as one step; \<open>getAndSet\<close> however reads the cell to build the arguments of
  \<open>compareAndExchange\<close>, so it takes two steps and another thread may run between them. The threads
  that share a lock are modelled with the two steps interleaved. Elsewhere in the development a lock is
  taken by one thread without interruption.
\<close>

section \<open>Atomic\<close>

definition Atomic_exchange :: "'a::len word \<Rightarrow> 'a word \<Rightarrow> 'a word" where
  "Atomic_exchange cell newValue = newValue"

definition Atomic_xadd :: "'a::len word \<Rightarrow> 'a word \<Rightarrow> 'a word \<times> 'a word" where
  "Atomic_xadd cell addend = (cell + addend, cell)"

definition Atomic_compareAndExchange :: "'a::len word \<Rightarrow> 'a word \<Rightarrow> 'a word \<Rightarrow> 'a word \<times> 'a word" where
  "Atomic_compareAndExchange cell oldValue newValue =
     (if cell = oldValue then (newValue, oldValue) else (cell, cell))"

definition Atomic_getAndSet :: "'a::len word \<Rightarrow> 'a word \<Rightarrow> 'a word \<times> 'a word" where
  "Atomic_getAndSet cell newValue = Atomic_compareAndExchange cell cell newValue"

definition Atomic_get :: "'a::len word \<Rightarrow> 'a word" where
  "Atomic_get cell = cell"

definition Atomic_set :: "'a::len word \<Rightarrow> 'a word \<Rightarrow> 'a word" where
  "Atomic_set cell newValue = Atomic_exchange cell newValue"

definition Atomic_fetchAndAdd :: "'a::len word \<Rightarrow> 'a word \<Rightarrow> 'a word \<times> 'a word" where
  "Atomic_fetchAndAdd cell addend = Atomic_xadd cell addend"

definition Atomic_fetchAndSub :: "'a::len word \<Rightarrow> 'a word \<Rightarrow> 'a word \<times> 'a word" where
  "Atomic_fetchAndSub cell subtrahend = Atomic_xadd cell (subtrahend * (- 1))"

definition Atomic_fetchAndInc :: "'a::len word \<Rightarrow> 'a word \<times> 'a word" where
  "Atomic_fetchAndInc cell = Atomic_xadd cell 1"

definition Atomic_fetchAndDec :: "'a::len word \<Rightarrow> 'a word \<times> 'a word" where
  "Atomic_fetchAndDec cell = Atomic_xadd cell (- 1)"

lemma fetch_inverse:
  "fst (Atomic_fetchAndSub (fst (Atomic_fetchAndAdd c a)) a) = c"
  "fst (Atomic_fetchAndDec (fst (Atomic_fetchAndInc c))) = c"
  by (simp_all add: Atomic_fetchAndSub_def Atomic_fetchAndAdd_def Atomic_fetchAndDec_def
      Atomic_fetchAndInc_def Atomic_xadd_def)

section \<open>Spinlock\<close>

abbreviation SPINLOCK_UNLOCK :: u8 where "SPINLOCK_UNLOCK \<equiv> 0x00"
abbreviation SPINLOCK_LOCK :: u8 where "SPINLOCK_LOCK \<equiv> 0x01"

definition Spinlock_new :: u8 where
  "Spinlock_new = SPINLOCK_UNLOCK"

text \<open>One iteration of the loop of \<open>acquire\<close>, which is also \<open>tryAcquire\<close>, without interruption.\<close>

definition Spinlock_tryAcquire :: "u8 \<Rightarrow> u8 \<times> bool" where
  "Spinlock_tryAcquire lockVar =
     (let (lockVar', old) = Atomic_getAndSet lockVar SPINLOCK_LOCK in (lockVar', old = SPINLOCK_UNLOCK))"

text \<open>A thread that runs alone gets the lock in the first iteration or never.\<close>

definition Spinlock_acquire :: "u8 \<Rightarrow> u8 outcome" where
  "Spinlock_acquire lockVar =
     (let (lockVar', success) = Spinlock_tryAcquire lockVar in if success then Inr lockVar' else Inl Spins)"

definition Spinlock_release :: "u8 \<Rightarrow> u8" where
  "Spinlock_release lockVar = Atomic_set lockVar SPINLOCK_UNLOCK"

definition Spinlock_isLocked :: "u8 \<Rightarrow> bool" where
  "Spinlock_isLocked lockVar \<longleftrightarrow> Atomic_get lockVar = SPINLOCK_LOCK"

lemmas atomic_defs = Atomic_exchange_def Atomic_compareAndExchange_def Atomic_getAndSet_def
  Atomic_get_def Atomic_set_def Spinlock_new_def Spinlock_tryAcquire_def Spinlock_acquire_def
  Spinlock_release_def Spinlock_isLocked_def

text \<open>Without interruption a failed iteration leaves the lock as it was, so the loop of \<open>acquire\<close> cannot end.\<close>

lemma tryAcquire_fails: "snd (Spinlock_tryAcquire v) = False \<Longrightarrow> v \<noteq> SPINLOCK_UNLOCK"
  by (simp add: atomic_defs)

lemma acquire_release: "Spinlock_acquire Spinlock_new = Inr SPINLOCK_LOCK"
  "Spinlock_isLocked SPINLOCK_LOCK" "Spinlock_release SPINLOCK_LOCK = Spinlock_new"
  by (simp_all add: atomic_defs)

section \<open>Threads that share a lock\<close>

text \<open>
  A thread is outside the critical section, has read the lock variable inside \<open>getAndSet\<close>, or is
  inside the critical section.
\<close>

datatype phase = Outside | Loaded u8 | Inside

record spin_state =
  lockVar :: u8
  phases :: "nat \<Rightarrow> phase"

definition spin_start :: spin_state where
  "spin_start = \<lparr>lockVar = Spinlock_new, phases = (\<lambda>t. Outside)\<rparr>"

definition enter :: "spin_state \<Rightarrow> nat \<Rightarrow> u8 \<times> u8 \<Rightarrow> spin_state" where
  "enter s t r =
     s\<lparr>lockVar := fst r, phases := (phases s)(t := if snd r = SPINLOCK_UNLOCK then Inside else Outside)\<rparr>"

definition leave :: "spin_state \<Rightarrow> nat \<Rightarrow> spin_state" where
  "leave s t = s\<lparr>lockVar := Spinlock_release (lockVar s), phases := (phases s)(t := Outside)\<rparr>"

text \<open>The code: the read of \<open>value\<close> and the \<open>lock cmpxchg\<close> of \<open>getAndSet\<close> are separate steps.\<close>

inductive lock_step :: "spin_state \<Rightarrow> spin_state \<Rightarrow> bool" where
  load: "phases s t = Outside \<Longrightarrow> lock_step s (s\<lparr>phases := (phases s)(t := Loaded (Atomic_get (lockVar s)))\<rparr>)"
| cmpxchg: "phases s t = Loaded old
    \<Longrightarrow> lock_step s (enter s t (Atomic_compareAndExchange (lockVar s) old SPINLOCK_LOCK))"
| unlock: "phases s t = Inside \<Longrightarrow> lock_step s (leave s t)"

inductive_cases lock_stepE: "lock_step s s'"

abbreviation lock_reach :: "spin_state \<Rightarrow> bool" where
  "lock_reach s \<equiv> lock_step\<^sup>*\<^sup>* spin_start s"

text \<open>A thread is late if it has read that the lock is taken and the lock has become free since: its comparison
  will fail and return \<open>SPINLOCK_UNLOCK\<close>. \<open>timely_step\<close> are the steps of the code that no late thread takes.\<close>

definition late :: "spin_state \<Rightarrow> nat \<Rightarrow> bool" where
  "late s t \<longleftrightarrow> phases s t = Loaded SPINLOCK_LOCK \<and> lockVar s = SPINLOCK_UNLOCK"

definition timely_step :: "spin_state \<Rightarrow> spin_state \<Rightarrow> bool" where
  "timely_step s s' \<longleftrightarrow> lock_step s s' \<and> (\<forall>t. late s t \<longrightarrow> phases s' t = phases s t)"

abbreviation timely_reach :: "spin_state \<Rightarrow> bool" where
  "timely_reach s \<equiv> timely_step\<^sup>*\<^sup>* spin_start s"

text \<open>The invariant of the lock: it is taken exactly while one thread is inside, and every thread that has read
  the variable has read one of its two values.\<close>

definition lock_inv :: "spin_state \<Rightarrow> bool" where
  "lock_inv s \<longleftrightarrow> (\<forall>t v. phases s t = Loaded v \<longrightarrow> v = SPINLOCK_UNLOCK \<or> v = SPINLOCK_LOCK)
     \<and> (\<forall>i j. phases s i = Inside \<and> phases s j = Inside \<longrightarrow> i = j)
     \<and> (lockVar s = SPINLOCK_UNLOCK \<and> (\<forall>t. phases s t \<noteq> Inside)
        \<or> lockVar s = SPINLOCK_LOCK \<and> (\<exists>t. phases s t = Inside))"

lemma inside_upd: "f t \<noteq> Inside \<Longrightarrow> x \<noteq> Inside \<Longrightarrow> (f(t := x)) u = Inside \<longleftrightarrow> f u = Inside"
  by simp

lemma lock_inv_stays:
  assumes "lock_inv s" "phases s t \<noteq> Inside" "x \<noteq> Inside" "\<And>v. x = Loaded v \<Longrightarrow> v = SPINLOCK_UNLOCK \<or> v = SPINLOCK_LOCK"
  shows "lock_inv (s\<lparr>phases := (phases s)(t := x)\<rparr>)"
  using assms unfolding lock_inv_def by (simp add: inside_upd del: fun_upd_apply) simp

lemma lock_inv_load:
  "lock_inv s \<Longrightarrow> phases s t = Outside \<Longrightarrow> lock_inv (s\<lparr>phases := (phases s)(t := Loaded (Atomic_get (lockVar s)))\<rparr>)"
  by (rule lock_inv_stays) (auto simp: lock_inv_def atomic_defs)

lemma lock_inv_cmpxchg:
  assumes "lock_inv s" "phases s t = Loaded old" "\<not> late s t"
  shows "lock_inv (enter s t (Atomic_compareAndExchange (lockVar s) old SPINLOCK_LOCK))"
proof -
  have "old = SPINLOCK_UNLOCK \<or> old = SPINLOCK_LOCK" using assms(1,2) unfolding lock_inv_def by blast
  then show ?thesis
  proof (cases "lockVar s = SPINLOCK_UNLOCK")
    case True
    then have "old = SPINLOCK_UNLOCK" using assms(2,3) \<open>old = _ \<or> _\<close> by (auto simp: late_def)
    then show ?thesis using True assms(1) by (auto simp: lock_inv_def enter_def atomic_defs)
  next
    case False
    then have "enter s t (Atomic_compareAndExchange (lockVar s) old SPINLOCK_LOCK) = s\<lparr>phases := (phases s)(t := Outside)\<rparr>"
      using assms(1) by (auto simp: lock_inv_def enter_def atomic_defs)
    then show ?thesis using lock_inv_stays [OF assms(1), of t Outside] assms(2) by simp
  qed
qed

lemma lock_inv_unlock: "lock_inv s \<Longrightarrow> phases s t = Inside \<Longrightarrow> lock_inv (leave s t)"
  by (auto simp: lock_inv_def leave_def atomic_defs)

text \<open>The exchange of a late thread lets it inside and leaves the lock free.\<close>

lemma late_enters:
  assumes "late s t"
  shows "lock_step s (s\<lparr>lockVar := SPINLOCK_UNLOCK, phases := (phases s)(t := Inside)\<rparr>)"
  using lock_step.cmpxchg [of s t SPINLOCK_LOCK] assms by (simp add: late_def enter_def atomic_defs)

lemma lock_inv_step:
  assumes "timely_step s s'" "lock_inv s"
  shows "lock_inv s'"
proof -
  have "lock_step s s'" using assms(1) by (simp add: timely_step_def)
  then show ?thesis
  proof cases
    case (load t)
    then show ?thesis using lock_inv_load [OF assms(2)] by simp
  next
    case (cmpxchg t old)
    then have "phases s' t \<noteq> phases s t" by (simp add: enter_def)
    then have "\<not> late s t" using assms(1) unfolding timely_step_def by blast
    then show ?thesis using lock_inv_cmpxchg [OF assms(2)] cmpxchg by simp
  next
    case (unlock t)
    then show ?thesis using lock_inv_unlock [OF assms(2)] by simp
  qed
qed

lemma lock_inv_reach: "timely_reach s \<Longrightarrow> lock_inv s"
proof (induction rule: rtranclp_induct)
  case base
  show ?case by (simp add: lock_inv_def spin_start_def atomic_defs)
qed (rule lock_inv_step)

text \<open>The run that breaks the lock: its first three steps are timely. Thread 1 reads \<open>value\<close> while thread 0 is inside, thread 0 leaves, and
  the comparison of thread 1 fails but returns \<open>SPINLOCK_UNLOCK\<close>.\<close>

lemma lock_run:
  "timely_reach \<lparr>lockVar = SPINLOCK_LOCK, phases = (\<lambda>t. Outside)(0 := Inside, 1 := Loaded SPINLOCK_LOCK)\<rparr>"
proof -
  let ?a = "\<lparr>lockVar = 0, phases = (\<lambda>t. Outside)(0 := Loaded 0)\<rparr>"
  let ?b = "\<lparr>lockVar = SPINLOCK_LOCK, phases = (\<lambda>t. Outside)(0 := Inside)\<rparr>"
  have "timely_step spin_start ?a"
    using lock_step.load [of spin_start 0] by (simp add: timely_step_def late_def spin_start_def atomic_defs)
  moreover have "timely_step ?a ?b"
    using lock_step.cmpxchg [of ?a 0 0] by (simp add: timely_step_def late_def enter_def atomic_defs)
  moreover have "timely_step ?b \<lparr>lockVar = SPINLOCK_LOCK, phases = (\<lambda>t. Outside)(0 := Inside, 1 := Loaded SPINLOCK_LOCK)\<rparr>"
    using lock_step.load [of ?b 1] by (simp add: timely_step_def late_def atomic_defs)
  ultimately show ?thesis by (meson rtranclp.rtrancl_into_rtrancl rtranclp.rtrancl_refl)
qed

lemma timely_reach_lock: "timely_reach s \<Longrightarrow> lock_reach s"
  by (erule rtranclp_mono [THEN predicate2D, rotated]) (auto simp: timely_step_def)

lemma lock_run':
  "\<exists>s. lock_step\<^sup>*\<^sup>* \<lparr>lockVar = SPINLOCK_LOCK, phases = (\<lambda>t. Outside)(0 := Inside, 1 := Loaded SPINLOCK_LOCK)\<rparr> s
     \<and> phases s 0 = Inside \<and> phases s 1 = Inside"
proof -
  let ?c = "\<lparr>lockVar = SPINLOCK_LOCK, phases = (\<lambda>t. Outside)(0 := Inside, 1 := Loaded SPINLOCK_LOCK)\<rparr>"
  let ?d = "leave ?c 0"
  let ?e = "enter ?d 1 (Atomic_compareAndExchange (lockVar ?d) SPINLOCK_LOCK SPINLOCK_LOCK)"
  let ?f = "?e\<lparr>phases := (phases ?e)(0 := Loaded (Atomic_get (lockVar ?e)))\<rparr>"
  let ?g = "enter ?f 0 (Atomic_compareAndExchange (lockVar ?f) 0 SPINLOCK_LOCK)"
  have "lock_step ?c ?d" by (rule lock_step.unlock) simp
  moreover have "lock_step ?d ?e" by (rule lock_step.cmpxchg) (simp add: leave_def)
  moreover have "lock_step ?e ?f" by (rule lock_step.load) (simp add: leave_def enter_def)
  moreover have "lock_step ?f ?g" by (rule lock_step.cmpxchg) (simp add: leave_def enter_def atomic_defs)
  ultimately have "lock_step\<^sup>*\<^sup>* ?c ?g" by (meson rtranclp.rtrancl_into_rtrancl rtranclp.rtrancl_refl)
  moreover have "phases ?g 0 = Inside \<and> phases ?g 1 = Inside" by (simp add: leave_def enter_def atomic_defs)
  ultimately show ?thesis by blast
qed

section \<open>Properties\<close>

text \<open>C10. When the spinlock excludes. In every run of the threads in which no thread does its \<open>cmpxchg\<close> after it has
  read that the lock is taken and the lock has become free since, at most one thread is inside, the lock
  variable says whether one is, and while none is inside a thread that calls \<open>tryAcquire\<close> without interruption gets
  the lock. The condition cannot be dropped: in such a state the late \<open>cmpxchg\<close> is a step of the code that
  lets its thread inside and leaves the lock free.\<close>

theorem spinlock_exclusive:
  assumes "timely_reach s"
  shows "(\<forall>i j. phases s i = Inside \<and> phases s j = Inside \<longrightarrow> i = j)
    \<and> (Spinlock_isLocked (lockVar s) \<longleftrightarrow> (\<exists>t. phases s t = Inside))
    \<and> ((\<forall>t. phases s t \<noteq> Inside) \<longrightarrow> snd (Spinlock_tryAcquire (lockVar s)))
    \<and> (\<forall>t. late s t \<longrightarrow> (\<exists>s'. lock_step s s' \<and> phases s' t = Inside \<and> \<not> Spinlock_isLocked (lockVar s')))"
proof -
  note inv = lock_inv_reach [OF assms]
  have "\<exists>s'. lock_step s s' \<and> phases s' t = Inside \<and> \<not> Spinlock_isLocked (lockVar s')" if "late s t" for t
    using late_enters [OF that] that
    by (intro exI [of _ "s\<lparr>lockVar := SPINLOCK_UNLOCK, phases := (phases s)(t := Inside)\<rparr>"]) (simp add: atomic_defs)
  then show ?thesis using inv by (auto simp: lock_inv_def atomic_defs)
qed

text \<open>Thread 0 is inside, thread 1 has read the variable; once thread 0 has left, thread 1 is late.\<close>

theorem spinlock_exclusive_witness:
  "\<exists>s s'. timely_reach s \<and> phases s 0 = Inside \<and> phases s 1 = Loaded SPINLOCK_LOCK \<and> Spinlock_isLocked (lockVar s)
     \<and> late (leave s 0) 1 \<and> lock_step (leave s 0) s' \<and> phases s' 1 = Inside \<and> \<not> Spinlock_isLocked (lockVar s')"
proof -
  let ?s = "\<lparr>lockVar = SPINLOCK_LOCK, phases = (\<lambda>t. Outside)(0 := Inside, 1 := Loaded SPINLOCK_LOCK)\<rparr>"
  have "timely_step ?s (leave ?s 0)"
    using lock_step.unlock [of ?s 0] by (simp add: timely_step_def late_def)
  then have "timely_reach (leave ?s 0)" using lock_run by (rule rtranclp.rtrancl_into_rtrancl [rotated])
  moreover have late: "late (leave ?s 0) 1" by (simp add: late_def leave_def atomic_defs)
  ultimately obtain s' where "lock_step (leave ?s 0) s'" "phases s' 1 = Inside" "\<not> Spinlock_isLocked (lockVar s')"
    using spinlock_exclusive [of "leave ?s 0"] by blast
  moreover have "Spinlock_isLocked (lockVar ?s)" by (simp add: atomic_defs)
  ultimately show ?thesis using lock_run late by (intro exI [of _ ?s] exI [of _ s']) simp
qed

text \<open>C39. The spinlock as it is written does not exclude: from the free lock the threads 0 and 1 can both
  get inside. \<open>getAndSet\<close> reads the cell before it compares and reports the current content also when
  the comparison fails.\<close>

theorem spinlock_admits_two: "\<exists>s. lock_reach s \<and> phases s 0 = Inside \<and> phases s 1 = Inside"
  using timely_reach_lock [OF lock_run] lock_run' by (meson rtranclp_trans)

end
