(* ===== verification/Bitmap_Managers.thy ===== *)
theory Bitmap_Managers
  imports Bitmaps Memory_Manager Hash_Maps Spinlocks
begin

text \<open>
  The memory managers of \<open>kernel/memory/manager\<close> that hand out blocks of a fixed size:
  \<open>BitmapMemoryManager\<close> and its subclasses \<open>PageFrameAllocator\<close>, \<open>PagingAreaManager\<close>,
  \<open>IOMemoryManager\<close> and \<open>IsaDmaMemoryManager\<close>, the \<open>AtomicBitmapMemoryManager\<close>, and the
  \<open>StaticHeapMemoryManager\<close>. The bitmap does not exist before \<open>init\<close>. The pages that
  \<open>IOMemoryManager::free\<close> asks \<open>Management\<close> to unmap are part of its result.
\<close>

abbreviation PAGESIZE :: u32 where "PAGESIZE \<equiv> 0x1000"

abbreviation KERNEL_START :: u32 where "KERNEL_START \<equiv> 0xC0000000"

definition VIRT_PAGE_MEM_START :: u32 where "VIRT_PAGE_MEM_START = KERNEL_START + 0x1F400000"
definition VIRT_IO_START :: u32 where "VIRT_IO_START = KERNEL_START + 0x2EE00000"
definition VIRT_PAGE_MEM_END :: u32 where "VIRT_PAGE_MEM_END = VIRT_IO_START - 0x40000"
definition VIRT_IO_END :: u32 where "VIRT_IO_END = 0xFFFFFFFF"
definition ISA_DMA_START_ADDRESS :: u32 where "ISA_DMA_START_ADDRESS = 0x00010000"
definition ISA_DMA_END_ADDRESS :: u32 where "ISA_DMA_END_ADDRESS = ISA_DMA_START_ADDRESS + 0x00080000"

section \<open>BitmapMemoryManager\<close>

datatype manager_type = PAGE_FRAME_ALLOCATOR | PAGING_AREA_MANAGER | MISC

record bitmap_manager = memory_manager +
  managerType :: manager_type
  bmm_bitmap :: "bitmap option"
  blockSize :: u32
  zeroMemory :: bool

definition BitmapMM_new :: "u32 \<Rightarrow> bool \<Rightarrow> bitmap_manager" where
  "BitmapMM_new bs zero =
     \<lparr>memoryStartAddress = 0, memoryEndAddress = 0, freeMemory = 0, doUnmap = False,
      managerType = MISC, bmm_bitmap = None, blockSize = bs, zeroMemory = zero\<rparr>"

definition BitmapMM_init ::
  "'a bitmap_manager_scheme \<Rightarrow> u32 \<Rightarrow> u32 \<Rightarrow> bool \<Rightarrow> 'a bitmap_manager_scheme" where
  "BitmapMM_init s0 start endd unmap =
     (let s = MemoryManager_init s0 start endd unmap;
          bm = Bitmap_new ((endd - start) div blockSize s)
      in s\<lparr>bmm_bitmap := Some bm, freeMemory := Bitmap_getSize bm * blockSize s\<rparr>)"

definition block_count :: "u32 \<Rightarrow> u32 \<Rightarrow> u32" where
  "block_count sz bs = sz div bs + (if sz mod bs = 0 then 0 else 1)"

definition BitmapMM_alloc ::
  "'a bitmap_manager_scheme \<Rightarrow> memory \<Rightarrow> u32 \<Rightarrow> ('a bitmap_manager_scheme \<times> memory \<times> u32) outcome" where
  "BitmapMM_alloc s m sz =
     (if sz = 0 then Inr (s, m, 0)
      else case bmm_bitmap s of
        None \<Rightarrow> Inl BadAccess
      | Some bm \<Rightarrow>
          let blockCount = block_count sz (blockSize s);
              (bm', block) = Bitmap_findAndSet bm blockCount;
              s1 = s\<lparr>bmm_bitmap := Some bm'\<rparr>
          in if block = Bitmap_getSize bm' then
               (if managerType s = PAGING_AREA_MANAGER then Inl (Thrown OUT_OF_PAGE_MEMORY)
                else if managerType s = PAGE_FRAME_ALLOCATOR then Inl (Thrown OUT_OF_PHYS_MEMORY)
                else Inr (s1, m, 0))
             else
               let address = memoryStartAddress s + block * blockSize s
               in Inr (s1\<lparr>freeMemory := freeMemory s - blockSize s * blockCount\<rparr>,
                       (if zeroMemory s then memset m address 0 (blockCount * blockSize s) else m),
                       address))"

definition BitmapMM_free :: "'a bitmap_manager_scheme \<Rightarrow> u32 \<Rightarrow> 'a bitmap_manager_scheme outcome" where
  "BitmapMM_free s ptr =
     (let address = ptr - memoryStartAddress s
      in if ptr < memoryStartAddress s \<or> ptr \<ge> memoryEndAddress s then Inr s
         else case bmm_bitmap s of
           None \<Rightarrow> Inl BadAccess
         | Some bm \<Rightarrow>
             let blockNumber = address div blockSize s
             in Inr (s\<lparr>bmm_bitmap := Some (Bitmap_unset bm blockNumber), freeMemory := freeMemory s + blockSize s\<rparr>))"

definition BitmapMM_dump :: "'a bitmap_manager_scheme \<Rightarrow> u32 list outcome" where
  "BitmapMM_dump s = (case bmm_bitmap s of None \<Rightarrow> Inl BadAccess | Some bm \<Rightarrow> Bitmap_dump bm)"

section \<open>The subclasses\<close>

definition PageFrameAllocator_new :: bitmap_manager where
  "PageFrameAllocator_new = (BitmapMM_new PAGESIZE False)\<lparr>managerType := PAGE_FRAME_ALLOCATOR\<rparr>"

text \<open>\<open>reservedEnd\<close> is the static variable \<open>Multiboot::Structure::physReservedMemoryEnd\<close>.\<close>

definition reserve_blocks :: "bitmap_manager \<Rightarrow> u32 \<Rightarrow> bitmap_manager" where
  "reserve_blocks s n = s\<lparr>bmm_bitmap := map_option (\<lambda>bm. Bitmap_setRange bm 0 (n * 32 + 2)) (bmm_bitmap s),
     freeMemory := freeMemory s - (n * 32 * blockSize s + 2 * blockSize s)\<rparr>"

definition PageFrameAllocator_init :: "u32 \<Rightarrow> bitmap_manager \<Rightarrow> u32 \<Rightarrow> u32 \<Rightarrow> bool \<Rightarrow> bitmap_manager" where
  "PageFrameAllocator_init reservedEnd s0 start endd unmap =
     (let s = BitmapMM_init s0 start endd False;
          maxIndex = (reservedEnd div PAGESIZE + 1024 + 256) div 32
      in reserve_blocks s maxIndex)"

definition PagingAreaManager_new :: bitmap_manager where
  "PagingAreaManager_new =
     (let s = (BitmapMM_init (BitmapMM_new PAGESIZE True) VIRT_PAGE_MEM_START VIRT_PAGE_MEM_END False)
                \<lparr>managerType := PAGING_AREA_MANAGER\<rparr>
      in reserve_blocks s 8)"

definition PagingAreaManager_init :: "bitmap_manager \<Rightarrow> u32 \<Rightarrow> u32 \<Rightarrow> bool \<Rightarrow> bitmap_manager" where
  "PagingAreaManager_init s start endd unmap = s"

abbreviation ISA_DMA_BUF_SIZE :: u32 where "ISA_DMA_BUF_SIZE \<equiv> 0x10000"

definition IsaDmaMemoryManager_new :: bitmap_manager where
  "IsaDmaMemoryManager_new =
     BitmapMM_init (BitmapMM_new ISA_DMA_BUF_SIZE True) ISA_DMA_START_ADDRESS ISA_DMA_END_ADDRESS False"

definition IsaDmaMemoryManager_init :: "bitmap_manager \<Rightarrow> u32 \<Rightarrow> u32 \<Rightarrow> bool \<Rightarrow> bitmap_manager" where
  "IsaDmaMemoryManager_init s start endd unmap = s"

record io_manager = bitmap_manager +
  ioMemoryMap :: "(u32, u32) hash_map"
  io_lock :: u8

text \<open>The conversion \<open>(uint32_t) key\<close> of the map for a pointer.\<close>

definition ptr_hash :: "u32 \<Rightarrow> u32" where
  "ptr_hash p = p"

definition IOMemoryManager_new :: io_manager where
  "IOMemoryManager_new =
     BitmapMM_init (bitmap_manager.extend (BitmapMM_new PAGESIZE False)
         \<lparr>ioMemoryMap = HashMap_default, io_lock = Spinlock_new\<rparr>) VIRT_IO_START VIRT_IO_END True"

definition IOMemoryManager_init :: "io_manager \<Rightarrow> u32 \<Rightarrow> u32 \<Rightarrow> bool \<Rightarrow> io_manager" where
  "IOMemoryManager_init s start endd unmap = s"

definition IOMemoryManager_alloc :: "io_manager \<Rightarrow> memory \<Rightarrow> u32 \<Rightarrow> (io_manager \<times> memory \<times> u32) outcome" where
  "IOMemoryManager_alloc s0 m sz =
     andThen (Spinlock_acquire (io_lock s0)) (\<lambda>l.
     andThen (BitmapMM_alloc (s0\<lparr>io_lock := l\<rparr>) m sz) (\<lambda>(s, m', ret).
     andThen (if ret \<noteq> 0 then HashMap_put ptr_hash (ioMemoryMap s) ret (block_count sz PAGESIZE) else Inr (ioMemoryMap s))
       (\<lambda>pages. Inr (s\<lparr>ioMemoryMap := pages, io_lock := Spinlock_release (io_lock s)\<rparr>, m', ret))))"

fun free_pages :: "nat \<Rightarrow> u32 \<Rightarrow> u32 \<Rightarrow> io_manager \<Rightarrow> (io_manager \<times> u32 list) outcome" where
  "free_pages 0 i virtualAddress s = Inr (s, [])"
| "free_pages (Suc n) i virtualAddress s =
     andThen (BitmapMM_free s (virtualAddress + i * PAGESIZE)) (\<lambda>s'.
     andThen (free_pages n (i + 1) virtualAddress s') (\<lambda>(s'', unmapped).
     Inr (s'', (virtualAddress + i * PAGESIZE) # unmapped)))"

definition IOMemoryManager_free :: "io_manager \<Rightarrow> u32 \<Rightarrow> (io_manager \<times> u32 list) outcome" where
  "IOMemoryManager_free s ptr =
     (if ptr < memoryStartAddress s \<or> ptr \<ge> memoryEndAddress s then Inr (s, [])
      else
        andThen (HashMap_get ptr_hash (ioMemoryMap s) ptr) (\<lambda>(pages, pageCount).
        andThen (Spinlock_acquire (io_lock s)) (\<lambda>l.
        andThen (free_pages (unat pageCount) 0 ptr (s\<lparr>ioMemoryMap := pages, io_lock := l\<rparr>)) (\<lambda>(s', unmapped).
        andThen (HashMap_remove ptr_hash (ioMemoryMap s') ptr) (\<lambda>(pages', _).
        Inr (s'\<lparr>ioMemoryMap := pages', io_lock := Spinlock_release (io_lock s')\<rparr>, unmapped))))))"

section \<open>AtomicBitmapMemoryManager\<close>

record atomic_manager =
  am_start :: u32
  am_end :: u32
  am_blockSize :: u32
  am_freeMemory :: u32
  am_bitmap :: bitmap

definition AtomicBitmapMM_new :: "u32 \<Rightarrow> u32 \<Rightarrow> u32 \<Rightarrow> atomic_manager" where
  "AtomicBitmapMM_new start endd bs =
     \<lparr>am_start = start, am_end = endd, am_blockSize = bs, am_freeMemory = 0,
      am_bitmap = Bitmap_new ((endd - start) div bs)\<rparr>"

definition AtomicBitmapMM_allocateBlock :: "atomic_manager \<Rightarrow> atomic_manager \<times> u32" where
  "AtomicBitmapMM_allocateBlock s =
     (let (bm, block) = AtomicBitmap_findAndSet (am_bitmap s)
      in if block = Bitmap_getSize bm then (s\<lparr>am_bitmap := bm\<rparr>, 0)
         else (s\<lparr>am_bitmap := bm, am_freeMemory := am_freeMemory s - am_blockSize s\<rparr>,
               am_start s + block * am_blockSize s))"

definition AtomicBitmapMM_freeBlock :: "atomic_manager \<Rightarrow> u32 \<Rightarrow> atomic_manager" where
  "AtomicBitmapMM_freeBlock s ptr =
     (let address = ptr - am_start s
      in if ptr < am_start s \<or> ptr \<ge> am_end s then s
         else s\<lparr>am_bitmap := AtomicBitmap_unset (am_bitmap s) (address div am_blockSize s),
                am_freeMemory := am_freeMemory s + am_blockSize s\<rparr>)"

section \<open>StaticHeapMemoryManager\<close>

record static_heap = memory_manager +
  currentPosition :: u32
  sh_lock :: u8

definition StaticHeap_init :: "static_heap \<Rightarrow> u32 \<Rightarrow> u32 \<Rightarrow> bool \<Rightarrow> static_heap" where
  "StaticHeap_init s start endd unmap = (MemoryManager_init s start endd False)\<lparr>currentPosition := start\<rparr>"

definition StaticHeap_alloc_aligned :: "static_heap \<Rightarrow> u32 \<Rightarrow> u32 \<Rightarrow> (static_heap \<times> u32) outcome" where
  "StaticHeap_alloc_aligned s sz alignment =
     (if freeMemory s < sz then Inr (s, 0)
      else andThen (Spinlock_acquire (sh_lock s)) (\<lambda>l.
        let ret = alignUp (currentPosition s) alignment
        in Inr (s\<lparr>currentPosition := ret + sz, freeMemory := freeMemory s - sz, sh_lock := Spinlock_release l\<rparr>, ret)))"

definition StaticHeap_alloc :: "static_heap \<Rightarrow> u32 \<Rightarrow> (static_heap \<times> u32) outcome" where
  "StaticHeap_alloc s sz = StaticHeap_alloc_aligned s sz 0"

definition StaticHeap_realloc_aligned ::
  "static_heap \<Rightarrow> memory \<Rightarrow> u32 \<Rightarrow> u32 \<Rightarrow> u32 \<Rightarrow> (static_heap \<times> memory \<times> u32) outcome" where
  "StaticHeap_realloc_aligned s m ptr sz alignment =
     andThen (StaticHeap_alloc_aligned s sz alignment) (\<lambda>(s', ret).
     Inr (s', (if ret = 0 then m else memcpy m ret ptr sz), ret))"

definition StaticHeap_realloc :: "static_heap \<Rightarrow> memory \<Rightarrow> u32 \<Rightarrow> u32 \<Rightarrow> (static_heap \<times> memory \<times> u32) outcome" where
  "StaticHeap_realloc s m ptr sz = StaticHeap_realloc_aligned s m ptr sz 0"

definition StaticHeap_free_aligned :: "static_heap \<Rightarrow> u32 \<Rightarrow> u32 \<Rightarrow> static_heap" where
  "StaticHeap_free_aligned s ptr alignment = s"

definition StaticHeap_free :: "static_heap \<Rightarrow> u32 \<Rightarrow> static_heap" where
  "StaticHeap_free s ptr = StaticHeap_free_aligned s ptr 0"

end
