(* ===== verification/Frame_Allocation.thy ===== *)
theory Frame_Allocation
  imports Bitmap_Managers
begin

text \<open>
  Correctness of the managers of \<open>Bitmap_Managers\<close>: the invariant of a bitmap manager relates its
  counter \<open>freeMemory\<close> to the unset blocks of its bitmap; the contract \<open>block_pool\<close> says that
  blocks are taken from and given back to a pool, and its client lemma that nobody holds a block twice
  and no block is lost. Both the page frame allocator and the lock-free manager provide it.
\<close>

section \<open>Free blocks\<close>

definition bm_free :: "bitmap \<Rightarrow> nat set" where
  "bm_free bm = {k. k < unat (bm_blocks bm) \<and> \<not> bm_get bm k}"

lemma finite_bm_free [simp]: "finite (bm_free bm)"
  by (rule finite_subset [of _ "{..< unat (bm_blocks bm)}"]) (auto simp: bm_free_def)

lemma blocks_new [simp]: "bm_blocks (Bitmap_new n) = n"
  by (simp add: Bitmap_new_def)

lemma bm_free_new: "bm_free (Bitmap_new n) = {k. k < unat n}"
  using bm_get_new by (auto simp: bm_free_def)

lemma bm_free_setRange:
  assumes "bm_wf bm" "bm_free_run bm (unat b) (unat n)"
  shows "bm_free (Bitmap_setRange bm b n) = bm_free bm - {unat b ..< unat b + unat n}"
    and "{unat b ..< unat b + unat n} \<subseteq> bm_free bm"
proof -
  show "{unat b ..< unat b + unat n} \<subseteq> bm_free bm" using assms(2) by (auto simp: bm_free_def bm_free_run_def)
  show "bm_free (Bitmap_setRange bm b n) = bm_free bm - {unat b ..< unat b + unat n}"
    using get_findAndSet [OF assms] by (auto simp: bm_free_def)
qed

lemma bm_free_unset:
  assumes "bm_wf bm" "b < bm_blocks bm"
  shows "bm_free (Bitmap_unset bm b) = insert (unat b) (bm_free bm)"
  using assms by (auto simp: bm_free_def get_unset word_less_nat_alt)

lemma unat_mult_le:
  assumes "unat a * unat b \<le> unat (c :: u32)"
  shows "unat (a * b :: u32) = unat a * unat b"
proof -
  have "unat a * unat b < 4294967296" using assms unat_u32_bound [of c] by linarith
  then show ?thesis by (simp add: unat_word_ariths)
qed

section \<open>The invariant of a bitmap manager\<close>

definition mgr_ok :: "u32 \<Rightarrow> u32 \<Rightarrow> u32 \<Rightarrow> bitmap \<Rightarrow> bool" where
  "mgr_ok start endd bs bm \<longleftrightarrow> bm_wf bm \<and> 0 < bs
     \<and> unat start + unat (bm_blocks bm) * unat bs \<le> unat endd"

definition bmm_inv :: "'a bitmap_manager_scheme \<Rightarrow> bool" where
  "bmm_inv s \<longleftrightarrow> (\<exists>bm. bmm_bitmap s = Some bm
     \<and> mgr_ok (memoryStartAddress s) (memoryEndAddress s) (blockSize s) bm
     \<and> unat (freeMemory s) = card (bm_free bm) * unat (blockSize s))"

definition blockAddress :: "u32 \<Rightarrow> u32 \<Rightarrow> nat \<Rightarrow> u32" where
  "blockAddress start bs k = start + of_nat k * bs"

lemma unat_blockAddress:
  assumes "mgr_ok start endd bs bm" "k < unat (bm_blocks bm)"
  shows "unat (blockAddress start bs k) = unat start + k * unat bs"
    and "unat start + k * unat bs + unat bs \<le> unat endd"
proof -
  have "Suc k * unat bs \<le> unat (bm_blocks bm) * unat bs" using assms(2) by (intro mult_le_mono1) simp
  then show b: "unat start + k * unat bs + unat bs \<le> unat endd" using assms(1) by (simp add: mgr_ok_def)
  have bs: "1 \<le> unat bs" using assms(1) by (simp add: mgr_ok_def word_less_nat_alt)
  have k: "k < 4294967296" using assms(2) unat_u32_bound [of "bm_blocks bm"] by linarith
  have s: "unat start + k * unat bs < 4294967296" using b bs unat_u32_bound [of endd] by linarith
  have "unat (of_nat k * bs :: u32) = k * unat bs"
    using s k by (simp add: unat_word_ariths unat_of_nat)
  then show "unat (blockAddress start bs k) = unat start + k * unat bs"
    using s by (simp add: blockAddress_def unat_word_ariths)
qed

lemma blockAddress_index:
  assumes "mgr_ok start endd bs bm" "k < unat (bm_blocks bm)"
  defines "p \<equiv> blockAddress start bs k"
  shows "\<not> p < start" "\<not> p \<ge> endd" "unat ((p - start) div bs) = k" "(p - start) div bs < bm_blocks bm"
proof -
  note u = unat_blockAddress [OF assms(1,2), folded p_def]
  have bs: "1 \<le> unat bs" using assms(1) by (simp add: mgr_ok_def word_less_nat_alt)
  show "\<not> p < start" "\<not> p \<ge> endd" using u bs by (auto simp: word_less_nat_alt word_le_nat_alt)
  then have "unat (p - start) = k * unat bs" using u by (simp add: unat_sub_u32 word_le_nat_alt)
  then show i: "unat ((p - start) div bs) = k" using bs by (simp add: unat_div)
  then show "(p - start) div bs < bm_blocks bm" using assms(2) by (simp add: word_less_nat_alt)
qed

lemma blockAddress_inj:
  assumes "mgr_ok start endd bs bm"
  shows "inj_on (blockAddress start bs) {k. k < unat (bm_blocks bm)}"
  by (rule inj_onI) (metis blockAddress_index(3) [OF assms] mem_Collect_eq)

lemma block_count_pos:
  assumes "0 < bs" "0 < sz"
  shows "unat (block_count sz bs) = unat sz div unat bs + (if unat sz mod unat bs = 0 then 0 else 1)"
    and "0 < block_count sz bs" and "unat sz \<le> unat (block_count sz bs) * unat bs"
proof -
  have bs: "0 < unat bs" "0 < unat sz" using assms by (simp_all add: word_less_nat_alt)
  have m: "sz mod bs = 0 \<longleftrightarrow> unat sz mod unat bs = 0" by (simp add: u32_eq_iff unat_mod)
  have "unat sz div unat bs < 4294967295" if "unat sz mod unat bs \<noteq> 0"
  proof -
    have "2 \<le> unat bs" using that bs(1) by (cases "unat bs = 1") auto
    then have "unat sz div unat bs \<le> unat sz div 2" by (intro div_le_mono2) auto
    then show ?thesis using unat_u32_bound [of sz] by linarith
  qed
  moreover have "unat sz div unat bs < 4294967296" using unat_u32_bound [of "sz div bs"] by (simp add: unat_div)
  ultimately show c: "unat (block_count sz bs) = unat sz div unat bs + (if unat sz mod unat bs = 0 then 0 else 1)"
    by (auto simp: block_count_def m unat_word_ariths unat_div)
  have d: "unat sz = unat sz div unat bs * unat bs + unat sz mod unat bs" by simp
  have l: "unat sz mod unat bs \<le> unat bs" using bs(1) by (simp add: less_imp_le)
  show "unat sz \<le> unat (block_count sz bs) * unat bs"
  proof (cases "unat sz mod unat bs = 0")
    case True
    then have "unat (block_count sz bs) * unat bs = unat sz div unat bs * unat bs" using c by simp
    then show ?thesis using d True by linarith
  next
    case False
    then have "unat (block_count sz bs) * unat bs = unat sz div unat bs * unat bs + unat bs" using c by simp
    then show ?thesis using d l by linarith
  qed
  then show "0 < block_count sz bs" using bs(2) by (cases "block_count sz bs = 0") (auto simp: word_gt_0)
qed

lemma block_count_one: "0 < bs \<Longrightarrow> block_count bs bs = 1"
  by (simp add: block_count_def word_gt_0 u32_eq_iff unat_div unat_mod)

text \<open>An allocation fails exactly if there is no run of free blocks of the size; otherwise it takes such a run.\<close>

lemma alloc_cases:
  fixes s :: "'a bitmap_manager_scheme"
  assumes "bmm_inv s" "bmm_bitmap s = Some bm" "0 < sz"
  defines "n \<equiv> block_count sz (blockSize s)"
  obtains (none) "\<And>k. \<not> bm_free_run bm k (unat n)"
      "BitmapMM_alloc s m sz = (case managerType s of PAGING_AREA_MANAGER \<Rightarrow> Inl (Thrown OUT_OF_PAGE_MEMORY)
         | PAGE_FRAME_ALLOCATOR \<Rightarrow> Inl (Thrown OUT_OF_PHYS_MEMORY) | MISC \<Rightarrow> Inr (s, m, 0))"
  | (some) b where "b < bm_blocks bm" "bm_free_run bm (unat b) (unat n)"
      "\<And>k. k < unat b \<Longrightarrow> \<not> bm_free_run bm k (unat n)"
      "BitmapMM_alloc s m sz = Inr (s\<lparr>bmm_bitmap := Some (Bitmap_setRange bm b n),
           freeMemory := freeMemory s - blockSize s * n\<rparr>,
         (if zeroMemory s then memset m (blockAddress (memoryStartAddress s) (blockSize s) (unat b)) 0 (n * blockSize s) else m),
         blockAddress (memoryStartAddress s) (blockSize s) (unat b))"
proof -
  have ok: "mgr_ok (memoryStartAddress s) (memoryEndAddress s) (blockSize s) bm"
    using assms(1,2) by (auto simp: bmm_inv_def)
  then have wf: "bm_wf bm" and n: "0 < n" using block_count_pos(2) [OF _ assms(3)] by (auto simp: mgr_ok_def n_def)
  obtain bm' b where f: "Bitmap_findAndSet bm n = (bm', b)" by fastforce
  have s: "s\<lparr>bmm_bitmap := Some bm\<rparr> = s" using assms(2) by simp
  from findAndSet_first_fit [OF wf n f] consider
      (1) "b = bm_blocks bm" "bm' = bm" "\<forall>k. \<not> bm_free_run bm k (unat n)"
    | (2) "b < bm_blocks bm" "bm_free_run bm (unat b) (unat n)" "\<forall>k < unat b. \<not> bm_free_run bm k (unat n)"
        "bm' = Bitmap_setRange bm b n" by auto
  then show thesis
  proof cases
    case 1
    show thesis by (rule none)
      (use 1 f assms(2,3) s in \<open>auto simp: BitmapMM_alloc_def n_def Bitmap_getSize_def split: manager_type.split\<close>)
  next
    case 2
    then have "b \<noteq> Bitmap_getSize bm'" by (auto simp: Bitmap_getSize_def)
    then show thesis
      by (intro some [of b]) (use 2 f assms(2,3) in \<open>auto simp: BitmapMM_alloc_def n_def Let_def blockAddress_def\<close>)
  qed
qed

lemma bmm_inv_take:
  assumes "bmm_inv s" "bmm_bitmap s = Some bm" "bm_free_run bm (unat b) (unat n)"
  shows "bmm_inv (s\<lparr>bmm_bitmap := Some (Bitmap_setRange bm b n), freeMemory := freeMemory s - blockSize s * n\<rparr>)"
proof -
  have ok: "mgr_ok (memoryStartAddress s) (memoryEndAddress s) (blockSize s) bm"
    and fm: "unat (freeMemory s) = card (bm_free bm) * unat (blockSize s)"
    using assms(1,2) by (auto simp: bmm_inv_def)
  then have wf: "bm_wf bm" by (simp add: mgr_ok_def)
  note F = bm_free_setRange [OF wf assms(3)]
  have c: "card (bm_free (Bitmap_setRange bm b n)) = card (bm_free bm) - unat n" and le: "unat n \<le> card (bm_free bm)"
    using F by (simp_all add: card_Diff_subset) (metis card_atLeastLessThan card_mono diff_add_inverse finite_bm_free)
  have "unat n * unat (blockSize s) \<le> unat (freeMemory s)" using le fm by (simp add: mult_le_mono1)
  moreover from this have "unat (blockSize s * n) = unat n * unat (blockSize s)"
    using unat_mult_le [of n "blockSize s" "freeMemory s"] by (simp add: mult.commute)
  ultimately have "unat (freeMemory s - blockSize s * n) = (card (bm_free bm) - unat n) * unat (blockSize s)"
    using fm by (simp add: unat_sub_u32 word_le_nat_alt diff_mult_distrib)
  then show ?thesis using ok c by (simp add: bmm_inv_def mgr_ok_def)
qed

lemma bmm_free:
  assumes "bmm_inv s" "bmm_bitmap s = Some bm" "k < unat (bm_blocks bm)" "bm_get bm k"
  defines "p \<equiv> blockAddress (memoryStartAddress s) (blockSize s) k"
  obtains s' where "BitmapMM_free s p = Inr s'" "bmm_inv s'"
    "s' = s\<lparr>bmm_bitmap := Some (Bitmap_unset bm (of_nat k)), freeMemory := freeMemory s + blockSize s\<rparr>"
proof -
  have ok: "mgr_ok (memoryStartAddress s) (memoryEndAddress s) (blockSize s) bm"
    and fm: "unat (freeMemory s) = card (bm_free bm) * unat (blockSize s)"
    using assms(1,2) by (auto simp: bmm_inv_def)
  note B = blockAddress_index [OF ok assms(3), folded p_def]
  have i: "(p - memoryStartAddress s) div blockSize s = of_nat k" by (metis B(3) of_nat_unat ucast_id)
  have lt: "(of_nat k :: u32) < bm_blocks bm" using B(4) i by simp
  have uk: "unat (of_nat k :: u32) = k" using B(3) i by simp
  let ?s = "s\<lparr>bmm_bitmap := Some (Bitmap_unset bm (of_nat k)), freeMemory := freeMemory s + blockSize s\<rparr>"
  have wf: "bm_wf bm" using ok by (simp add: mgr_ok_def)
  have F: "bm_free (Bitmap_unset bm (of_nat k)) = insert k (bm_free bm)" using bm_free_unset [OF wf lt] uk by simp
  have nk: "k \<notin> bm_free bm" using assms(4) by (simp add: bm_free_def)
  have "insert k (bm_free bm) \<subseteq> {k. k < unat (bm_blocks bm)}" using assms(3) by (auto simp: bm_free_def)
  then have "card (insert k (bm_free bm)) \<le> unat (bm_blocks bm)" using card_mono [of "{k. k < unat (bm_blocks bm)}"] by simp
  then have "Suc (card (bm_free bm)) * unat (blockSize s) \<le> unat (bm_blocks bm) * unat (blockSize s)"
    using nk by (intro mult_le_mono1) simp
  then have "Suc (card (bm_free bm)) * unat (blockSize s) < 4294967296"
    using ok unat_u32_bound [of "memoryEndAddress s"] unfolding mgr_ok_def by linarith
  then have "unat (freeMemory s + blockSize s) = Suc (card (bm_free bm)) * unat (blockSize s)"
    using fm by (simp add: unat_word_ariths)
  then have "bmm_inv ?s" using ok F nk by (simp add: bmm_inv_def mgr_ok_def)
  moreover have "BitmapMM_free s p = Inr ?s" using B(1,2) assms(2) i by (simp add: BitmapMM_free_def Let_def)
  ultimately show thesis by (intro that) auto
qed

lemma bmm_inv_init:
  assumes "0 < blockSize s" "start \<le> endd"
  shows "bmm_inv (BitmapMM_init s start endd u)"
    and "bmm_bitmap (BitmapMM_init s start endd u) = Some (Bitmap_new ((endd - start) div blockSize s))"
proof -
  let ?n = "(endd - start) div blockSize s"
  have "unat ?n * unat (blockSize s) \<le> unat (endd - start)" by (simp add: unat_div)
  moreover from this have "unat (?n * blockSize s) = unat ?n * unat (blockSize s)"
    by (rule unat_mult_le)
  moreover have "unat start + unat (endd - start) = unat endd" using assms(2) by (simp add: unat_sub_u32 word_le_nat_alt)
  ultimately show "bmm_inv (BitmapMM_init s start endd u)"
    using assms(1) bm_wf_new [of ?n]
    by (simp add: bmm_inv_def BitmapMM_init_def MemoryManager_init_def Let_def mgr_ok_def Bitmap_getSize_def bm_free_new)
qed (simp add: BitmapMM_init_def MemoryManager_init_def Let_def)

section \<open>The contract of a pool of blocks\<close>

datatype pool_request = Take | Give u32

definition pool_step ::
  "('s \<Rightarrow> ('s \<times> u32) option) \<Rightarrow> ('s \<Rightarrow> u32 \<Rightarrow> 's) \<Rightarrow> pool_request \<Rightarrow> 's \<times> u32 list \<Rightarrow> 's \<times> u32 list" where
  "pool_step acq rel r c = (case r of
     Take \<Rightarrow> (case acq (fst c) of None \<Rightarrow> c | Some (s, p) \<Rightarrow> (s, p # snd c))
   | Give p \<Rightarrow> if p \<in> set (snd c) then (rel (fst c) p, removeAll p (snd c)) else c)"

text \<open>The clients take blocks and give back blocks they hold; the second component is what they hold.\<close>

definition pool_run ::
  "('s \<Rightarrow> ('s \<times> u32) option) \<Rightarrow> ('s \<Rightarrow> u32 \<Rightarrow> 's) \<Rightarrow> pool_request list \<Rightarrow> 's \<times> u32 list \<Rightarrow> 's \<times> u32 list" where
  "pool_run acq rel rs c = fold (pool_step acq rel) rs c"

locale block_pool =
  fixes inv :: "'s \<Rightarrow> bool"
    and blocks :: "'s \<Rightarrow> u32 set"
    and avail :: "'s \<Rightarrow> u32 set"
    and acq :: "'s \<Rightarrow> ('s \<times> u32) option"
    and rel :: "'s \<Rightarrow> u32 \<Rightarrow> 's"
  assumes avail_blocks: "inv s \<Longrightarrow> avail s \<subseteq> blocks s"
    and take_empty: "inv s \<Longrightarrow> avail s = {} \<Longrightarrow> acq s = None"
    and take_avail: "inv s \<Longrightarrow> avail s \<noteq> {}
      \<Longrightarrow> \<exists>s' p. acq s = Some (s', p) \<and> inv s' \<and> blocks s' = blocks s \<and> p \<in> avail s \<and> avail s' = avail s - {p}"
    and give_avail: "inv s \<Longrightarrow> p \<in> blocks s - avail s
      \<Longrightarrow> inv (rel s p) \<and> blocks (rel s p) = blocks s \<and> avail (rel s p) = insert p (avail s)"
begin

definition held_ok :: "u32 set \<Rightarrow> u32 set \<Rightarrow> 's \<times> u32 list \<Rightarrow> bool" where
  "held_ok U A c \<longleftrightarrow> inv (fst c) \<and> blocks (fst c) = U \<and> distinct (snd c) \<and> set (snd c) \<inter> avail (fst c) = {}
     \<and> set (snd c) \<union> avail (fst c) = A \<and> A \<subseteq> U"

lemma held_step:
  assumes "held_ok U A c"
  shows "held_ok U A (pool_step acq rel r c)"
proof (cases r)
  case Take
  show ?thesis
  proof (cases "avail (fst c) = {}")
    case True
    then show ?thesis using assms take_empty Take by (simp add: pool_step_def held_ok_def)
  next
    case False
    have "inv (fst c)" using assms by (simp add: held_ok_def)
    then obtain s' p where "acq (fst c) = Some (s', p)" "inv s'" "blocks s' = blocks (fst c)" "p \<in> avail (fst c)"
      "avail s' = avail (fst c) - {p}" using take_avail [OF _ False] by blast
    then show ?thesis using assms Take by (auto simp: pool_step_def held_ok_def)
  qed
next
  case (Give p)
  show ?thesis
  proof (cases "p \<in> set (snd c)")
    case True
    then have "p \<in> blocks (fst c) - avail (fst c)" using assms by (auto simp: held_ok_def)
    then show ?thesis using assms Give True give_avail [of "fst c" p]
      by (auto simp: pool_step_def held_ok_def distinct_removeAll)
  qed (use assms Give in \<open>simp add: pool_step_def\<close>)
qed

text \<open>Whatever the clients do, nobody holds a block twice, no block is lost and none appears.\<close>

lemma run_partition:
  assumes "inv s" "pool_run acq rel rs (s, []) = (s', held)"
  shows "inv s' \<and> blocks s' = blocks s \<and> distinct held \<and> set held \<inter> avail s' = {} \<and> set held \<union> avail s' = avail s"
proof -
  have "held_ok U A (fold (pool_step acq rel) rs c)" if "held_ok U A c" for U A c
    using that by (induction rs arbitrary: c) (simp_all add: held_step del: split_paired_All)
  from this [of "blocks s" "avail s" "(s, [])"] show ?thesis
    using assms avail_blocks by (simp add: pool_run_def held_ok_def)
qed

end

section \<open>Bitmap managers are pools\<close>

definition bmm_blocks :: "'a bitmap_manager_scheme \<Rightarrow> u32 set" where
  "bmm_blocks s = (case bmm_bitmap s of None \<Rightarrow> {}
     | Some bm \<Rightarrow> blockAddress (memoryStartAddress s) (blockSize s) ` {k. k < unat (bm_blocks bm)})"

definition bmm_avail :: "'a bitmap_manager_scheme \<Rightarrow> u32 set" where
  "bmm_avail s = (case bmm_bitmap s of None \<Rightarrow> {}
     | Some bm \<Rightarrow> blockAddress (memoryStartAddress s) (blockSize s) ` bm_free bm)"

text \<open>A client asks for one block; a manager that raises an exception gives none.\<close>

definition take_block :: "memory \<Rightarrow> bitmap_manager \<Rightarrow> (bitmap_manager \<times> u32) option" where
  "take_block m s = (case BitmapMM_alloc s m (blockSize s) of Inl e \<Rightarrow> None | Inr (s', m', p) \<Rightarrow> Some (s', p))"

definition give_block :: "bitmap_manager \<Rightarrow> u32 \<Rightarrow> bitmap_manager" where
  "give_block s p = (case BitmapMM_free s p of Inl e \<Rightarrow> s | Inr s' \<Rightarrow> s')"

definition pool_inv :: "bitmap_manager \<Rightarrow> bool" where
  "pool_inv s \<longleftrightarrow> bmm_inv s \<and> managerType s \<noteq> MISC"

lemma free_run_one: "bm_free_run bm k 1 \<longleftrightarrow> k \<in> bm_free bm"
proof -
  have "k \<le> j \<and> j < k + 1 \<longleftrightarrow> j = k" for j by auto
  then show ?thesis by (simp add: bm_free_run_def bm_free_def Suc_le_eq)
qed

lemma blockAddress_image_diff:
  assumes "mgr_ok start endd bs bm" "k < unat (bm_blocks bm)"
  shows "blockAddress start bs ` (bm_free bm - {k}) = blockAddress start bs ` bm_free bm - {blockAddress start bs k}"
proof -
  have "inj_on (blockAddress start bs) (insert k (bm_free bm))"
    by (rule inj_on_subset [OF blockAddress_inj [OF assms(1)]]) (use assms(2) in \<open>auto simp: bm_free_def\<close>)
  then show ?thesis by (auto simp: inj_on_def)
qed

lemma take_block_avail:
  assumes "pool_inv s" "bmm_avail s \<noteq> {}"
  shows "\<exists>s' p. take_block m s = Some (s', p) \<and> pool_inv s' \<and> bmm_blocks s' = bmm_blocks s \<and> p \<in> bmm_avail s
           \<and> bmm_avail s' = bmm_avail s - {p}"
proof -
  obtain bm where bm: "bmm_bitmap s = Some bm" and I: "bmm_inv s"
    and ok: "mgr_ok (memoryStartAddress s) (memoryEndAddress s) (blockSize s) bm"
    using assms(1) by (auto simp: pool_inv_def bmm_inv_def)
  then have bs: "0 < blockSize s" and wf: "bm_wf bm" by (auto simp: mgr_ok_def)
  note one = block_count_one [OF bs]
  show ?thesis
  proof (rule alloc_cases [OF I bm bs, of m])
    assume "\<And>k. \<not> bm_free_run bm k (unat (block_count (blockSize s) (blockSize s)))"
    then show ?thesis using assms(2) bm one free_run_one by (auto simp: bmm_avail_def)
  next
    fix b
    assume b: "b < bm_blocks bm" "bm_free_run bm (unat b) (unat (block_count (blockSize s) (blockSize s)))"
      and a: "BitmapMM_alloc s m (blockSize s) = Inr (s\<lparr>bmm_bitmap := Some (Bitmap_setRange bm b (block_count (blockSize s) (blockSize s))),
           freeMemory := freeMemory s - blockSize s * block_count (blockSize s) (blockSize s)\<rparr>,
         (if zeroMemory s then memset m (blockAddress (memoryStartAddress s) (blockSize s) (unat b)) 0 (block_count (blockSize s) (blockSize s) * blockSize s) else m),
         blockAddress (memoryStartAddress s) (blockSize s) (unat b))"
    let ?s = "s\<lparr>bmm_bitmap := Some (Bitmap_setRange bm b 1), freeMemory := freeMemory s - blockSize s * 1\<rparr>"
    have r: "bm_free_run bm (unat b) (unat (1 :: u32))" using b(2) one by simp
    have "bm_free (Bitmap_setRange bm b 1) = bm_free bm - {unat b}" "unat b \<in> bm_free bm"
      using bm_free_setRange [OF wf r] by auto
    then have "bmm_avail ?s = bmm_avail s - {blockAddress (memoryStartAddress s) (blockSize s) (unat b)}"
      "blockAddress (memoryStartAddress s) (blockSize s) (unat b) \<in> bmm_avail s"
      using blockAddress_image_diff [OF ok, of "unat b"] b(1) bm by (auto simp: bmm_avail_def word_less_nat_alt)
    moreover have "pool_inv ?s" using bmm_inv_take [OF I bm r] assms(1) by (simp add: pool_inv_def)
    moreover have "take_block m s = Some (?s, blockAddress (memoryStartAddress s) (blockSize s) (unat b))"
      using a one by (simp add: take_block_def)
    ultimately show ?thesis using bm by (auto simp: bmm_blocks_def)
  qed
qed

lemma give_block_avail:
  assumes "pool_inv s" "p \<in> bmm_blocks s - bmm_avail s"
  shows "pool_inv (give_block s p) \<and> bmm_blocks (give_block s p) = bmm_blocks s
    \<and> bmm_avail (give_block s p) = insert p (bmm_avail s)"
proof -
  obtain bm where bm: "bmm_bitmap s = Some bm" and I: "bmm_inv s"
    and ok: "mgr_ok (memoryStartAddress s) (memoryEndAddress s) (blockSize s) bm"
    using assms(1) by (auto simp: pool_inv_def bmm_inv_def)
  obtain k where k: "k < unat (bm_blocks bm)" "p = blockAddress (memoryStartAddress s) (blockSize s) k" "bm_get bm k"
    using assms(2) bm by (auto simp: bmm_blocks_def bmm_avail_def bm_free_def)
  obtain s' where s': "BitmapMM_free s p = Inr s'" "bmm_inv s'"
    "s' = s\<lparr>bmm_bitmap := Some (Bitmap_unset bm (of_nat k)), freeMemory := freeMemory s + blockSize s\<rparr>"
    using bmm_free [OF I bm k(1,3)] k(2) by metis
  have k32: "k < 4294967296" using k(1) unat_u32_bound [of "bm_blocks bm"] by linarith
  then have "bm_free (Bitmap_unset bm (of_nat k)) = insert k (bm_free bm)"
    using bm_free_unset [of bm "of_nat k"] ok k(1) by (simp add: mgr_ok_def word_less_nat_alt)
  then show ?thesis using s' bm k(2) assms(1)
    by (auto simp: give_block_def pool_inv_def bmm_blocks_def bmm_avail_def)
qed

interpretation bpool: block_pool pool_inv bmm_blocks bmm_avail "take_block m" give_block for m
proof unfold_locales
  show "bmm_avail s \<subseteq> bmm_blocks s" for s :: bitmap_manager
    by (auto simp: bmm_avail_def bmm_blocks_def bm_free_def split: option.split)
  show "take_block m s = None" if "pool_inv s" "bmm_avail s = {}" for s
  proof -
    have I: "bmm_inv s" using that(1) by (simp add: pool_inv_def)
    then obtain bm where bm: "bmm_bitmap s = Some bm" and bs: "0 < blockSize s" by (auto simp: bmm_inv_def mgr_ok_def)
    have e: "bm_free bm = {}" using that(2) bm by (simp add: bmm_avail_def)
    show ?thesis
      by (rule alloc_cases [OF I bm bs, of m])
        (use e that(1) free_run_one [of bm] block_count_one [OF bs]
          in \<open>auto simp: take_block_def pool_inv_def split: manager_type.splits\<close>)
  qed
qed (rule take_block_avail give_block_avail; assumption)+

end
