(* ===== verification/Frame_Properties.thy ===== *)
theory Frame_Properties
  imports Frame_Allocation
begin

text \<open>
  The concrete managers: the reserved blocks of the page frame allocator and the paging area, the
  lock-free manager as a second pool, the pages of the IO memory manager, and the static heap.
\<close>

section \<open>Reserved blocks\<close>

lemma reserve_blocks_inv:
  assumes "bmm_inv s" "bmm_bitmap s = Some (Bitmap_new N)" "unat n * 32 + 2 \<le> unat N"
  shows "bmm_inv (reserve_blocks s n)"
    and "bmm_avail (reserve_blocks s n)
      = blockAddress (memoryStartAddress s) (blockSize s) ` {unat n * 32 + 2 ..< unat N}"
proof -
  let ?r = "n * 32 + 2" let ?bm = "Bitmap_setRange (Bitmap_new N) 0 ?r"
  have lt: "unat n * 32 + 2 < 4294967296" using assms(3) unat_u32_bound [of N] by linarith
  then have r: "unat ?r = unat n * 32 + 2" by (simp add: unat_word_ariths)
  have run: "bm_free_run (Bitmap_new N) (unat 0) (unat ?r)"
    using assms(3) r bm_get_new [of _ N] by (simp add: bm_free_run_def)
  have e: "freeMemory s - (n * 32 * blockSize s + 2 * blockSize s) = freeMemory s - blockSize s * ?r"
    by (simp add: algebra_simps)
  have s: "reserve_blocks s n = s\<lparr>bmm_bitmap := Some ?bm, freeMemory := freeMemory s - blockSize s * ?r\<rparr>"
    using assms(2) e by (simp add: reserve_blocks_def)
  show "bmm_inv (reserve_blocks s n)" unfolding s by (rule bmm_inv_take [OF assms(1,2) run])
  have "bm_free ?bm = {unat n * 32 + 2 ..< unat N}"
    unfolding bm_free_setRange(1) [OF bm_wf_new run] bm_free_new r by auto
  then show "bmm_avail (reserve_blocks s n)
      = blockAddress (memoryStartAddress s) (blockSize s) ` {unat n * 32 + 2 ..< unat N}"
    by (simp add: s bmm_avail_def)
qed

definition frame_reserve :: "u32 \<Rightarrow> u32" where
  "frame_reserve reservedEnd = (reservedEnd div PAGESIZE + 1024 + 256) div 32"

lemma unat_frame_reserve: "unat (frame_reserve r) = (unat r div 4096 + 1280) div 32"
proof -
  have "unat r div 4096 + 1280 < 4294967296" using unat_u32_bound [of r] by linarith
  then show ?thesis by (simp add: frame_reserve_def unat_div unat_word_ariths add.assoc)
qed

lemma frames_start:
  fixes unmap :: bool
  assumes "reservedEnd div PAGESIZE + 1282 \<le> endd div PAGESIZE"
  defines "s \<equiv> PageFrameAllocator_init reservedEnd PageFrameAllocator_new 0 endd unmap"
  shows "pool_inv s" "blockSize s = PAGESIZE"
    and "bmm_avail s = blockAddress 0 PAGESIZE ` {unat (frame_reserve reservedEnd) * 32 + 2 ..< unat endd div 4096}"
proof -
  let ?s = "BitmapMM_init PageFrameAllocator_new 0 endd False" let ?n = "frame_reserve reservedEnd"
  have i: "s = reserve_blocks ?s ?n"
    by (simp add: s_def PageFrameAllocator_init_def frame_reserve_def Let_def)
  have b: "blockSize ?s = PAGESIZE" "memoryStartAddress ?s = 0" "managerType ?s = PAGE_FRAME_ALLOCATOR"
    by (simp_all add: BitmapMM_init_def MemoryManager_init_def PageFrameAllocator_new_def BitmapMM_new_def Let_def)
  have I: "bmm_inv ?s" "bmm_bitmap ?s = Some (Bitmap_new (endd div PAGESIZE))"
    using bmm_inv_init [of PageFrameAllocator_new 0 endd False]
    by (simp_all add: PageFrameAllocator_new_def BitmapMM_new_def)
  have "unat reservedEnd div 4096 + 1282 < 4294967296" using unat_u32_bound [of reservedEnd] by linarith
  then have "unat reservedEnd div 4096 + 1282 \<le> unat endd div 4096"
    using assms(1) by (simp add: word_le_nat_alt unat_div unat_word_ariths)
  then have "unat ?n * 32 + 2 \<le> unat (endd div PAGESIZE)" by (simp add: unat_frame_reserve unat_div)
  from reserve_blocks_inv [OF I this] show "pool_inv s" "blockSize s = PAGESIZE"
    "bmm_avail s = blockAddress 0 PAGESIZE ` {unat (frame_reserve reservedEnd) * 32 + 2 ..< unat endd div 4096}"
    using b by (simp_all add: i pool_inv_def reserve_blocks_def unat_div)
qed

lemma pool_counter:
  assumes "pool_inv s"
  shows "unat (freeMemory s) = card (bmm_avail s) * unat (blockSize s)"
proof -
  obtain bm where bm: "bmm_bitmap s = Some bm" "unat (freeMemory s) = card (bm_free bm) * unat (blockSize s)"
    and ok: "mgr_ok (memoryStartAddress s) (memoryEndAddress s) (blockSize s) bm"
    using assms by (auto simp: pool_inv_def bmm_inv_def)
  have "inj_on (blockAddress (memoryStartAddress s) (blockSize s)) (bm_free bm)"
    by (rule inj_on_subset [OF blockAddress_inj [OF ok]]) (auto simp: bm_free_def)
  then show ?thesis using bm by (simp add: bmm_avail_def card_image)
qed

lemma pool_run_blockSize:
  assumes "pool_run (take_block m) give_block rs c = (s, held)" "blockSize (fst c) = bs"
  shows "blockSize s = bs"
proof -
  have t: "blockSize s' = blockSize s" if "take_block m s = Some (s', p)" for s s' p
    using that by (auto simp: take_block_def BitmapMM_alloc_def Let_def
        split: sum.splits option.splits if_splits prod.splits)
  have g: "blockSize (give_block s p) = blockSize s" for s p
    by (auto simp: give_block_def BitmapMM_free_def Let_def split: option.split)
  have "blockSize (fst (pool_step (take_block m) give_block r c)) = blockSize (fst c)" for r c
    using t g by (auto simp: pool_step_def split: pool_request.split option.split)
  then have "blockSize (fst (fold (pool_step (take_block m) give_block) rs c)) = blockSize (fst c)" for rs c
    by (induction rs arbitrary: c) simp_all
  then show ?thesis using assms by (metis fst_conv pool_run_def)
qed

lemma finite_bmm_avail [simp]: "finite (bmm_avail s)"
  by (simp add: bmm_avail_def split: option.split)

lemma frame_bounds:
  fixes endd :: u32
  assumes "unat (frame_reserve r) * 32 + 2 \<le> k" "k < unat endd div 4096"
  defines "p \<equiv> blockAddress 0 PAGESIZE k"
  shows "unat p mod 4096 = 0" "r < p" "unat p + 4096 \<le> unat endd"
proof -
  have e: "k * 4096 + 4096 \<le> unat endd" using assms(2) by linarith
  then have "k * 4096 < 4294967296" "k < 4294967296" using unat_u32_bound [of endd] by linarith+
  with e have u: "unat p = k * 4096" "k * 4096 + 4096 \<le> unat endd"
    by (simp_all add: p_def blockAddress_def unat_word_ariths unat_of_nat)
  then show "unat p mod 4096 = 0" "unat p + 4096 \<le> unat endd" by auto
  have "unat r div 4096 + 1 \<le> k" using assms(1) unfolding unat_frame_reserve by linarith
  then show "r < p" unfolding word_less_nat_alt u(1) by linarith
qed

lemma PagingAreaManager_pool:
  "pool_inv PagingAreaManager_new" "blockSize PagingAreaManager_new = PAGESIZE"
proof -
  let ?s = "(BitmapMM_init (BitmapMM_new PAGESIZE True) VIRT_PAGE_MEM_START VIRT_PAGE_MEM_END False)"
  have I: "bmm_inv ?s" "bmm_bitmap ?s = Some (Bitmap_new ((VIRT_PAGE_MEM_END - VIRT_PAGE_MEM_START) div PAGESIZE))"
    using bmm_inv_init [of "BitmapMM_new PAGESIZE True" VIRT_PAGE_MEM_START VIRT_PAGE_MEM_END False]
    by (simp_all add: BitmapMM_new_def VIRT_PAGE_MEM_END_def VIRT_PAGE_MEM_START_def VIRT_IO_START_def)
  then have I': "bmm_inv (?s\<lparr>managerType := PAGING_AREA_MANAGER\<rparr>)" by (simp add: bmm_inv_def)
  have "unat (8 :: u32) * 32 + 2 \<le> unat ((VIRT_PAGE_MEM_END - VIRT_PAGE_MEM_START) div PAGESIZE)"
    by (simp add: VIRT_PAGE_MEM_END_def VIRT_PAGE_MEM_START_def VIRT_IO_START_def)
  from reserve_blocks_inv(1) [OF I' _ this] I(2)
  show "pool_inv PagingAreaManager_new" "blockSize PagingAreaManager_new = PAGESIZE"
    by (simp_all add: PagingAreaManager_new_def pool_inv_def reserve_blocks_def Let_def BitmapMM_init_def
        MemoryManager_init_def BitmapMM_new_def)
qed

section \<open>The lock-free manager is a pool\<close>

definition am_inv :: "atomic_manager \<Rightarrow> bool" where
  "am_inv s \<longleftrightarrow> mgr_ok (am_start s) (am_end s) (am_blockSize s) (am_bitmap s) \<and> 0 < am_start s"

definition am_blocks :: "atomic_manager \<Rightarrow> u32 set" where
  "am_blocks s = blockAddress (am_start s) (am_blockSize s) ` {k. k < unat (bm_blocks (am_bitmap s))}"

definition am_avail :: "atomic_manager \<Rightarrow> u32 set" where
  "am_avail s = blockAddress (am_start s) (am_blockSize s) ` bm_free (am_bitmap s)"

definition am_take :: "atomic_manager \<Rightarrow> (atomic_manager \<times> u32) option" where
  "am_take s = (case AtomicBitmapMM_allocateBlock s of (s', p) \<Rightarrow> if p = 0 then None else Some (s', p))"

lemma am_take_cases:
  assumes "am_inv s"
  shows "(am_avail s = {} \<longrightarrow> am_take s = None)
    \<and> (am_avail s \<noteq> {} \<longrightarrow> (\<exists>s' p. am_take s = Some (s', p) \<and> am_inv s' \<and> am_blocks s' = am_blocks s
          \<and> p \<in> am_avail s \<and> am_avail s' = am_avail s - {p}))"
proof -
  let ?bm = "am_bitmap s"
  have ok: "mgr_ok (am_start s) (am_end s) (am_blockSize s) ?bm" and wf: "bm_wf ?bm" and st: "0 < am_start s"
    using assms by (auto simp: am_inv_def mgr_ok_def)
  obtain bm' b where f: "Bitmap_findAndSet ?bm 1 = (bm', b)" by fastforce
  then have a: "AtomicBitmap_findAndSet ?bm = (bm', b)" using atomic_findAndSet_eq [OF wf] by simp
  from findAndSet_first_fit [OF wf _ f] consider
      (1) "b = bm_blocks ?bm" "bm' = ?bm" "\<forall>k. \<not> bm_free_run ?bm k 1"
    | (2) "b < bm_blocks ?bm" "bm_free_run ?bm (unat b) 1" "bm' = Bitmap_setRange ?bm b 1" by auto
  then show ?thesis
  proof cases
    case 1
    then have "bm_free ?bm = {}" using free_run_one [of ?bm] by blast
    then show ?thesis using 1 a
      by (simp add: am_avail_def am_take_def AtomicBitmapMM_allocateBlock_def Bitmap_getSize_def)
  next
    case 2
    let ?p = "blockAddress (am_start s) (am_blockSize s) (unat b)"
    let ?s = "s\<lparr>am_bitmap := bm', am_freeMemory := am_freeMemory s - am_blockSize s\<rparr>"
    have lt: "unat b < unat (bm_blocks ?bm)" using 2(1) by (simp add: word_less_nat_alt)
    have "?p \<noteq> 0" using blockAddress_index(1) [OF ok lt] st by auto
    then have t: "am_take s = Some (?s, ?p)" using a 2(1,3)
      by (auto simp: am_take_def AtomicBitmapMM_allocateBlock_def Bitmap_getSize_def blockAddress_def)
    have F: "bm_free bm' = bm_free ?bm - {unat b}" "unat b \<in> bm_free ?bm"
      using bm_free_setRange [OF wf, of b 1] 2(2,3) by auto
    then have "am_avail ?s = am_avail s - {?p}" "?p \<in> am_avail s"
      using blockAddress_image_diff [OF ok lt] by (auto simp: am_avail_def)
    moreover have "am_inv ?s" "am_blocks ?s = am_blocks s" using ok st 2(3) by (simp_all add: am_inv_def mgr_ok_def am_blocks_def)
    ultimately show ?thesis using t by auto
  qed
qed

lemma am_give:
  assumes "am_inv s" "p \<in> am_blocks s - am_avail s"
  defines "s' \<equiv> AtomicBitmapMM_freeBlock s p"
  shows "am_inv s' \<and> am_blocks s' = am_blocks s \<and> am_avail s' = insert p (am_avail s)"
proof -
  let ?bm = "am_bitmap s"
  have ok: "mgr_ok (am_start s) (am_end s) (am_blockSize s) ?bm" and wf: "bm_wf ?bm"
    using assms(1) by (auto simp: am_inv_def mgr_ok_def)
  obtain k where k: "k < unat (bm_blocks ?bm)" "p = blockAddress (am_start s) (am_blockSize s) k"
    using assms(2) by (auto simp: am_blocks_def)
  note B = blockAddress_index [OF ok k(1), folded k(2)]
  have s': "s' = s\<lparr>am_bitmap := Bitmap_unset ?bm ((p - am_start s) div am_blockSize s),
      am_freeMemory := am_freeMemory s + am_blockSize s\<rparr>"
    using B(1,2) by (simp add: s'_def AtomicBitmapMM_freeBlock_def AtomicBitmap_unset_eq Let_def)
  have "bm_free (am_bitmap s') = insert k (bm_free ?bm)" using bm_free_unset [OF wf B(4)] B(3) s' by simp
  then show ?thesis using k(2) assms(1) by (simp add: s' am_inv_def mgr_ok_def am_blocks_def am_avail_def)
qed

interpretation apool: block_pool am_inv am_blocks am_avail am_take AtomicBitmapMM_freeBlock
proof unfold_locales
  show "am_avail s \<subseteq> am_blocks s" for s by (auto simp: am_avail_def am_blocks_def bm_free_def)
qed (use am_take_cases am_give in blast)+

section \<open>Pages of the IO memory manager\<close>

definition io_inv :: "io_manager \<Rightarrow> bool" where
  "io_inv s \<longleftrightarrow> bmm_inv s \<and> blockSize s = PAGESIZE \<and> managerType s = MISC \<and> \<not> zeroMemory s \<and> 0 < memoryStartAddress s
     \<and> hm_inv ptr_hash (ioMemoryMap s) \<and> io_lock s = SPINLOCK_UNLOCK"

lemma io_inv_new: "io_inv IOMemoryManager_new"
  using bmm_inv_init(1) [of "bitmap_manager.extend (BitmapMM_new PAGESIZE False)
      \<lparr>ioMemoryMap = HashMap_default, io_lock = Spinlock_new\<rparr>" VIRT_IO_START VIRT_IO_END True]
    hm_inv_new [of 47 ptr_hash]
  by (simp add: io_inv_def IOMemoryManager_new_def BitmapMM_init_def MemoryManager_init_def BitmapMM_new_def
      bitmap_manager.defs Let_def VIRT_IO_START_def VIRT_IO_END_def Spinlock_new_def HashMap_default_def)

lemma blockAddress_add: "blockAddress start bs b + i * bs = blockAddress start bs (b + unat (i :: u32))"
  by (simp add: blockAddress_def algebra_simps)

text \<open>The loop of \<open>free\<close> unsets the pages of the block one by one.\<close>

lemma free_pages_run:
  assumes "bmm_inv s" "bmm_bitmap s = Some bm" "blockSize s = PAGESIZE"
    and "b + unat i + n \<le> unat (bm_blocks bm)" "{b + unat i ..< b + unat i + n} \<inter> bm_free bm = {}"
  defines "p \<equiv> blockAddress (memoryStartAddress s) PAGESIZE b"
  shows "\<exists>bm' fm. free_pages n i p s = Inr (s\<lparr>bmm_bitmap := Some bm', freeMemory := fm\<rparr>,
             map (\<lambda>j. p + of_nat j * PAGESIZE) [unat i ..< unat i + n])
           \<and> bmm_inv (s\<lparr>bmm_bitmap := Some bm', freeMemory := fm\<rparr>)
           \<and> bm_free bm' = bm_free bm \<union> {b + unat i ..< b + unat i + n}"
  using assms(1-5) unfolding p_def
proof (induction n arbitrary: i s bm)
  case 0
  then have e: "s\<lparr>bmm_bitmap := Some bm\<rparr> = s" by simp
  show ?case using 0 by (intro exI [of _ bm] exI [of _ "freeMemory s"]) (simp add: e)
next
  case (Suc n)
  let ?k = "b + unat i" let ?p = "blockAddress (memoryStartAddress s) PAGESIZE b"
  have k: "?k < unat (bm_blocks bm)" using Suc.prems(4) by simp
  have "?k \<notin> bm_free bm" using Suc.prems(5) by (simp add: disjoint_iff)
  then have g: "bm_get bm ?k" using k by (simp add: bm_free_def)
  have lt: "?k < 4294967296" "unat i + 1 < 4294967296" using Suc.prems(4) unat_u32_bound [of "bm_blocks bm"] by linarith+
  then have i1: "unat (i + 1) = unat i + 1" by (simp add: unat_word_ariths)
  obtain s1 where s1: "BitmapMM_free s (?p + i * PAGESIZE) = Inr s1" "bmm_inv s1"
    "s1 = s\<lparr>bmm_bitmap := Some (Bitmap_unset bm (of_nat ?k)), freeMemory := freeMemory s + blockSize s\<rparr>"
    using bmm_free [OF Suc.prems(1,2) k g] Suc.prems(3) blockAddress_add [of "memoryStartAddress s" PAGESIZE b i] by metis
  have wf: "bm_wf bm" using Suc.prems(1,2) by (auto simp: bmm_inv_def mgr_ok_def)
  have F: "bm_free (Bitmap_unset bm (of_nat ?k)) = insert ?k (bm_free bm)"
    using bm_free_unset [OF wf, of "of_nat ?k"] k lt by (simp add: word_less_nat_alt del: of_nat_add)
  have "{b + unat (i + 1) ..< b + unat (i + 1) + n} \<inter> bm_free (Bitmap_unset bm (of_nat ?k)) = {}"
    using Suc.prems(5) i1 unfolding F by (auto simp: disjoint_iff)
  then obtain bm' fm where r: "free_pages n (i + 1) ?p s1 = Inr (s1\<lparr>bmm_bitmap := Some bm', freeMemory := fm\<rparr>,
      map (\<lambda>j. ?p + of_nat j * PAGESIZE) [unat (i + 1) ..< unat (i + 1) + n])"
    "bmm_inv (s1\<lparr>bmm_bitmap := Some bm', freeMemory := fm\<rparr>)"
    "bm_free bm' = bm_free (Bitmap_unset bm (of_nat ?k)) \<union> {b + unat (i + 1) ..< b + unat (i + 1) + n}"
    using Suc.IH [OF s1(2), of "Bitmap_unset bm (of_nat ?k)" "i + 1"] s1(3) Suc.prems(3,4) i1 by auto
  have "bm_free bm' = bm_free bm \<union> {?k ..< ?k + Suc n}" unfolding r(3) F i1 by auto
  moreover have "s1\<lparr>bmm_bitmap := Some bm', freeMemory := fm\<rparr> = s\<lparr>bmm_bitmap := Some bm', freeMemory := fm\<rparr>"
    using s1(3) by simp
  moreover have "[unat i ..< unat i + Suc n] = unat i # [unat (i + 1) ..< unat (i + 1) + n]"
    unfolding i1 by (simp add: upt_conv_Cons)
  ultimately show ?case using s1(1) r(1,2) by (intro exI [of _ bm'] exI [of _ fm]) simp
qed

lemma bmm_inv_io [simp]:
  "bmm_inv (s\<lparr>io_lock := l\<rparr>) = bmm_inv s" "bmm_inv (s\<lparr>ioMemoryMap := h\<rparr>) = bmm_inv s"
  by (simp_all add: bmm_inv_def)

lemma io_alloc:
  assumes "io_inv s" "0 < sz" "IOMemoryManager_alloc s m sz = Inr (s1, m1, p)" "p \<noteq> 0"
  obtains bm b where "bmm_bitmap s = Some bm" "b < bm_blocks bm" "m1 = m"
    "bm_free_run bm (unat b) (unat (block_count sz PAGESIZE))"
    "p = blockAddress (memoryStartAddress s) PAGESIZE (unat b)"
    "bmm_bitmap s1 = Some (Bitmap_setRange bm b (block_count sz PAGESIZE))"
    "memoryStartAddress s1 = memoryStartAddress s" "memoryEndAddress s1 = memoryEndAddress s" "io_inv s1"
    "hm_abs ptr_hash (ioMemoryMap s1) = (hm_abs ptr_hash (ioMemoryMap s))(p \<mapsto> block_count sz PAGESIZE)"
proof -
  let ?s = "s\<lparr>io_lock := SPINLOCK_LOCK\<rparr>"
  have I: "bmm_inv s" "blockSize s = PAGESIZE" "managerType s = MISC" "hm_inv ptr_hash (ioMemoryMap s)"
    "io_lock s = SPINLOCK_UNLOCK" "0 < memoryStartAddress s" "\<not> zeroMemory s" using assms(1) by (auto simp: io_inv_def)
  have I': "bmm_inv ?s" using I(1) by simp
  obtain bm where bm: "bmm_bitmap s = Some bm" using I(1) by (auto simp: bmm_inv_def)
  have bm': "bmm_bitmap ?s = Some bm" using bm by simp
  have acq: "Spinlock_acquire (io_lock s) = Inr SPINLOCK_LOCK" using I(5) by (simp add: atomic_defs)
  obtain s2 m2 q where a: "BitmapMM_alloc ?s m sz = Inr (s2, m2, q)"
    using assms(3) acq by (auto simp: IOMemoryManager_alloc_def andThen_def split: sum.splits)
  show thesis
  proof (rule alloc_cases [OF I' bm' assms(2), of m])
    assume "BitmapMM_alloc ?s m sz = (case managerType ?s of PAGING_AREA_MANAGER \<Rightarrow> Inl (Thrown OUT_OF_PAGE_MEMORY)
         | PAGE_FRAME_ALLOCATOR \<Rightarrow> Inl (Thrown OUT_OF_PHYS_MEMORY) | MISC \<Rightarrow> Inr (?s, m, 0))"
    then have "p = 0" using assms(3) acq I(3) by (simp add: IOMemoryManager_alloc_def)
    then show thesis using assms(4) by simp
  next
    fix b :: u32 let ?n = "block_count sz PAGESIZE" let ?p = "blockAddress (memoryStartAddress s) PAGESIZE (unat b)"
    assume b: "b < bm_blocks bm" "bm_free_run bm (unat b) (unat (block_count sz (blockSize ?s)))"
      and r: "BitmapMM_alloc ?s m sz = Inr (?s\<lparr>bmm_bitmap := Some (Bitmap_setRange bm b (block_count sz (blockSize ?s))),
           freeMemory := freeMemory ?s - blockSize ?s * block_count sz (blockSize ?s)\<rparr>,
         (if zeroMemory ?s then memset m (blockAddress (memoryStartAddress ?s) (blockSize ?s) (unat b)) 0
            (block_count sz (blockSize ?s) * blockSize ?s) else m),
         blockAddress (memoryStartAddress ?s) (blockSize ?s) (unat b))"
    let ?s2 = "?s\<lparr>bmm_bitmap := Some (Bitmap_setRange bm b ?n), freeMemory := freeMemory s - PAGESIZE * ?n\<rparr>"
    have ok: "mgr_ok (memoryStartAddress s) (memoryEndAddress s) PAGESIZE bm"
      using I(1,2) bm by (auto simp: bmm_inv_def)
    have p: "?p \<noteq> 0" using blockAddress_index(1) [OF ok, of "unat b"] b(1) I(6) by (auto simp: word_less_nat_alt)
    obtain h where h: "HashMap_put ptr_hash (ioMemoryMap s) ?p ?n = Inr h" "hm_inv ptr_hash h"
      "hm_abs ptr_hash h = (hm_abs ptr_hash (ioMemoryMap s))(?p \<mapsto> ?n)" using hmap.put_lookup [OF I(4)] by blast
    have "IOMemoryManager_alloc s m sz = Inr (?s2\<lparr>ioMemoryMap := h, io_lock := SPINLOCK_UNLOCK\<rparr>, m, ?p)"
      using acq r h(1) p I(2,7) by (simp add: IOMemoryManager_alloc_def atomic_defs)
    then have e: "s1 = ?s2\<lparr>ioMemoryMap := h, io_lock := SPINLOCK_UNLOCK\<rparr>" "m1 = m" "p = ?p" using assms(3) by auto
    have "bmm_inv ?s2" using bmm_inv_take [OF I' bm', of b ?n] b(2) I(2) by simp
    then have "bmm_inv s1" using e(1) by (simp add: bmm_inv_def)
    then have "io_inv s1" using I(2-7) h(2) e(1) by (simp add: io_inv_def)
    then show thesis using that [OF bm b(1)] b(2) e h(3) I(2) by simp
  qed
qed

lemma io_free:
  assumes "io_inv s" "bmm_bitmap s = Some bm" "unat b + unat n \<le> unat (bm_blocks bm)" "0 < n"
    and "{unat b ..< unat b + unat n} \<inter> bm_free bm = {}"
    and "hm_abs ptr_hash (ioMemoryMap s) p = Some n" "p = blockAddress (memoryStartAddress s) PAGESIZE (unat b)"
  shows "\<exists>s' bm'. IOMemoryManager_free s p = Inr (s', map (\<lambda>j. p + of_nat j * PAGESIZE) [0 ..< unat n])
     \<and> bmm_bitmap s' = Some bm' \<and> bm_free bm' = bm_free bm \<union> {unat b ..< unat b + unat n}
     \<and> hm_abs ptr_hash (ioMemoryMap s') = (hm_abs ptr_hash (ioMemoryMap s))(p := None) \<and> io_inv s'"
proof -
  have I: "bmm_inv s" "blockSize s = PAGESIZE" "hm_inv ptr_hash (ioMemoryMap s)" "io_lock s = SPINLOCK_UNLOCK"
    using assms(1) by (auto simp: io_inv_def)
  have ok: "mgr_ok (memoryStartAddress s) (memoryEndAddress s) PAGESIZE bm" using I(1,2) assms(2) by (auto simp: bmm_inv_def)
  have lt: "unat b < unat (bm_blocks bm)" using assms(3,4) by (simp add: word_less_nat_alt)
  note B = blockAddress_index(1,2) [OF ok lt, folded assms(7)]
  obtain h where h: "HashMap_get ptr_hash (ioMemoryMap s) p = Inr (h, n)" "hm_inv ptr_hash h"
    "hm_abs ptr_hash h = hm_abs ptr_hash (ioMemoryMap s)" using hmap.get_lookup [OF I(3) assms(6)] by blast
  let ?s = "s\<lparr>ioMemoryMap := h, io_lock := SPINLOCK_LOCK\<rparr>"
  have s: "bmm_inv ?s" "bmm_bitmap ?s = Some bm" "blockSize ?s = PAGESIZE" "memoryStartAddress ?s = memoryStartAddress s"
    using I assms(2) by simp_all
  have r0: "unat b + unat (0 :: u32) + unat n \<le> unat (bm_blocks bm)"
    "{unat b + unat (0 :: u32) ..< unat b + unat (0 :: u32) + unat n} \<inter> bm_free bm = {}" using assms(3,5) by simp_all
  obtain bm' fm where f: "free_pages (unat n) 0 p ?s = Inr (?s\<lparr>bmm_bitmap := Some bm', freeMemory := fm\<rparr>,
        map (\<lambda>j. p + of_nat j * PAGESIZE) [0 ..< unat n])"
      "bmm_inv (?s\<lparr>bmm_bitmap := Some bm', freeMemory := fm\<rparr>)"
      "bm_free bm' = bm_free bm \<union> {unat b ..< unat b + unat n}"
    using free_pages_run [OF s(1-3) r0, unfolded s(4), folded assms(7)] by auto
  obtain h' where h': "HashMap_remove ptr_hash h p = Inr (h', n)" "hm_inv ptr_hash h'"
    "hm_abs ptr_hash h' = (hm_abs ptr_hash h)(p := None)" using hmap.remove_lookup [OF h(2), of p n] h(3) assms(6) by auto
  let ?s' = "s\<lparr>bmm_bitmap := Some bm', freeMemory := fm, ioMemoryMap := h', io_lock := SPINLOCK_UNLOCK\<rparr>"
  have "IOMemoryManager_free s p = Inr (?s', map (\<lambda>j. p + of_nat j * PAGESIZE) [0 ..< unat n])"
    using B h(1) f(1) h'(1) I(4) by (simp add: IOMemoryManager_free_def atomic_defs)
  moreover have "io_inv ?s'" using assms(1) f(2) h'(2) by (simp add: io_inv_def bmm_inv_def)
  ultimately show ?thesis using f(3) h'(3) h(3) by (intro exI [of _ ?s'] exI [of _ bm']) simp
qed

section \<open>Static heap\<close>

definition sh_inv :: "static_heap \<Rightarrow> bool" where
  "sh_inv s \<longleftrightarrow> unat (currentPosition s) + unat (freeMemory s) = unat (memoryEndAddress s) \<and> sh_lock s = SPINLOCK_UNLOCK"

text \<open>A sequence of requests, with the blocks that were handed out.\<close>

fun static_allocs :: "static_heap \<Rightarrow> u32 list \<Rightarrow> (u32 \<times> u32) list outcome" where
  "static_allocs s [] = Inr []"
| "static_allocs s (sz # szs) =
     andThen (StaticHeap_alloc s sz) (\<lambda>(s', p).
     andThen (static_allocs s' szs) (\<lambda>bs. Inr (if p = 0 then bs else (p, sz) # bs)))"

lemma static_alloc:
  assumes "sh_inv s" "0 < currentPosition s"
  obtains (full) "freeMemory s < sz" "StaticHeap_alloc s sz = Inr (s, 0)"
  | (got) s' where "StaticHeap_alloc s sz = Inr (s', currentPosition s)" "sh_inv s'"
      "unat (currentPosition s') = unat (currentPosition s) + unat sz" "memoryEndAddress s' = memoryEndAddress s"
proof (cases "freeMemory s < sz")
  case True
  then show thesis using full by (simp add: StaticHeap_alloc_def StaticHeap_alloc_aligned_def)
next
  case False
  let ?s = "s\<lparr>currentPosition := currentPosition s + sz, freeMemory := freeMemory s - sz\<rparr>"
  have l: "sh_lock s = 0" and e: "unat (currentPosition s) + unat (freeMemory s) = unat (memoryEndAddress s)"
    using assms(1) by (simp_all add: sh_inv_def)
  have le: "unat sz \<le> unat (freeMemory s)" using False by (simp add: word_less_nat_alt)
  then have "unat (currentPosition s) + unat sz < 4294967296"
    using e unat_u32_bound [of "memoryEndAddress s"] by linarith
  then have c: "unat (currentPosition s + sz) = unat (currentPosition s) + unat sz" by (simp add: unat_word_ariths)
  have "unat (freeMemory s - sz) = unat (freeMemory s) - unat sz" using le by (simp add: unat_sub_u32 word_le_nat_alt)
  then have "sh_inv ?s" using c e le l by (simp add: sh_inv_def)
  moreover have "StaticHeap_alloc s sz = Inr (?s, currentPosition s)"
    using False l by (simp add: StaticHeap_alloc_def StaticHeap_alloc_aligned_def atomic_defs alignUp_def Let_def)
  ultimately show thesis using got [of ?s] c by simp
qed

lemma static_allocs_run:
  assumes "sh_inv s" "0 < currentPosition s"
  shows "\<exists>bs. static_allocs s szs = Inr bs
    \<and> sorted_wrt (\<lambda>b c. unat (fst b) + unat (snd b) \<le> unat (fst c)) bs
    \<and> (\<forall>(p, sz) \<in> set bs. currentPosition s \<le> p \<and> unat p + unat sz \<le> unat (memoryEndAddress s))"
  using assms
proof (induction szs arbitrary: s)
  case (Cons sz szs)
  show ?case
  proof (rule static_alloc [OF Cons.prems, of sz])
    assume "StaticHeap_alloc s sz = Inr (s, 0)"
    then show ?thesis using Cons.IH [OF Cons.prems] by auto
  next
    fix s' assume s': "StaticHeap_alloc s sz = Inr (s', currentPosition s)" "sh_inv s'"
      "unat (currentPosition s') = unat (currentPosition s) + unat sz" "memoryEndAddress s' = memoryEndAddress s"
    have pos: "0 < currentPosition s'" and le: "currentPosition s \<le> currentPosition s'"
      using Cons.prems(2) s'(3) by (auto simp: word_less_nat_alt word_le_nat_alt)
    obtain bs where bs: "static_allocs s' szs = Inr bs"
      "sorted_wrt (\<lambda>b c. unat (fst b) + unat (snd b) \<le> unat (fst c)) bs"
      "\<forall>(p, sz) \<in> set bs. currentPosition s' \<le> p \<and> unat p + unat sz \<le> unat (memoryEndAddress s)"
      using Cons.IH [OF s'(2) pos] s'(4) by auto
    have "unat (currentPosition s) + unat sz \<le> unat (memoryEndAddress s)" using s' by (auto simp: sh_inv_def)
    moreover have "static_allocs s (sz # szs) = Inr ((currentPosition s, sz) # bs)" using s'(1) bs(1) Cons.prems(2) by auto
    moreover have "\<forall>c \<in> set bs. unat (currentPosition s) + unat sz \<le> unat (fst c)"
      using bs(3) s'(3) by (auto simp: word_le_nat_alt)
    ultimately show ?thesis using bs(2,3) le by (intro exI [of _ "(currentPosition s, sz) # bs"]) fastforce
  qed
qed simp

text \<open>The padding of an aligned request is not counted, so an aligned block can end behind the area.\<close>

lemma static_heap_aligned_overruns:
  "StaticHeap_alloc_aligned (StaticHeap_init s0 0x1001 0x2001 u\<lparr>sh_lock := 0\<rparr>) 0x1000 0x1000
     = Inr (s, p) \<Longrightarrow> p = 0x2000 \<and> currentPosition s = 0x3000 \<and> memoryEndAddress s = 0x2001"
  by (auto simp: StaticHeap_alloc_aligned_def StaticHeap_init_def MemoryManager_init_def atomic_defs alignUp_def Let_def)

section \<open>Properties\<close>

text \<open>C8. The page frame allocator never hands out a frame twice. However clients allocate and free
  single frames after \<open>init\<close>, the frames they hold are distinct, page aligned, above the memory
  reserved by the boot loader and below the end of physical memory, and \<open>freeMemory\<close> is the size of
  all frames that are not held: none gets lost.\<close>

theorem page_frames_exclusive:
  assumes "reservedEnd div PAGESIZE + 1282 \<le> endd div PAGESIZE"
    and "pool_run (take_block m) give_block rs
      (PageFrameAllocator_init reservedEnd PageFrameAllocator_new 0 endd unmap, []) = (s, held)"
  shows "distinct held
    \<and> (\<forall>p \<in> set held. unat p mod 4096 = 0 \<and> reservedEnd < p \<and> unat p + 4096 \<le> unat endd)
    \<and> unat (freeMemory s) + 4096 * length held
      = unat (freeMemory (PageFrameAllocator_init reservedEnd PageFrameAllocator_new 0 endd unmap))"
proof -
  let ?s = "PageFrameAllocator_init reservedEnd PageFrameAllocator_new 0 endd unmap"
  note S = frames_start [OF assms(1), of unmap]
  from bpool.run_partition [OF S(1) assms(2)] have R: "pool_inv s" "distinct held"
    "set held \<inter> bmm_avail s = {}" "set held \<union> bmm_avail s = bmm_avail ?s" by auto
  have B: "\<forall>p \<in> set held. unat p mod 4096 = 0 \<and> reservedEnd < p \<and> unat p + 4096 \<le> unat endd"
  proof
    fix p assume "p \<in> set held"
    then have "p \<in> bmm_avail ?s" using R(4) by blast
    then obtain k where "p = blockAddress 0 PAGESIZE k" "unat (frame_reserve reservedEnd) * 32 + 2 \<le> k" "k < unat endd div 4096"
      unfolding S(3) by auto
    then show "unat p mod 4096 = 0 \<and> reservedEnd < p \<and> unat p + 4096 \<le> unat endd"
      using frame_bounds [of reservedEnd k endd] by simp
  qed
  have "card (bmm_avail ?s) = length held + card (bmm_avail s)"
    using R by (metis card_Un_disjoint distinct_card finite_bmm_avail finite_set)
  moreover have "blockSize s = PAGESIZE" by (rule pool_run_blockSize [OF assms(2)]) (simp add: S(2))
  ultimately show ?thesis using pool_counter [OF R(1)] pool_counter [OF S(1)] S(2) R(2) B by simp
qed

theorem page_frames_exclusive_witness:
  "\<exists>s held. pool_run (take_block (\<lambda>a. 0)) give_block [Take, Take, Give 0x502000]
      (PageFrameAllocator_init 0 PageFrameAllocator_new 0 0x1000000 False, []) = (s, held) \<and> distinct held"
proof (cases "pool_run (take_block (\<lambda>a. 0)) give_block [Take, Take, Give 0x502000]
      (PageFrameAllocator_init 0 PageFrameAllocator_new 0 0x1000000 False, [])")
  case (Pair s held)
  then show ?thesis using page_frames_exclusive [OF _ Pair] by simp
qed

text \<open>C33. The IO memory manager gives back what it handed out. Freeing the pages of an allocation
  succeeds, asks \<open>Management\<close> to unmap exactly these pages, and restores the bitmap, the amount
  of free memory and the record of allocations.\<close>

theorem io_alloc_free_roundtrip:
  assumes "io_inv s" "0 < sz" "IOMemoryManager_alloc s m sz = Inr (s1, m1, p)" "p \<noteq> 0"
  shows "\<exists>s2. IOMemoryManager_free s1 p
        = Inr (s2, map (\<lambda>i. p + of_nat i * PAGESIZE) [0 ..< unat (block_count sz PAGESIZE)])
    \<and> map_option bm_free (bmm_bitmap s2) = map_option bm_free (bmm_bitmap s)
    \<and> freeMemory s2 = freeMemory s \<and> io_inv s2
    \<and> hm_abs ptr_hash (ioMemoryMap s2) = (hm_abs ptr_hash (ioMemoryMap s))(p := None)"
proof (rule io_alloc [OF assms])
  fix bm b let ?n = "block_count sz PAGESIZE"
  assume a: "bmm_bitmap s = Some bm" "b < bm_blocks bm" "bm_free_run bm (unat b) (unat ?n)"
    "p = blockAddress (memoryStartAddress s) PAGESIZE (unat b)" "bmm_bitmap s1 = Some (Bitmap_setRange bm b ?n)"
    "memoryStartAddress s1 = memoryStartAddress s" "io_inv s1"
    "hm_abs ptr_hash (ioMemoryMap s1) = (hm_abs ptr_hash (ioMemoryMap s))(p \<mapsto> ?n)"
  have wf: "bm_wf bm" using assms(1) a(1) by (auto simp: io_inv_def bmm_inv_def mgr_ok_def)
  note F = bm_free_setRange [OF wf a(3)]
  have le: "unat b + unat ?n \<le> unat (bm_blocks (Bitmap_setRange bm b ?n))" using a(3) by (simp add: bm_free_run_def)
  obtain s2 bm2 where r: "IOMemoryManager_free s1 p = Inr (s2, map (\<lambda>j. p + of_nat j * PAGESIZE) [0 ..< unat ?n])"
    "bmm_bitmap s2 = Some bm2" "bm_free bm2 = bm_free (Bitmap_setRange bm b ?n) \<union> {unat b ..< unat b + unat ?n}"
    "hm_abs ptr_hash (ioMemoryMap s2) = (hm_abs ptr_hash (ioMemoryMap s1))(p := None)" "io_inv s2"
    using io_free [OF a(7,5) le, of p] block_count_pos(2) [OF _ assms(2), of PAGESIZE] F(1) a(4,6,8) by auto
  have f: "bm_free bm2 = bm_free bm" using r(3) F by blast
  then have "unat (freeMemory s2) = unat (freeMemory s)"
    using assms(1) r(2,5) a(1) by (auto simp: io_inv_def bmm_inv_def)
  then have "freeMemory s2 = freeMemory s" by (simp add: u32_eq_iff)
  then show ?thesis using r f a(1,8) by auto
qed

definition small_io :: io_manager where
  "small_io = BitmapMM_init (bitmap_manager.extend (BitmapMM_new PAGESIZE False)
     \<lparr>ioMemoryMap = HashMap_default, io_lock = Spinlock_new\<rparr>) 0x1000 0x4000 True"

lemma small_io_inv: "io_inv small_io"
  using bmm_inv_init(1) [of "bitmap_manager.extend (BitmapMM_new PAGESIZE False)
      \<lparr>ioMemoryMap = HashMap_default, io_lock = Spinlock_new\<rparr>" "0x1000" "0x4000" True]
    hm_inv_new [of 47 ptr_hash]
  by (simp add: io_inv_def small_io_def BitmapMM_init_def MemoryManager_init_def BitmapMM_new_def
      bitmap_manager.defs Let_def Spinlock_new_def HashMap_default_def)

lemma small_io_alloc:
  "(case IOMemoryManager_alloc small_io (\<lambda>a. 0) 5000 of Inl e \<Rightarrow> 0 | Inr (s, m, p) \<Rightarrow> p) = 0x1000"
  by code_simp

theorem io_alloc_free_roundtrip_witness:
  "\<exists>s1 m1 s2. IOMemoryManager_alloc small_io (\<lambda>a. 0) 5000 = Inr (s1, m1, 0x1000)
     \<and> IOMemoryManager_free s1 0x1000 = Inr (s2, [0x1000, 0x2000]) \<and> freeMemory s2 = freeMemory small_io"
proof -
  obtain s1 m1 where a: "IOMemoryManager_alloc small_io (\<lambda>a. 0) 5000 = Inr (s1, m1, 0x1000)"
    using small_io_alloc by (auto split: sum.splits prod.splits)
  have "unat (block_count 5000 PAGESIZE) = 2" by (simp add: block_count_def)
  then have "[0 ..< unat (block_count 5000 PAGESIZE)] = [0, 1]" by (simp add: upt_rec)
  then show ?thesis using a io_alloc_free_roundtrip [OF small_io_inv _ a] by auto
qed

text \<open>C34. The static heap stays inside its area: for every sequence of unaligned requests the blocks it
  hands out lie between start and end of the area, in ascending order and without overlap.\<close>

theorem static_heap_bounds:
  assumes "0 < start" "start \<le> endd" "sh_lock s = Spinlock_new"
  shows "\<exists>bs. static_allocs (StaticHeap_init s start endd unmap) szs = Inr bs
    \<and> sorted_wrt (\<lambda>b c. unat (fst b) + unat (snd b) \<le> unat (fst c)) bs
    \<and> (\<forall>(p, sz) \<in> set bs. start \<le> p \<and> unat p + unat sz \<le> unat endd)"
proof -
  have "sh_inv (StaticHeap_init s start endd unmap)"
    using assms by (simp add: sh_inv_def StaticHeap_init_def MemoryManager_init_def Spinlock_new_def unat_sub_u32 word_le_nat_alt)
  moreover have "currentPosition (StaticHeap_init s start endd unmap) = start"
    "memoryEndAddress (StaticHeap_init s start endd unmap) = endd"
    by (simp_all add: StaticHeap_init_def MemoryManager_init_def)
  ultimately show ?thesis using static_allocs_run [of "StaticHeap_init s start endd unmap" szs] assms(1) by simp
qed

theorem static_heap_bounds_witness:
  "\<exists>bs. static_allocs (StaticHeap_init \<lparr>memoryStartAddress = 0, memoryEndAddress = 0, freeMemory = 0, doUnmap = False,
       currentPosition = 0, sh_lock = Spinlock_new\<rparr> 0x1000 0x1010 False) [8, 16, 8] = Inr bs
     \<and> bs = [(0x1000, 8), (0x1008, 8)]
     \<and> sorted_wrt (\<lambda>b c. unat (fst b) + unat (snd b) \<le> unat (fst c)) bs"
  using static_heap_bounds [of "0x1000" "0x1010" "\<lparr>memoryStartAddress = 0, memoryEndAddress = 0, freeMemory = 0,
      doUnmap = False, currentPosition = 0, sh_lock = Spinlock_new\<rparr>" False "[8, 16, 8]"]
  by (simp add: StaticHeap_alloc_def StaticHeap_alloc_aligned_def StaticHeap_init_def MemoryManager_init_def
      atomic_defs alignUp_def Let_def)

end
