(* ===== verification/Page_Directories.thy ===== *)
theory Page_Directories
  imports Bitmap_Managers
begin

text \<open>
  \<open>kernel/memory/PageDirectory\<close>. A page directory is three pointers; the directory itself, the array
  of the virtual addresses of its tables and the tables live in memory and are accessed through the
  pointers, as in the code, so that directories share the tables of the kernel space. An
  entry is a 32-bit word at an aligned address. The registers and the TLB of the processor are not part of the
  model: \<open>load_page_directory\<close> and \<open>enable_4KB_paging\<close> have no counterpart.
\<close>

section \<open>Constants of \<open>Paging.h\<close>\<close>

abbreviation PAGE_PRESENT :: u32 where "PAGE_PRESENT \<equiv> 0x001"
abbreviation PAGE_READ_WRITE :: u32 where "PAGE_READ_WRITE \<equiv> 0x002"
abbreviation PAGE_ACCESS_ALL :: u32 where "PAGE_ACCESS_ALL \<equiv> 0x004"
abbreviation PAGE_NO_CACHING :: u32 where "PAGE_NO_CACHING \<equiv> 0x010"
abbreviation PAGE_WRITE_PROTECTED :: u32 where "PAGE_WRITE_PROTECTED \<equiv> 0x200"

definition GET_PD_IDX :: "u32 \<Rightarrow> u32" where
  "GET_PD_IDX x = drop_bit 22 x"

definition GET_PT_IDX :: "u32 \<Rightarrow> u32" where
  "GET_PT_IDX x = drop_bit 12 x AND 0x3FF"

section \<open>State and accesses\<close>

record page_directory =
  pageDirectory :: u32
  physPageDirectoryAddress :: u32
  virtTableAddresses :: u32

text \<open>The expressions \<open>pageDirectory[idx]\<close>, \<open>virtTableAddresses[idx]\<close> and
  \<open>*((uint32_t *) virtTableAddresses[idx] + i)\<close>.\<close>

definition dir_entry :: "memory \<Rightarrow> page_directory \<Rightarrow> u32 \<Rightarrow> u32" where
  "dir_entry m d idx = load32 m (pageDirectory d + 4 * idx)"

definition table_address :: "memory \<Rightarrow> page_directory \<Rightarrow> u32 \<Rightarrow> u32" where
  "table_address m d idx = load32 m (virtTableAddresses d + 4 * idx)"

definition slot_address :: "memory \<Rightarrow> page_directory \<Rightarrow> u32 \<Rightarrow> u32 \<Rightarrow> u32" where
  "slot_address m d idx i = table_address m d idx + 4 * i"

definition get_slot :: "memory \<Rightarrow> page_directory \<Rightarrow> u32 \<Rightarrow> u32 \<Rightarrow> u32" where
  "get_slot m d idx i = load32 m (slot_address m d idx i)"

definition put_slot :: "memory \<Rightarrow> page_directory \<Rightarrow> u32 \<Rightarrow> u32 \<Rightarrow> u32 \<Rightarrow> memory" where
  "put_slot m d idx i v = store32 m (slot_address m d idx i) v"

section \<open>Constructors\<close>

text \<open>The directory entries and table addresses of the 256 tables of the kernel space.\<close>

fun kernel_tables :: "nat \<Rightarrow> u32 \<Rightarrow> u32 \<Rightarrow> u32 \<Rightarrow> page_directory \<Rightarrow> memory \<Rightarrow> memory" where
  "kernel_tables 0 idx i reservedEnd d m = m"
| "kernel_tables (Suc n) idx i reservedEnd d m =
     (let m1 = store32 m (pageDirectory d + 4 * idx)
                 ((reservedEnd + PAGESIZE * 1024 + i * PAGESIZE) OR PAGE_PRESENT OR PAGE_READ_WRITE OR PAGE_ACCESS_ALL);
          m2 = store32 m1 (virtTableAddresses d + 4 * idx) (VIRT_PAGE_MEM_START + i * PAGESIZE)
      in kernel_tables n (idx + 1) (i + 1) reservedEnd d m2)"

text \<open>The mappings of the reserved memory and the initial heap. The counter has 16 bits: for more than
  65535 pages the loop does not end.\<close>

fun reserved_pages :: "nat \<Rightarrow> u16 \<Rightarrow> u32 \<Rightarrow> u32 \<Rightarrow> page_directory \<Rightarrow> memory \<Rightarrow> memory outcome" where
  "reserved_pages 0 i pageCount reservedEnd d m = Inl Spins"
| "reserved_pages (Suc n) i pageCount reservedEnd d m =
     (if ucast i < pageCount then
        let idx = KERNEL_START div (PAGESIZE * 1024); physAddr = ucast i * PAGESIZE;
            m1 = put_slot m d idx (ucast i) (physAddr OR PAGE_READ_WRITE OR PAGE_PRESENT OR PAGE_ACCESS_ALL);
            m2 = (if ucast i < reservedEnd div PAGESIZE
                  then put_slot m1 d idx (ucast i) (get_slot m1 d idx (ucast i) OR PAGE_WRITE_PROTECTED) else m1)
        in reserved_pages n (i + 1) pageCount reservedEnd d m2
      else Inr m)"

fun paging_area_pages :: "nat \<Rightarrow> u32 \<Rightarrow> u32 \<Rightarrow> page_directory \<Rightarrow> memory \<Rightarrow> memory" where
  "paging_area_pages 0 i reservedEnd d m = m"
| "paging_area_pages (Suc n) i reservedEnd d m =
     (let idx = VIRT_PAGE_MEM_START div (PAGESIZE * 1024);
          physAddr = reservedEnd + PAGESIZE * 1024 + i * PAGESIZE
      in paging_area_pages n (i + 1) reservedEnd d
           (put_slot m d idx i (physAddr OR PAGE_PRESENT OR PAGE_READ_WRITE OR PAGE_WRITE_PROTECTED)))"

definition PageDirectory_base :: "u32 \<Rightarrow> memory \<Rightarrow> (memory \<times> page_directory) outcome" where
  "PageDirectory_base reservedEnd m =
     (let pageCount = reservedEnd div PAGESIZE + 1024;
          m0 = memset m VIRT_PAGE_MEM_START 0 (PAGESIZE * 1024);
          d = \<lparr>pageDirectory = VIRT_PAGE_MEM_START + 0x100000,
               physPageDirectoryAddress = reservedEnd + PAGESIZE * 1024 + 0x100000,
               virtTableAddresses = VIRT_PAGE_MEM_START + 0x101000\<rparr>;
          m1 = kernel_tables 256 (KERNEL_START div (PAGESIZE * 1024)) 0 reservedEnd d m0
      in andThen (reserved_pages 65537 0 pageCount reservedEnd d m1) (\<lambda>m2.
         Inr (paging_area_pages 258 0 reservedEnd d m2, d)))"

text \<open>The loop that maps the kernel space into the directory of a process.\<close>

fun copy_kernel :: "nat \<Rightarrow> u32 \<Rightarrow> page_directory \<Rightarrow> page_directory \<Rightarrow> memory \<Rightarrow> memory" where
  "copy_kernel 0 idx base d m = m"
| "copy_kernel (Suc n) idx base d m =
     (let m1 = store32 m (pageDirectory d + 4 * idx) (dir_entry m base idx);
          m2 = store32 m1 (virtTableAddresses d + 4 * idx) (table_address m1 base idx)
      in copy_kernel n (idx + 1) base d m2)"

fun protect_code :: "nat \<Rightarrow> u32 \<Rightarrow> page_directory \<Rightarrow> memory \<Rightarrow> memory" where
  "protect_code 0 i d m = m"
| "protect_code (Suc n) i d m =
     (let idx = KERNEL_START div (PAGESIZE * 1024)
      in protect_code n (i + 1) d (put_slot m d idx i (get_slot m d idx i AND NOT PAGE_READ_WRITE)))"

text \<open>\<open>codeStart\<close> and \<open>codeEnd\<close> are the linker symbols \<open>___WRITE_PROTECTED_START__\<close> and \<open>_END__\<close>.\<close>

definition PageDirectory_writeProtectKernelCode :: "u32 \<Rightarrow> u32 \<Rightarrow> page_directory \<Rightarrow> memory \<Rightarrow> memory" where
  "PageDirectory_writeProtectKernelCode codeStart codeEnd d m =
     (let writeProtectedStart = (codeStart - KERNEL_START) div PAGESIZE;
          writeProtectedEnd = (codeEnd - KERNEL_START) div PAGESIZE;
          startIndex = writeProtectedStart div PAGESIZE;
          endIndex = writeProtectedEnd div PAGESIZE
      in protect_code (unat endIndex - unat startIndex) startIndex d m)"

section \<open>Mappings\<close>

definition PageDirectory_unmap :: "memory \<Rightarrow> page_directory \<Rightarrow> u32 \<Rightarrow> memory \<times> u32" where
  "PageDirectory_unmap m d virtAddress =
     (let pd_idx = GET_PD_IDX virtAddress; pt_idx = GET_PT_IDX virtAddress
      in if dir_entry m d pd_idx AND PAGE_PRESENT = 0 then (m, 0)
         else if get_slot m d pd_idx pt_idx AND PAGE_PRESENT = 0 then (m, 0)
         else if get_slot m d pd_idx pt_idx AND PAGE_WRITE_PROTECTED \<noteq> 0 then (m, 0)
         else (put_slot m d pd_idx pt_idx 0, get_slot m d pd_idx pt_idx AND 0xFFFFF000))"

definition PageDirectory_createTable :: "memory \<Rightarrow> page_directory \<Rightarrow> u32 \<Rightarrow> u32 \<Rightarrow> u32 \<Rightarrow> memory" where
  "PageDirectory_createTable m d idx physAddress virtAddress =
     store32 (store32 m (pageDirectory d + 4 * idx) (physAddress OR PAGE_PRESENT OR PAGE_READ_WRITE))
       (virtTableAddresses d + 4 * idx) virtAddress"

definition PageDirectory_getPhysicalAddress :: "memory \<Rightarrow> page_directory \<Rightarrow> u32 \<Rightarrow> u32" where
  "PageDirectory_getPhysicalAddress m d virtAddress =
     (let pd_idx = GET_PD_IDX virtAddress; pt_idx = GET_PT_IDX virtAddress
      in if dir_entry m d pd_idx AND PAGE_PRESENT = 0 then 0
         else if get_slot m d pd_idx pt_idx AND PAGE_PRESENT = 0 then 0
         else get_slot m d pd_idx pt_idx AND 0xFFFFF000)"

text \<open>\<open>protectPage\<close> and \<open>unprotectPage\<close> differ in the bit operation on the entry only.\<close>

definition change_slot :: "(u32 \<Rightarrow> u32) \<Rightarrow> memory \<Rightarrow> page_directory \<Rightarrow> u32 \<Rightarrow> memory" where
  "change_slot f m d virtAddress =
     (let vaddr = virtAddress AND 0xFFFFF000; pd_idx = GET_PD_IDX vaddr; pt_idx = GET_PT_IDX vaddr
      in if dir_entry m d pd_idx AND PAGE_PRESENT = 0 then m
         else if get_slot m d pd_idx pt_idx AND PAGE_PRESENT = 0 then m
         else put_slot m d pd_idx pt_idx (f (get_slot m d pd_idx pt_idx)))"

definition PageDirectory_protectPage :: "memory \<Rightarrow> page_directory \<Rightarrow> u32 \<Rightarrow> memory" where
  "PageDirectory_protectPage = change_slot (\<lambda>e. e OR PAGE_WRITE_PROTECTED)"

definition PageDirectory_unprotectPage :: "memory \<Rightarrow> page_directory \<Rightarrow> u32 \<Rightarrow> memory" where
  "PageDirectory_unprotectPage = change_slot (\<lambda>e. e AND NOT PAGE_WRITE_PROTECTED)"

text \<open>The loops over a range; both ends are aligned, so at most 2^20 pages lie between them.\<close>

fun page_loop :: "(memory \<Rightarrow> page_directory \<Rightarrow> u32 \<Rightarrow> memory) \<Rightarrow> nat \<Rightarrow> u32 \<Rightarrow> u32 \<Rightarrow> u32 \<Rightarrow> page_directory \<Rightarrow> memory \<Rightarrow> memory outcome" where
  "page_loop f 0 i startAddr endAddr d m = Inl Spins"
| "page_loop f (Suc n) i startAddr endAddr d m =
     (if startAddr + i * PAGESIZE < endAddr
      then page_loop f n (i + 1) startAddr endAddr d (f m d (startAddr + i * PAGESIZE))
      else Inr m)"

definition PageDirectory_protectRange :: "memory \<Rightarrow> page_directory \<Rightarrow> u32 \<Rightarrow> u32 \<Rightarrow> memory outcome" where
  "PageDirectory_protectRange m d virtStartAddress virtEndAddress =
     page_loop PageDirectory_protectPage 1048577 0 (virtStartAddress AND 0xFFFFF000) (virtEndAddress AND 0xFFFFF000) d m"

definition PageDirectory_unprotectRange :: "memory \<Rightarrow> page_directory \<Rightarrow> u32 \<Rightarrow> u32 \<Rightarrow> memory outcome" where
  "PageDirectory_unprotectRange m d virtStartAddress virtEndAddress =
     page_loop PageDirectory_unprotectPage 1048577 0 (virtStartAddress AND 0xFFFFF000) (virtEndAddress AND 0xFFFFF000) d m"

end
