(* ===== verification/Paging_Management.thy ===== *)
theory Paging_Management
  imports Page_Directories
begin

text \<open>
  The paging part of \<open>kernel/core/Management\<close>: mapping and unmapping of pages and ranges, page
  tables, IO memory, the page fault handler, the size of the physical memory and the segment
  descriptors. The memory is addressed by virtual addresses. A write to a page that is not mapped faults
  and the handler maps the page; the code relies on it when the paging area manager zeroes a new page
  table, so \<open>allocPageTable\<close> takes the reaction to a fault as an argument, and \<open>page_fault n\<close> is the
  handler with at most \<open>n\<close> nested faults.
\<close>

section \<open>State\<close>

record management =
  mg_mem :: memory
  pageFrameAllocator :: bitmap_manager
  pagingAreaManager :: bitmap_manager
  ioMemManager :: io_manager
  currentDirectory :: page_directory

definition Management_getPhysicalAddress :: "management \<Rightarrow> u32 \<Rightarrow> u32" where
  "Management_getPhysicalAddress st virtAddress =
     PageDirectory_getPhysicalAddress (mg_mem st) (currentDirectory st) virtAddress"

definition page_present :: "memory \<Rightarrow> page_directory \<Rightarrow> u32 \<Rightarrow> bool" where
  "page_present m d virtAddress \<longleftrightarrow> dir_entry m d (GET_PD_IDX virtAddress) AND PAGE_PRESENT \<noteq> 0
     \<and> get_slot m d (GET_PD_IDX virtAddress) (GET_PT_IDX virtAddress) AND PAGE_PRESENT \<noteq> 0"

section \<open>Page tables\<close>

text \<open>\<open>memset\<close> in the paging area manager touches the new page, which may fault. The entry that the handler
  writes is not part of that page, so the reaction is applied after the page is zeroed.\<close>

definition Management_allocPageTable ::
  "(management \<Rightarrow> u32 \<Rightarrow> management outcome) \<Rightarrow> management \<Rightarrow> (management \<times> u32) outcome" where
  "Management_allocPageTable fault st =
     andThen (BitmapMM_alloc (pagingAreaManager st) (mg_mem st) PAGESIZE) (\<lambda>(pam, m, virtAddress).
     let st1 = st\<lparr>pagingAreaManager := pam, mg_mem := m\<rparr>
     in if page_present m (currentDirectory st) virtAddress then Inr (st1, virtAddress)
        else andThen (fault st1 virtAddress) (\<lambda>st2. Inr (st2, virtAddress)))"

definition Management_createPageTable ::
  "(management \<Rightarrow> u32 \<Rightarrow> management outcome) \<Rightarrow> management \<Rightarrow> page_directory \<Rightarrow> u32 \<Rightarrow> management outcome" where
  "Management_createPageTable fault st dir idx =
     andThen (Management_allocPageTable fault st) (\<lambda>(st1, virtAddress).
     let physAddress = Management_getPhysicalAddress st1 virtAddress
     in Inr (st1\<lparr>mg_mem := PageDirectory_createTable (mg_mem st1) dir idx physAddress virtAddress\<rparr>))"

definition Management_freePageTable :: "management \<Rightarrow> u32 \<Rightarrow> management outcome" where
  "Management_freePageTable st virtTableAddress =
     (let physAddress = Management_getPhysicalAddress st virtTableAddress
      in andThen (BitmapMM_free (pagingAreaManager st) virtTableAddress) (\<lambda>pam.
         andThen (BitmapMM_free (pageFrameAllocator st) physAddress) (\<lambda>pfa.
         Inr (st\<lparr>pagingAreaManager := pam, pageFrameAllocator := pfa\<rparr>))))"

section \<open>Mapping\<close>

definition PageDirectory_map ::
  "(management \<Rightarrow> u32 \<Rightarrow> management outcome) \<Rightarrow> management \<Rightarrow> page_directory \<Rightarrow> u32 \<Rightarrow> u32 \<Rightarrow> u16 \<Rightarrow> management outcome" where
  "PageDirectory_map fault st d physAddress virtAddress flags =
     (let pd_idx = GET_PD_IDX virtAddress; pt_idx = GET_PT_IDX virtAddress
      in andThen (if dir_entry (mg_mem st) d pd_idx AND PAGE_PRESENT = 0
                  then Management_createPageTable fault st d pd_idx else Inr st) (\<lambda>st1.
         if get_slot (mg_mem st1) d pd_idx pt_idx AND PAGE_PRESENT \<noteq> 0 then Inl (Thrown PAGING_ERROR)
         else Inr (st1\<lparr>mg_mem := put_slot (mg_mem st1) d pd_idx pt_idx (physAddress OR ucast flags)\<rparr>)))"

definition Management_map ::
  "(management \<Rightarrow> u32 \<Rightarrow> management outcome) \<Rightarrow> management \<Rightarrow> u32 \<Rightarrow> u16 \<Rightarrow> management outcome" where
  "Management_map fault st virtAddress flags =
     andThen (BitmapMM_alloc (pageFrameAllocator st) (mg_mem st) PAGESIZE) (\<lambda>(pfa, m, physAddress).
     PageDirectory_map fault (st\<lparr>pageFrameAllocator := pfa, mg_mem := m\<rparr>) (currentDirectory st) physAddress virtAddress flags)"

definition Management_map_phys ::
  "(management \<Rightarrow> u32 \<Rightarrow> management outcome) \<Rightarrow> management \<Rightarrow> u32 \<Rightarrow> u16 \<Rightarrow> u32 \<Rightarrow> management outcome" where
  "Management_map_phys fault st virtAddress flags physAddress =
     PageDirectory_map fault st (currentDirectory st) physAddress virtAddress flags"

text \<open>The page fault handler; \<open>err\<close> is the error code of the interrupt frame.\<close>

definition Management_trigger ::
  "(management \<Rightarrow> u32 \<Rightarrow> management outcome) \<Rightarrow> management \<Rightarrow> u32 \<Rightarrow> u32 \<Rightarrow> management outcome" where
  "Management_trigger fault st faultAddress err =
     (if faultAddress = 0 then Inl (Thrown NULLPOINTER)
      else if 0 < err AND 0x00000001 then Inl (Thrown ILLEGAL_PAGE_ACCESS)
      else Management_map fault st faultAddress (ucast (PAGE_PRESENT OR PAGE_READ_WRITE)))"

fun page_fault :: "nat \<Rightarrow> management \<Rightarrow> u32 \<Rightarrow> management outcome" where
  "page_fault 0 st va = Inl Spins"
| "page_fault (Suc n) st va = Management_trigger (page_fault n) st va 0"

fun map_loop ::
  "(management \<Rightarrow> u32 \<Rightarrow> management outcome) \<Rightarrow> nat \<Rightarrow> u32 \<Rightarrow> u32 \<Rightarrow> u16 \<Rightarrow> management \<Rightarrow> management outcome" where
  "map_loop fault 0 i alignedEnd flags st = Inl Spins"
| "map_loop fault (Suc n) i alignedEnd flags st =
     (if i < alignedEnd
      then andThen (Management_map fault st i flags) (map_loop fault n (i + PAGESIZE) alignedEnd flags)
      else Inr st)"

definition Management_map_range ::
  "(management \<Rightarrow> u32 \<Rightarrow> management outcome) \<Rightarrow> management \<Rightarrow> u32 \<Rightarrow> u32 \<Rightarrow> u16 \<Rightarrow> management outcome" where
  "Management_map_range fault st virtStartAddress virtEndAddress flags =
     (let alignedStart = virtStartAddress AND 0xFFFFF000;
          alignedEnd = (virtEndAddress AND 0xFFFFF000) + (if virtEndAddress mod PAGESIZE = 0 then 0 else PAGESIZE)
      in map_loop fault 1048577 alignedStart alignedEnd flags st)"

section \<open>Unmapping\<close>

definition Management_unmap :: "management \<Rightarrow> u32 \<Rightarrow> (management \<times> u32) outcome" where
  "Management_unmap st virtAddress =
     (let (m, physAddress) = PageDirectory_unmap (mg_mem st) (currentDirectory st) virtAddress;
          st1 = st\<lparr>mg_mem := m\<rparr>
      in if physAddress = 0 then Inr (st1, 0)
         else andThen (BitmapMM_free (pageFrameAllocator st) physAddress) (\<lambda>pfa.
              Inr (st1\<lparr>pageFrameAllocator := pfa\<rparr>, physAddress)))"

definition unmap_start :: "u32 \<Rightarrow> u32" where
  "unmap_start virtStartAddress =
     (virtStartAddress AND 0xFFFFF000) + (if virtStartAddress mod PAGESIZE \<noteq> 0 then PAGESIZE else 0)"

definition unmap_end :: "u32 \<Rightarrow> u32" where
  "unmap_end virtEndAddress =
     (virtEndAddress AND 0xFFFFF000) - (if (virtEndAddress + 1) mod PAGESIZE \<noteq> 0 then PAGESIZE else 0)"

text \<open>The pages are unmapped one by one until three in a row were not mapped. The third component
  of the result collects the pages for which \<open>unmap\<close> was called.\<close>

fun unmap_loop :: "nat \<Rightarrow> u32 \<Rightarrow> u32 \<Rightarrow> u8 \<Rightarrow> u32 \<Rightarrow> management \<Rightarrow> (management \<times> u32 \<times> u32 list) outcome" where
  "unmap_loop 0 i startVAddr cnt ret st = Inr (st, ret, [])"
| "unmap_loop (Suc n) i startVAddr cnt ret st =
     andThen (Management_unmap st (startVAddr + i * PAGESIZE)) (\<lambda>(st1, ret1).
     let cnt1 = (if ret1 = 0 then cnt + 1 else 0)
     in if cnt1 = 3 then Inr (st1, ret1, [startVAddr + i * PAGESIZE])
        else andThen (unmap_loop n (i + 1) startVAddr cnt1 ret1 st1) (\<lambda>(st2, ret2, visited).
             Inr (st2, ret2, (startVAddr + i * PAGESIZE) # visited)))"

definition Management_unmap_range :: "management \<Rightarrow> u32 \<Rightarrow> u32 \<Rightarrow> (management \<times> u32 \<times> u32 list) outcome" where
  "Management_unmap_range st virtStartAddress virtEndAddress =
     (let startVAddr = unmap_start virtStartAddress; endVAddr = unmap_end virtEndAddress
      in if endVAddr < virtStartAddress then Inr (st, 0, [])
         else let pageCnt = (endVAddr - startVAddr) div PAGESIZE + 1
              in unmap_loop (unat pageCnt) 0 startVAddr 0 0 st)"

section \<open>IO memory\<close>

fun map_io_loop ::
  "(management \<Rightarrow> u32 \<Rightarrow> management outcome) \<Rightarrow> nat \<Rightarrow> u32 \<Rightarrow> u32 \<Rightarrow> u32 \<Rightarrow> management \<Rightarrow> management outcome" where
  "map_io_loop fault 0 i virtStartAddress physAddress st = Inr st"
| "map_io_loop fault (Suc n) i virtStartAddress physAddress st =
     (let virtAddress = virtStartAddress + i * PAGESIZE
      in andThen (Management_unmap st virtAddress) (\<lambda>(st1, _).
         andThen (Management_map_phys fault st1 virtAddress (ucast (PAGE_PRESENT OR PAGE_READ_WRITE OR PAGE_NO_CACHING))
                    (physAddress + i * PAGESIZE))
           (map_io_loop fault n (i + 1) virtStartAddress physAddress)))"

definition Management_mapIO_phys ::
  "(management \<Rightarrow> u32 \<Rightarrow> management outcome) \<Rightarrow> management \<Rightarrow> u32 \<Rightarrow> u32 \<Rightarrow> (management \<times> u32) outcome" where
  "Management_mapIO_phys fault st physAddress sz =
     (let pageCnt = block_count sz PAGESIZE
      in andThen (IOMemoryManager_alloc (ioMemManager st) (mg_mem st) sz) (\<lambda>(io, m, virtStartAddress).
         if virtStartAddress = 0 then Inl (Thrown OUT_OF_MEMORY)
         else andThen (map_io_loop fault (unat pageCnt) 0 virtStartAddress physAddress (st\<lparr>ioMemManager := io, mg_mem := m\<rparr>))
                (\<lambda>st'. Inr (st', virtStartAddress))))"

definition Management_mapIO ::
  "(management \<Rightarrow> u32 \<Rightarrow> management outcome) \<Rightarrow> management \<Rightarrow> u32 \<Rightarrow> (management \<times> u32) outcome" where
  "Management_mapIO fault st sz =
     (let pageCnt = block_count sz PAGESIZE
      in andThen (BitmapMM_alloc (pageFrameAllocator st) (mg_mem st) sz) (\<lambda>(pfa, m0, physStartAddress).
         andThen (IOMemoryManager_alloc (ioMemManager st) m0 sz) (\<lambda>(io, m, virtStartAddress).
         if virtStartAddress = 0 then Inl (Thrown OUT_OF_MEMORY)
         else andThen (map_io_loop fault (unat pageCnt) 0 virtStartAddress physStartAddress
                         (st\<lparr>pageFrameAllocator := pfa, ioMemManager := io, mg_mem := m\<rparr>))
                (\<lambda>st'. Inr (st', virtStartAddress)))))"

primrec unmap_each :: "u32 list \<Rightarrow> management \<Rightarrow> management outcome" where
  "unmap_each [] st = Inr st"
| "unmap_each (p # ps) st = andThen (Management_unmap st p) (\<lambda>(st', _). unmap_each ps st')"

definition Management_freeIO :: "management \<Rightarrow> u32 \<Rightarrow> management outcome" where
  "Management_freeIO st ptr =
     andThen (IOMemoryManager_free (ioMemManager st) ptr) (\<lambda>(io, pages).
     unmap_each pages (st\<lparr>ioMemManager := io\<rparr>))"

section \<open>Directories of processes\<close>

definition PageDirectory_process ::
  "(management \<Rightarrow> u32 \<Rightarrow> management outcome) \<Rightarrow> management \<Rightarrow> page_directory \<Rightarrow> (management \<times> page_directory) outcome" where
  "PageDirectory_process fault st base =
     andThen (Management_allocPageTable fault st) (\<lambda>(st1, dir).
     andThen (Management_allocPageTable fault st1) (\<lambda>(st2, tables).
     let d = \<lparr>pageDirectory = dir, physPageDirectoryAddress = 0, virtTableAddresses = tables\<rparr>
     in if dir = 0 \<or> tables = 0 then
          andThen (Management_freePageTable st2 dir) (\<lambda>st3.
          andThen (Management_freePageTable st3 tables) (\<lambda>st4. Inr (st4, d)))
        else
          let phys = Management_getPhysicalAddress st2 dir;
              idx = KERNEL_START div (PAGESIZE * 1024)
          in Inr (st2\<lparr>mg_mem := copy_kernel (1024 - unat idx) idx base d (mg_mem st2)\<rparr>,
                  d\<lparr>physPageDirectoryAddress := phys\<rparr>)))"

text \<open>The destructor unmaps the user space page by page and frees the tables of all its entries.\<close>

fun unmap_user :: "nat \<Rightarrow> u32 \<Rightarrow> page_directory \<Rightarrow> memory \<Rightarrow> memory" where
  "unmap_user 0 addr d m = m"
| "unmap_user (Suc n) addr d m = unmap_user n (addr + PAGESIZE) d (fst (PageDirectory_unmap m d addr))"

fun free_tables :: "nat \<Rightarrow> u32 \<Rightarrow> page_directory \<Rightarrow> management \<Rightarrow> management outcome" where
  "free_tables 0 idx d st = Inr st"
| "free_tables (Suc n) idx d st =
     andThen (Management_freePageTable st (table_address (mg_mem st) d idx)) (free_tables n (idx + 1) d)"

definition PageDirectory_delete :: "management \<Rightarrow> page_directory \<Rightarrow> management outcome" where
  "PageDirectory_delete st d =
     (let m = unmap_user (unat (KERNEL_START div PAGESIZE)) 0 d (mg_mem st)
      in andThen (free_tables (unat (KERNEL_START div (PAGESIZE * 1024))) 0 d (st\<lparr>mg_mem := m\<rparr>)) (\<lambda>st1.
         andThen (Management_freePageTable st1 (virtTableAddresses d)) (\<lambda>st2.
         Management_freePageTable st2 (pageDirectory d))))"

section \<open>Physical memory\<close>

record memory_map_entry =
  mme_address :: u64
  mme_length :: u64
  mme_type :: u32

abbreviation MULTIBOOT_MEMORY_AVAILABLE :: u32 where "MULTIBOOT_MEMORY_AVAILABLE \<equiv> 1"
abbreviation PHYS_MEM_CAP :: u32 where "PHYS_MEM_CAP \<equiv> 0xEA600000"

definition larger_entry :: "memory_map_entry \<Rightarrow> memory_map_entry \<Rightarrow> memory_map_entry" where
  "larger_entry entry maxEntry =
     (if mme_type entry \<noteq> MULTIBOOT_MEMORY_AVAILABLE then maxEntry
      else if mme_length entry > mme_length maxEntry then entry else maxEntry)"

text \<open>The size of the largest available area. Below 10 MB the processor is halted.\<close>

definition Management_calcTotalPhysicalMemory :: "memory_map_entry list \<Rightarrow> u32 outcome" where
  "Management_calcTotalPhysicalMemory memoryMap =
     (case memoryMap of
        [] \<Rightarrow> Inl (Thrown OUT_OF_BOUNDS)
      | e # _ \<Rightarrow>
          let maxEntry = fold larger_entry memoryMap e
          in if mme_type maxEntry \<noteq> MULTIBOOT_MEMORY_AVAILABLE then Inl (Thrown ILLEGAL_STATE)
             else let total = (ucast (mme_length maxEntry) :: u32);
                      capped = (if total > PHYS_MEM_CAP then PHYS_MEM_CAP else total)
                  in if capped < 10 * 1024 * 1024 then Inl Spins else Inr capped)"

section \<open>Segment descriptors\<close>

definition createGDTEntry :: "u16 list \<Rightarrow> u16 \<Rightarrow> u32 \<Rightarrow> u32 \<Rightarrow> u8 \<Rightarrow> u8 \<Rightarrow> u16 list outcome" where
  "createGDTEntry gdt num base limit access flags =
     (let idx = (ucast (4 * num) :: u32)
      in andThen (writeAt gdt idx (ucast (limit AND 0xFFFF))) (\<lambda>g1.
         andThen (writeAt g1 (idx + 1) (ucast (base AND 0xFFFF))) (\<lambda>g2.
         andThen (writeAt g2 (idx + 2)
                    (ucast (drop_bit 16 base AND 0xFF) OR push_bit 8 (ucast access))) (\<lambda>g3.
         writeAt g3 (idx + 3)
           (ucast (drop_bit 16 limit AND 0x0F) OR (push_bit 4 (ucast flags) AND 0xF0)
              OR ucast (drop_bit 16 base AND 0xFF00))))))"

primrec create_entries :: "u16 list \<Rightarrow> (u16 \<times> u32 \<times> u32 \<times> u8 \<times> u8) list \<Rightarrow> u16 list outcome" where
  "create_entries gdt [] = Inr gdt"
| "create_entries gdt (e # es) =
     (case e of (num, base, limit, access, flags) \<Rightarrow>
        andThen (createGDTEntry gdt num base limit access flags) (\<lambda>g. create_entries g es))"

text \<open>A descriptor is the 16-bit size followed by the address. \<open>tss\<close> and \<open>tssSize\<close> are address and size of
  the task state segment.\<close>

definition gdt_descriptor :: "u16 \<Rightarrow> u32 \<Rightarrow> u16 list" where
  "gdt_descriptor sz address = [sz, ucast address, ucast (drop_bit 16 address)]"

definition init_gdt ::
  "u32 \<Rightarrow> u32 \<Rightarrow> u32 \<Rightarrow> u32 \<Rightarrow> (u16 list \<times> u16 list \<times> u16 list \<times> u16 list \<times> u16 list) outcome" where
  "init_gdt gdtAddress biosAddress tss tssSize =
     andThen (create_entries (replicate 24 0)
       [(0, 0, 0, 0, 0), (1, 0, 0xFFFFFFFF, 0x9A, 0xC), (2, 0, 0xFFFFFFFF, 0x92, 0xC),
        (3, 0, 0xFFFFFFFF, 0xFA, 0xC), (4, 0, 0xFFFFFFFF, 0xF2, 0xC), (5, tss, tssSize, 0x89, 0x4)]) (\<lambda>gdt.
     andThen (create_entries (replicate 16 0)
       [(0, 0, 0, 0, 0), (1, 0, 0xFFFFFFFF, 0x9A, 0xC), (2, 0, 0xFFFFFFFF, 0x92, 0xC),
        (3, 0x4000, 0xFFFFFFFF, 0x9A, 0x8)]) (\<lambda>gdt_bios.
     Inr (gdt, gdt_bios, gdt_descriptor (6 * 8) (gdtAddress + KERNEL_START),
          gdt_descriptor (4 * 8) biosAddress, gdt_descriptor (6 * 8) gdtAddress)))"

end
