(* ===== verification/Paging_Properties.thy ===== *)
theory Paging_Properties
  imports Paging_Management Frame_Allocation
begin

text \<open>
  Correctness of the paging code. The invariant \<open>dir_wf\<close> says that the directory, the array of table
  addresses and the tables are different pages; under it an entry can be written without
  disturbing another one. The other properties concern ranges of pages and the segment descriptors.
\<close>

section \<open>Words of aligned pages\<close>

definition page_aligned :: "u32 \<Rightarrow> bool" where
  "page_aligned p \<longleftrightarrow> unat p mod 4096 = 0"

lemma page_alignedE:
  assumes "page_aligned p"
  obtains k where "unat p = 4096 * k" "k < 1048576"
proof -
  obtain k where k: "unat p = 4096 * k" using assms by (auto simp: page_aligned_def mod_eq_0_iff_dvd dvd_def)
  moreover have "4096 * k < 4294967296" using unat_u32_bound [of p] unfolding k .
  ultimately show thesis using that by simp
qed

lemma page_word:
  assumes "page_aligned p" "i < (1024 :: u32)"
  shows "unat (p + 4 * i) = unat p + 4 * unat i" "unat p + 4 * unat i + 3 < 4294967296"
proof -
  have i: "unat i < 1024" using assms(2) by (simp add: word_less_nat_alt)
  obtain k where "unat p = 4096 * k" "k < 1048576" using assms(1) by (rule page_alignedE)
  then have "unat p + 4096 \<le> 4294967296" by linarith
  then show s: "unat p + 4 * unat i + 3 < 4294967296" using i by linarith
  have "unat (4 * i) = 4 * unat i" using i by (simp add: unat_word_ariths)
  then show "unat (p + 4 * i) = unat p + 4 * unat i" using s by (simp add: unat_word_ariths)
qed

lemma page_word_cases:
  assumes "page_aligned p" "page_aligned q" "i < (1024 :: u32)" "j < (1024 :: u32)"
  shows "load32 (store32 m (p + 4 * i) v) (q + 4 * j) = (if p = q \<and> i = j then v else load32 m (q + 4 * j))"
proof (cases "p = q \<and> i = j")
  case False
  note P = page_word [OF assms(1,3)] and Q = page_word [OF assms(2,4)]
  have lt: "unat i < 1024" "unat j < 1024" using assms(3,4) by (simp_all add: word_less_nat_alt)
  obtain k where k: "unat p = 4096 * k" using assms(1) by (rule page_alignedE)
  obtain l where l: "unat q = 4096 * l" using assms(2) by (rule page_alignedE)
  have "1024 * k + unat i \<noteq> 1024 * l + unat j"
  proof
    assume e: "1024 * k + unat i = 1024 * l + unat j"
    then have "k = l" using lt by linarith
    then have "p = q" "i = j" using e k l by (simp_all add: u32_eq_iff)
    then show False using False by simp
  qed
  then have "unat (q + 4 * j) + 4 \<le> unat (p + 4 * i) \<or> unat (p + 4 * i) + 4 \<le> unat (q + 4 * j)"
    unfolding P(1) Q(1) k l by linarith
  then have "apart (q + 4 * j) (p + 4 * i)" by (rule apartI) (use P Q in auto)
  then show ?thesis using False by (auto simp: load_store_apart)
qed simp

section \<open>Well-formed directories\<close>

definition table_present :: "memory \<Rightarrow> page_directory \<Rightarrow> u32 \<Rightarrow> bool" where
  "table_present m d i \<longleftrightarrow> dir_entry m d i AND PAGE_PRESENT \<noteq> 0"

definition dir_wf :: "memory \<Rightarrow> page_directory \<Rightarrow> bool" where
  "dir_wf m d \<longleftrightarrow> page_aligned (pageDirectory d) \<and> page_aligned (virtTableAddresses d)
     \<and> pageDirectory d \<noteq> virtTableAddresses d
     \<and> (\<forall>i < 1024. table_present m d i \<longrightarrow> page_aligned (table_address m d i)
          \<and> table_address m d i \<noteq> pageDirectory d \<and> table_address m d i \<noteq> virtTableAddresses d)
     \<and> (\<forall>i < 1024. \<forall>j < 1024. i \<noteq> j \<and> table_present m d i \<and> table_present m d j
          \<longrightarrow> table_address m d i \<noteq> table_address m d j)"

lemma unat_idx: "unat (GET_PD_IDX va) = unat va div 4194304" "unat (GET_PT_IDX va) = unat va div 4096 mod 1024"
proof -
  show "unat (GET_PD_IDX va) = unat va div 4194304" by (simp add: GET_PD_IDX_def drop_bit_eq_div unat_div)
  have "(0x3FF :: u32) = mask 10" by (simp add: mask_eq_exp_minus_1)
  then have "GET_PT_IDX va = take_bit 10 (va div 4096)" by (simp add: GET_PT_IDX_def take_bit_eq_mask drop_bit_eq_div)
  then show "unat (GET_PT_IDX va) = unat va div 4096 mod 1024"
    by (simp add: take_bit_eq_mod unat_div unat_mod)
qed

lemma idx_bound: "GET_PD_IDX va < 1024" "GET_PT_IDX va < 1024"
proof -
  show "GET_PD_IDX va < 1024" using unat_u32_bound [of va] unfolding word_less_nat_alt unat_idx by (simp del: unat_u32_bound)
  show "GET_PT_IDX va < 1024" unfolding word_less_nat_alt unat_idx by simp
qed

text \<open>Two addresses have the same indices exactly if they lie in the same page.\<close>

lemma same_page: "GET_PD_IDX a = GET_PD_IDX b \<and> GET_PT_IDX a = GET_PT_IDX b \<longleftrightarrow> unat a div 4096 = unat b div 4096"
proof -
  have e: "unat x div 4194304 = unat x div 4096 div 1024" for x :: u32 by (simp add: div_mult2_eq [symmetric])
  show ?thesis unfolding u32_eq_iff unat_idx e by (metis div_mult_mod_eq)
qed

lemma put_slot_effect:
  fixes v :: u32
  assumes "dir_wf m d" "table_present m d i" "i < 1024" "k < 1024"
  defines "m' \<equiv> put_slot m d i k v"
  shows "\<And>j. j < 1024 \<Longrightarrow> dir_entry m' d j = dir_entry m d j"
    and "\<And>j. j < 1024 \<Longrightarrow> table_address m' d j = table_address m d j"
    and "\<And>j l. j < 1024 \<Longrightarrow> l < 1024 \<Longrightarrow> table_present m d j
           \<Longrightarrow> get_slot m' d j l = (if j = i \<and> l = k then v else get_slot m d j l)"
proof -
  have t: "page_aligned (table_address m d i)" "table_address m d i \<noteq> pageDirectory d"
    "table_address m d i \<noteq> virtTableAddresses d" using assms(1-3) by (auto simp: dir_wf_def)
  have p: "page_aligned (pageDirectory d)" "page_aligned (virtTableAddresses d)" using assms(1) by (auto simp: dir_wf_def)
  show d: "dir_entry m' d j = dir_entry m d j" if "j < 1024" for j
    using page_word_cases [OF t(1) p(1) assms(4) that] t(2) by (simp add: m'_def put_slot_def slot_address_def dir_entry_def)
  show a: "table_address m' d j = table_address m d j" if "j < 1024" for j
    using page_word_cases [OF t(1) p(2) assms(4) that] t(3)
    by (simp add: m'_def put_slot_def slot_address_def table_address_def)
  fix j l :: u32 assume jl: "j < 1024" "l < 1024" "table_present m d j"
  then have q: "page_aligned (table_address m d j)" "j \<noteq> i \<Longrightarrow> table_address m d i \<noteq> table_address m d j"
    using assms(1-3) unfolding dir_wf_def by auto
  show "get_slot m' d j l = (if j = i \<and> l = k then v else get_slot m d j l)"
    using page_word_cases [OF t(1) q(1) assms(4) jl(2), of m v] q(2) a [OF jl(1)]
    by (auto simp: m'_def put_slot_def slot_address_def get_slot_def)
qed

lemma put_slot_wf:
  assumes "dir_wf m d" "table_present m d i" "i < 1024" "k < 1024"
  shows "dir_wf (put_slot m d i k v) d"
  using assms(1) put_slot_effect(1,2) [OF assms] unfolding dir_wf_def table_present_def by simp

text \<open>The entry of a page, 0 if it has none.\<close>

definition page_entry :: "memory \<Rightarrow> page_directory \<Rightarrow> u32 \<Rightarrow> u32" where
  "page_entry m d va =
     (if table_present m d (GET_PD_IDX va) then get_slot m d (GET_PD_IDX va) (GET_PT_IDX va) else 0)"

lemma page_entry_put:
  assumes "dir_wf m d" "table_present m d (GET_PD_IDX va)"
  shows "page_entry (put_slot m d (GET_PD_IDX va) (GET_PT_IDX va) v) d w
    = (if unat w div 4096 = unat va div 4096 then v else page_entry m d w)"
  using put_slot_effect [OF assms idx_bound(1,2)] idx_bound [of w] assms(2) same_page [of w va]
  by (auto simp: page_entry_def table_present_def)

lemma getPhysicalAddress_entry:
  "PageDirectory_getPhysicalAddress m d va
    = (if page_entry m d va AND PAGE_PRESENT = 0 then 0 else page_entry m d va AND 0xFFFFF000)"
  by (simp add: PageDirectory_getPhysicalAddress_def page_entry_def table_present_def Let_def)

lemma unmap_entry:
  "PageDirectory_unmap m d va =
     (let e = page_entry m d va
      in if e AND PAGE_PRESENT = 0 \<or> e AND PAGE_WRITE_PROTECTED \<noteq> 0 then (m, 0)
         else (put_slot m d (GET_PD_IDX va) (GET_PT_IDX va) 0, e AND 0xFFFFF000))"
  by (simp add: PageDirectory_unmap_def page_entry_def table_present_def Let_def)

lemma unmap_wf: "dir_wf m d \<Longrightarrow> PageDirectory_unmap m d va = (m', p) \<Longrightarrow> dir_wf m' d"
  using put_slot_wf [OF _ _ idx_bound, of m d va va 0]
  by (auto simp: unmap_entry Let_def page_entry_def split: if_splits)

section \<open>Ranges of pages\<close>

lemma low_bits: "(x :: u32) AND 0xFFFFF000 = x - x mod PAGESIZE" "unat (x AND 0xFFFFF000) = unat x - unat x mod 4096"
proof -
  have m: "(0xFFFFF000 :: u32) = NOT (mask 12)" by (simp add: mask_eq_exp_minus_1)
  show e: "x AND 0xFFFFF000 = x - x mod PAGESIZE" unfolding m by (simp add: and_not_mask take_bit_eq_mod)
  have "unat (x mod PAGESIZE) \<le> unat x" by (simp add: unat_mod)
  then show "unat (x AND 0xFFFFF000) = unat x - unat x mod 4096"
    unfolding e by (simp add: unat_sub_u32 word_le_nat_alt unat_mod)
qed

lemma unmap_start_bounds:
  assumes "unat a \<le> 0xFFFFF000"
  shows "unat (unmap_start a) mod 4096 = 0" "a \<le> unmap_start a" "unat (unmap_start a) < unat a + 4096"
proof -
  obtain k r where a: "unat a = 4096 * k + r" "r < 4096" using that [of "unat a div 4096" "unat a mod 4096"] by simp
  have m: "unat a mod 4096 = r" using a by simp
  have w: "a mod PAGESIZE = 0 \<longleftrightarrow> r = 0" by (simp add: u32_eq_iff unat_mod m)
  have lo: "unat (a AND 0xFFFFF000) = 4096 * k" using low_bits(2) [of a] a m by simp
  have u: "unat (unmap_start a) = (if r = 0 then 4096 * k else 4096 * k + 4096)"
  proof (cases "r = 0")
    case False
    then have "k < 1048575" using assms a by linarith
    then have "4096 * k + 4096 < 4294967296" by linarith
    then show ?thesis using False w lo by (simp add: unmap_start_def unat_word_ariths)
  qed (use w lo in \<open>simp add: unmap_start_def\<close>)
  show "unat (unmap_start a) mod 4096 = 0" "a \<le> unmap_start a" "unat (unmap_start a) < unat a + 4096"
    using a u by (auto simp: word_le_nat_alt)
qed

lemma unmap_end_bounds:
  assumes "0x1000 \<le> b"
  shows "unat (unmap_end b) mod 4096 = 0" "unat (unmap_end b) + 4095 \<le> unat b"
proof -
  obtain k r where b: "unat b = 4096 * k + r" "r < 4096" using that [of "unat b div 4096" "unat b mod 4096"] by simp
  have m: "unat b mod 4096 = r" using b by simp
  have k: "1 \<le> k" using assms b by (simp add: word_le_nat_alt)
  have w: "(b + 1) mod PAGESIZE = 0 \<longleftrightarrow> r = 4095"
  proof (cases "b = -1")
    case True
    then have "4096 * k + r = 4294967295" using b(1) by simp
    moreover have "r = (4096 * k + r) mod 4096" using b(2) by simp
    ultimately have "r = 4294967295 mod 4096" by metis
    then show ?thesis using True by simp
  next
    case False
    then have "unat b \<noteq> 4294967295" using u32_eq_iff [of b "- 1"] by simp
    then have "unat b + 1 < 4294967296" using unat_u32_bound [of b] by linarith
    then have "unat (b + 1) = 4096 * k + (r + 1)" using b(1) by (simp add: unat_word_ariths)
    moreover have "(4096 * k + (r + 1)) mod 4096 = (if r = 4095 then 0 else r + 1)"
      using b(2) by (cases "r = 4095") (simp_all add: mod_mult_self4)
    ultimately show ?thesis by (simp add: u32_eq_iff unat_mod)
  qed
  have lo: "unat (b AND 0xFFFFF000) = 4096 * k" using low_bits(2) [of b] b m by simp
  have "unat (unmap_end b) = (if r = 4095 then 4096 * k else 4096 * k - 4096)"
    using lo w k by (simp add: unmap_end_def unat_sub_u32 word_le_nat_alt)
  moreover have "4096 * k - 4096 = 4096 * (k - 1)" by (simp add: diff_mult_distrib2)
  ultimately show "unat (unmap_end b) mod 4096 = 0" "unat (unmap_end b) + 4095 \<le> unat b" using b k by auto
qed

lemma unmap_loop_visits:
  "unmap_loop n i start cnt ret st = Inr (st', r, visited)
    \<Longrightarrow> set visited \<subseteq> (\<lambda>k. start + (i + of_nat k) * PAGESIZE) ` {..< n}"
proof (induction n arbitrary: i cnt ret st st' r visited)
  case (Suc n)
  obtain st1 ret1 where u: "Management_unmap st (start + i * PAGESIZE) = Inr (st1, ret1)"
    using Suc.prems by (auto simp: andThen_def split: sum.splits)
  have z: "start + i * PAGESIZE \<in> (\<lambda>k. start + (i + of_nat k) * PAGESIZE) ` {..< Suc n}"
    by (rule image_eqI [of _ _ 0]) simp_all
  show ?case
  proof (cases "(if ret1 = 0 then cnt + 1 else 0) = 3")
    case True
    then show ?thesis using Suc.prems u z by auto
  next
    case False
    then obtain vs where vs: "unmap_loop n (i + 1) start (if ret1 = 0 then cnt + 1 else 0) ret1 st1 = Inr (st', r, vs)"
      "visited = (start + i * PAGESIZE) # vs"
      using Suc.prems u by (auto simp: andThen_Inr_iff Let_def split: prod.splits)
    have "start + (i + 1 + of_nat k) * PAGESIZE \<in> (\<lambda>k. start + (i + of_nat k) * PAGESIZE) ` {..< Suc n}" if "k < n" for k
      by (rule image_eqI [of _ _ "Suc k"]) (use that in \<open>simp_all add: algebra_simps\<close>)
    then show ?thesis using Suc.IH [OF vs(1)] z vs(2) by auto
  qed
qed simp

lemma unmap_range_pages:
  assumes "0x1000 \<le> b" "Management_unmap_range st a b = Inr (st', r, visited)" "p \<in> set visited"
  shows "unat p mod 4096 = 0" "unat a \<le> unat p" "unat p + 4095 \<le> unat b"
proof -
  note E = unmap_end_bounds [OF assms(1)]
  have ge: "\<not> unmap_end b < a" using assms(2,3) by (auto simp: Management_unmap_range_def Let_def split: if_splits)
  obtain e where e: "unat (unmap_end b) = 4096 * e" using E(1) by (auto simp: mod_eq_0_iff_dvd dvd_def)
  have el: "4096 * e < 4294967296" using unat_u32_bound [of "unmap_end b"] unfolding e .
  then have "e < 1048576" by simp
  then have "unat (unmap_end b) \<le> 0xFFFFF000" using e by simp
  then have "unat a \<le> 0xFFFFF000" using ge by (simp add: word_less_nat_alt)
  note S = unmap_start_bounds [OF this]
  obtain s where s: "unat (unmap_start a) = 4096 * s" using S(1) by (auto simp: mod_eq_0_iff_dvd dvd_def)
  have "4096 * s < 4096 * e + 4096" using S(3) ge e s by (simp add: word_less_nat_alt)
  then have se: "s \<le> e" by linarith
  then have d: "unat (unmap_end b - unmap_start a) = 4096 * (e - s)"
    using e s by (simp add: unat_sub_u32 word_le_nat_alt diff_mult_distrib2)
  then have "unat ((unmap_end b - unmap_start a) div PAGESIZE) = e - s" by (simp add: unat_div)
  moreover have "e - s + 1 < 4294967296" using el by linarith
  ultimately have n: "unat ((unmap_end b - unmap_start a) div PAGESIZE + 1) = e - s + 1" by (simp add: unat_word_ariths)
  have "unmap_loop (e - s + 1) 0 (unmap_start a) 0 0 st = Inr (st', r, visited)"
    using assms(2) ge n by (simp add: Management_unmap_range_def Let_def)
  from unmap_loop_visits [OF this] obtain k where k: "k < e - s + 1" "p = unmap_start a + of_nat k * PAGESIZE"
    using assms(3) by auto
  have kle: "s + k \<le> e" using k(1) se by linarith
  then have lt: "4096 * s + 4096 * k < 4294967296" using el by linarith
  then have "unat (of_nat k * PAGESIZE :: u32) = 4096 * k" by (simp add: unat_word_ariths unat_of_nat)
  then have p: "unat p = 4096 * s + 4096 * k" using lt s k(2) by (simp add: unat_word_ariths)
  then show "unat p mod 4096 = 0" by simp
  show "unat a \<le> unat p" using S(2) s p by (simp add: word_le_nat_alt)
  show "unat p + 4095 \<le> unat b" using E(2) e p kle by linarith
qed

section \<open>Entries\<close>

lemma ucast_u16_zero: "(ucast (x :: u16) :: u32) = 0 \<longleftrightarrow> x = 0"
proof -
  have "unat x < 2 ^ 16" using unsigned_less [of x] by simp
  then have "unat (ucast x :: u32) = unat x" by (simp add: unsigned_ucast_eq take_bit_nat_eq_self)
  then show ?thesis by (metis unat_eq_zero)
qed

lemma entry_bits:
  assumes "page_aligned phys" "flags < (0x1000 :: u16)"
  shows "(phys OR ucast flags) AND 0xFFFFF000 = phys"
    and "(phys OR ucast flags) AND PAGE_PRESENT = ucast (flags AND 1)"
    and "(phys OR ucast flags) AND PAGE_WRITE_PROTECTED = ucast (flags AND 0x200)"
proof -
  have "phys mod PAGESIZE = 0" using assms(1) by (simp add: page_aligned_def u32_eq_iff unat_mod)
  then have p: "phys AND 0xFFFFF000 = phys" unfolding low_bits(1) by simp
  have "unat flags < 4096" using assms(2) by (simp add: word_less_nat_alt)
  moreover from this have "unat (ucast flags :: u32) = unat flags"
    by (simp add: unsigned_ucast_eq take_bit_nat_eq_self)
  ultimately have "(ucast flags :: u32) mod PAGESIZE = ucast flags" by (simp add: u32_eq_iff unat_mod)
  then have f: "(ucast flags :: u32) AND 0xFFFFF000 = 0" unfolding low_bits(1) by simp
  show "(phys OR ucast flags) AND 0xFFFFF000 = phys" by (simp add: bit.conj_disj_distrib2 p f)
  have "phys AND x = 0" if "(0xFFFFF000 :: u32) AND x = 0" for x
  proof -
    have "phys AND x = (phys AND 0xFFFFF000) AND x" unfolding p ..
    also have "\<dots> = phys AND (0xFFFFF000 AND x)" by (rule and.assoc)
    finally show ?thesis unfolding that by simp
  qed
  then have z: "phys AND PAGE_PRESENT = 0" "phys AND PAGE_WRITE_PROTECTED = 0" by simp_all
  show "(phys OR ucast flags) AND PAGE_PRESENT = ucast (flags AND 1)"
    "(phys OR ucast flags) AND PAGE_WRITE_PROTECTED = ucast (flags AND 0x200)"
    by (simp_all only: bit.conj_disj_distrib2 z or.left_neutral unsigned_and_eq) simp_all
qed

section \<open>Properties\<close>

text \<open>C4. Mapping and unmapping of pages. In a well-formed directory, mapping a page that is not mapped
  makes \<open>getPhysicalAddress\<close> return the frame and leaves the translation of every other page; a
  second mapping of the page raises \<open>PAGING_ERROR\<close>; unmapping it returns the frame and restores
  all translations.\<close>

theorem paging_map_unmap:
  assumes "dir_wf (mg_mem st) d" "table_present (mg_mem st) d (GET_PD_IDX va)"
    and "page_entry (mg_mem st) d va AND PAGE_PRESENT = 0"
    and "page_aligned phys" "flags < 0x1000" "flags AND 1 \<noteq> 0" "flags AND 0x200 = 0"
  shows "\<exists>st' m''. PageDirectory_map fault st d phys va flags = Inr st'
    \<and> PageDirectory_getPhysicalAddress (mg_mem st') d va = phys
    \<and> (\<forall>w. unat w div 4096 \<noteq> unat va div 4096 \<longrightarrow>
         PageDirectory_getPhysicalAddress (mg_mem st') d w = PageDirectory_getPhysicalAddress (mg_mem st) d w)
    \<and> PageDirectory_map fault st' d phys2 va flags2 = Inl (Thrown PAGING_ERROR)
    \<and> PageDirectory_unmap (mg_mem st') d va = (m'', phys) \<and> dir_wf m'' d
    \<and> (\<forall>w. PageDirectory_getPhysicalAddress m'' d w = PageDirectory_getPhysicalAddress (mg_mem st) d w)"
proof -
  let ?e = "phys OR ucast flags" let ?i = "GET_PD_IDX va" let ?k = "GET_PT_IDX va" let ?m = "mg_mem st"
  let ?m' = "put_slot ?m d ?i ?k ?e" let ?m'' = "put_slot ?m' d ?i ?k 0"
  note B = entry_bits [OF assms(4,5)]
  have pr: "?e AND PAGE_PRESENT \<noteq> 0" using B(2) assms(6) by (simp add: ucast_u16_zero)
  have wp: "?e AND PAGE_WRITE_PROTECTED = 0" using B(3) assms(7) by simp
  have wf': "dir_wf ?m' d" by (rule put_slot_wf [OF assms(1,2) idx_bound])
  have t': "table_present ?m' d ?i"
    using assms(2) put_slot_effect(1) [OF assms(1,2) idx_bound idx_bound(1)] by (simp add: table_present_def)
  note E' = page_entry_put [OF assms(1,2), of ?e] and E'' = page_entry_put [OF wf' t', of 0]
  have "PageDirectory_map fault st d phys va flags = Inr (st\<lparr>mg_mem := ?m'\<rparr>)"
    using assms(2,3) by (simp add: PageDirectory_map_def page_entry_def table_present_def Let_def)
  moreover have "PageDirectory_getPhysicalAddress ?m' d va = phys" using E' [of va] pr B(1) by (simp add: getPhysicalAddress_entry)
  moreover have "PageDirectory_getPhysicalAddress ?m' d w = PageDirectory_getPhysicalAddress ?m d w"
    if "unat w div 4096 \<noteq> unat va div 4096" for w using E' [of w] that by (simp add: getPhysicalAddress_entry)
  moreover have "PageDirectory_map fault (st\<lparr>mg_mem := ?m'\<rparr>) d phys2 va flags2 = Inl (Thrown PAGING_ERROR)"
    using t' E' [of va] pr by (simp add: PageDirectory_map_def page_entry_def table_present_def Let_def)
  moreover have "PageDirectory_unmap ?m' d va = (?m'', phys)" using E' [of va] pr wp B(1) by (simp add: unmap_entry Let_def)
  moreover have "dir_wf ?m'' d" by (rule put_slot_wf [OF wf' t' idx_bound])
  moreover have "PageDirectory_getPhysicalAddress ?m'' d w = PageDirectory_getPhysicalAddress ?m d w" for w
  proof (cases "unat w div 4096 = unat va div 4096")
    case True
    then have "GET_PD_IDX w = ?i" "GET_PT_IDX w = ?k" using same_page [of w va] by auto
    then have "page_entry ?m d w = page_entry ?m d va" by (simp add: page_entry_def)
    then show ?thesis using E'' [of w] True assms(3) by (simp add: getPhysicalAddress_entry)
  qed (use E' [of w] E'' [of w] in \<open>simp add: getPhysicalAddress_entry\<close>)
  ultimately show ?thesis by (intro exI [of _ "st\<lparr>mg_mem := ?m'\<rparr>"] exI [of _ ?m'']) simp
qed

lemma load_zero [simp]: "load32 (\<lambda>a. 0) x = 0"
  by (simp add: load32_def)

definition small_dir :: page_directory where
  "small_dir = \<lparr>pageDirectory = 0x1000, physPageDirectoryAddress = 0, virtTableAddresses = 0x2000\<rparr>"

definition small_mem :: memory where
  "small_mem = store32 (store32 (\<lambda>a. 0) (0x1000 + 4 * 0) 1) (0x2000 + 4 * 0) 0x3000"

lemma small_dir_wf:
  "dir_wf small_mem small_dir" "table_present small_mem small_dir 0" "page_entry small_mem small_dir 0x5000 = 0"
proof -
  have a: "page_aligned 0x1000" "page_aligned 0x2000" "page_aligned 0x3000" by (simp_all add: page_aligned_def)
  have d: "dir_entry small_mem small_dir j = (if j = 0 then 1 else 0)" if "j < 1024" for j
    using page_word_cases [OF a(2,1) _ that, of 0] page_word_cases [OF a(1,1) _ that, of 0]
    by (simp add: dir_entry_def small_mem_def small_dir_def)
  have t: "table_address small_mem small_dir j = (if j = 0 then 0x3000 else 0)" if "j < 1024" for j
    using page_word_cases [OF a(2,2) _ that, of 0] page_word_cases [OF a(1,2) _ that, of 0]
    by (simp add: table_address_def small_mem_def small_dir_def)
  show "dir_wf small_mem small_dir" "table_present small_mem small_dir 0"
    using d t a by (auto simp: dir_wf_def table_present_def small_dir_def)
  have "get_slot small_mem small_dir 0 5 = 0"
    using t [of 0] page_word_cases [OF a(2,3), of 0 5] page_word_cases [OF a(1,3), of 0 5]
    by (simp add: get_slot_def slot_address_def small_mem_def)
  then show "page_entry small_mem small_dir 0x5000 = 0"
    by (simp add: page_entry_def GET_PD_IDX_def GET_PT_IDX_def)
qed

theorem paging_map_unmap_witness:
  "\<exists>st' m''. PageDirectory_map (\<lambda>st va. Inl Spins) \<lparr>mg_mem = small_mem, pageFrameAllocator = PageFrameAllocator_new,
        pagingAreaManager = PagingAreaManager_new, ioMemManager = IOMemoryManager_new, currentDirectory = small_dir\<rparr>
        small_dir 0x7000 0x5000 3 = Inr st'
    \<and> PageDirectory_getPhysicalAddress (mg_mem st') small_dir 0x5000 = 0x7000
    \<and> PageDirectory_unmap (mg_mem st') small_dir 0x5000 = (m'', 0x7000)"
proof -
  have "GET_PD_IDX 0x5000 = 0" by (simp add: GET_PD_IDX_def)
  then show ?thesis
    using paging_map_unmap [of "\<lparr>mg_mem = small_mem, pageFrameAllocator = PageFrameAllocator_new,
        pagingAreaManager = PagingAreaManager_new, ioMemManager = IOMemoryManager_new, currentDirectory = small_dir\<rparr>"
        small_dir "0x5000" "0x7000" 3 "\<lambda>st va. Inl Spins" 0 0] small_dir_wf by (auto simp: page_aligned_def)
qed

text \<open>C32. Unmapping a range touches complete pages of the range only: every page for which
  \<open>unmap\<close> is called begins at or behind the start address and ends at or before the end address
  (as the comment in the code demands), for an end address of at least \<open>0x1000\<close>. Below that the subtraction in the code
  wraps around.\<close>

theorem unmap_range_inside:
  assumes "0x1000 \<le> b" "Management_unmap_range st a b = Inr (st', r, visited)" "p \<in> set visited"
  shows "unat p mod 4096 = 0 \<and> unat a \<le> unat p \<and> unat p + 4095 \<le> unat b"
  using unmap_range_pages [OF assms] by blast

lemma small_unmap:
  "Management_unmap_range \<lparr>mg_mem = (\<lambda>a. 0), pageFrameAllocator = pfa, pagingAreaManager = pam,
      ioMemManager = io, currentDirectory = d\<rparr> 0x1800 0x3FFF
    = Inr (\<lparr>mg_mem = (\<lambda>a. 0), pageFrameAllocator = pfa, pagingAreaManager = pam, ioMemManager = io,
        currentDirectory = d\<rparr>, 0, [0x2000, 0x3000])"
proof -
  have "unmap_start 0x1800 = 0x2000" "unmap_end 0x3FFF = 0x3000" by (simp_all add: unmap_start_def unmap_end_def)
  moreover have "PageDirectory_unmap (\<lambda>a. 0) d va = ((\<lambda>a. 0), 0)" for va
    by (simp add: PageDirectory_unmap_def dir_entry_def)
  moreover have "unmap_loop 2 i a c r st = unmap_loop (Suc (Suc 0)) i a c r st" for i a c r st
    by (simp only: numeral_2_eq_2)
  ultimately show ?thesis by (simp add: Management_unmap_range_def Management_unmap_def Let_def)
qed

theorem unmap_range_inside_witness:
  "\<exists>st' r visited. Management_unmap_range \<lparr>mg_mem = (\<lambda>a. 0), pageFrameAllocator = PageFrameAllocator_new,
      pagingAreaManager = PagingAreaManager_new, ioMemManager = IOMemoryManager_new, currentDirectory = small_dir\<rparr>
      0x1800 0x3FFF = Inr (st', r, visited)
    \<and> (0x3000 :: u32) \<in> set visited \<and> unat (0x1800 :: u32) \<le> unat (0x3000 :: u32)"
  using unmap_range_inside [OF _ small_unmap [of PageFrameAllocator_new PagingAreaManager_new IOMemoryManager_new small_dir],
      where p = "0x3000"] small_unmap [of PageFrameAllocator_new PagingAreaManager_new IOMemoryManager_new small_dir] by auto

text \<open>Write protection of the kernel code has no effect for a kernel that ends below 16 MB:
  the page numbers of the code are divided by the page size a second time, so the loop is
  empty and no entry of a page table changes.\<close>

lemma writeProtectKernelCode_no_effect:
  assumes "codeEnd - KERNEL_START < 0x1000000"
  shows "PageDirectory_writeProtectKernelCode codeStart codeEnd d m = m"
proof -
  have "unat (codeEnd - KERNEL_START) < 16777216" using assms by (simp add: word_less_nat_alt)
  then have "unat ((codeEnd - KERNEL_START) div PAGESIZE div PAGESIZE) = 0" by (simp add: unat_div)
  then show ?thesis by (simp add: PageDirectory_writeProtectKernelCode_def Let_def)
qed

lemma writeProtectKernelCode_no_effect_witness:
  "PageDirectory_writeProtectKernelCode 0xC0100000 0xC0200000 small_dir small_mem = small_mem"
  using writeProtectKernelCode_no_effect [of "0xC0200000" "0xC0100000" small_dir small_mem] by simp

text \<open>\<open>freePageTable\<close> of a table that does not exist frees the page frame 0. The destructor of a
  page directory calls it for every unused entry: frame 0, which is reserved, becomes available, and
  \<open>freeMemory\<close> grows by a page each time.\<close>

lemma freePageTable_frees_frame_0:
  assumes "Management_getPhysicalAddress st 0 = 0" "0 < memoryStartAddress (pagingAreaManager st)"
    and "bmm_bitmap (pageFrameAllocator st) = Some bm" "bm_wf bm" "0 < bm_blocks bm"
    and "memoryStartAddress (pageFrameAllocator st) = 0" "0 < memoryEndAddress (pageFrameAllocator st)"
  shows "\<exists>st' bm'. Management_freePageTable st 0 = Inr st' \<and> bmm_bitmap (pageFrameAllocator st') = Some bm'
    \<and> 0 \<in> bm_free bm'
    \<and> freeMemory (pageFrameAllocator st') = freeMemory (pageFrameAllocator st) + blockSize (pageFrameAllocator st)"
proof -
  have "BitmapMM_free (pagingAreaManager st) 0 = Inr (pagingAreaManager st)"
    using assms(2) by (simp add: BitmapMM_free_def)
  moreover have "BitmapMM_free (pageFrameAllocator st) 0 = Inr ((pageFrameAllocator st)
      \<lparr>bmm_bitmap := Some (Bitmap_unset bm 0), freeMemory := freeMemory (pageFrameAllocator st) + blockSize (pageFrameAllocator st)\<rparr>)"
    using assms(3,6,7) by (simp add: BitmapMM_free_def not_le)
  moreover have "0 \<in> bm_free (Bitmap_unset bm 0)" using bm_free_unset [OF assms(4,5)] by simp
  ultimately show ?thesis using assms(1) by (simp add: Management_freePageTable_def Let_def)
qed

lemma freePageTable_frees_frame_0_witness:
  "\<exists>st' bm'. Management_freePageTable \<lparr>mg_mem = (\<lambda>a. 0),
        pageFrameAllocator = PageFrameAllocator_init 0 PageFrameAllocator_new 0 0x1000000 False,
        pagingAreaManager = PagingAreaManager_new, ioMemManager = IOMemoryManager_new, currentDirectory = small_dir\<rparr> 0 = Inr st'
    \<and> bmm_bitmap (pageFrameAllocator st') = Some bm' \<and> 0 \<in> bm_free bm'"
proof -
  let ?pfa = "PageFrameAllocator_init 0 PageFrameAllocator_new 0 0x1000000 False"
  have b: "bmm_bitmap ?pfa = Some (Bitmap_setRange (Bitmap_new 0x1000) 0 1282)"
    "memoryStartAddress ?pfa = 0" "memoryEndAddress ?pfa = 0x1000000"
    by (simp_all add: PageFrameAllocator_init_def PageFrameAllocator_new_def reserve_blocks_def BitmapMM_init_def
        BitmapMM_new_def MemoryManager_init_def Let_def)
  have "memoryStartAddress PagingAreaManager_new = VIRT_PAGE_MEM_START"
    by (simp add: PagingAreaManager_new_def reserve_blocks_def BitmapMM_init_def BitmapMM_new_def MemoryManager_init_def Let_def)
  then show ?thesis
    using freePageTable_frees_frame_0 [of "\<lparr>mg_mem = (\<lambda>a. 0), pageFrameAllocator = ?pfa,
        pagingAreaManager = PagingAreaManager_new, ioMemManager = IOMemoryManager_new, currentDirectory = small_dir\<rparr>"] b bm_wf_new [of "0x1000"]
    by (auto simp: VIRT_PAGE_MEM_START_def Management_getPhysicalAddress_def PageDirectory_getPhysicalAddress_def dir_entry_def)
qed

end
