(* ===== verification/Kernel_Memory.thy ===== *)
theory Kernel_Memory
  imports Paging_Properties Frame_Properties Heap_Properties
begin

text \<open>
  The composition of the kernel heap with paging: the heap asks to unmap the pages of a large free
  chunk, and the range that \<open>Management::unmap\<close> makes of it contains no byte of a block in use and
  no header of the free list. Further the encoding of segment descriptors.
\<close>

section \<open>Unmapping freed memory\<close>

lemma chunk_range:
  assumes "chunks_in lo (unat (hi :: u32)) cs" "c \<in> set cs" "0x1000 \<le> snd c"
  shows "unat (fst c + 12) = unat (fst c) + 12"
    and "unat (fst c + (12 + snd c) - 1) = unat (fst c) + 12 + unat (snd c) - 1"
    and "0x1000 \<le> fst c + (12 + snd c) - 1"
proof -
  have "unat (fst c) + 12 + unat (snd c) \<le> unat hi" using chunks_in_mem [OF assms(1,2)] by simp
  then have lt: "unat (fst c) + 12 + unat (snd c) < 4294967296" using unat_u32_bound [of hi] by linarith
  have s: "4096 \<le> unat (snd c)" using assms(3) by (simp add: word_le_nat_alt)
  show "unat (fst c + 12) = unat (fst c) + 12" using lt by (simp add: unat_word_ariths)
  have e: "unat (fst c + (12 + snd c)) = unat (fst c) + 12 + unat (snd c)" using lt by (simp add: unat_word_ariths)
  then have "unat (1 :: u32) \<le> unat (fst c + (12 + snd c))" using s by simp
  then have "unat (fst c + (12 + snd c) - 1) = unat (fst c + (12 + snd c)) - unat (1 :: u32)" by (rule unat_sub_u32)
  then show u: "unat (fst c + (12 + snd c) - 1) = unat (fst c) + 12 + unat (snd c) - 1" unfolding e by simp
  show "0x1000 \<le> fst c + (12 + snd c) - 1" unfolding word_le_nat_alt u using s by simp
qed

section \<open>Segment descriptors\<close>

definition gdt_base :: "u16 list \<Rightarrow> nat \<Rightarrow> u32" where
  "gdt_base gdt n = ucast (gdt ! (4 * n + 1)) OR push_bit 16 (take_bit 8 (ucast (gdt ! (4 * n + 2))))
     OR push_bit 24 (drop_bit 8 (ucast (gdt ! (4 * n + 3))))"

definition gdt_limit :: "u16 list \<Rightarrow> nat \<Rightarrow> u32" where
  "gdt_limit gdt n = ucast (gdt ! (4 * n)) OR push_bit 16 (take_bit 4 (ucast (gdt ! (4 * n + 3))))"

definition gdt_access :: "u16 list \<Rightarrow> nat \<Rightarrow> u8" where
  "gdt_access gdt n = ucast (drop_bit 8 (gdt ! (4 * n + 2)))"

definition gdt_flags :: "u16 list \<Rightarrow> nat \<Rightarrow> u8" where
  "gdt_flags gdt n = take_bit 4 (ucast (drop_bit 4 (gdt ! (4 * n + 3))))"

lemma gdt_masks:
  "(x :: u32) AND 0xFFFF = take_bit 16 x" "(x :: u32) AND 0xFF = take_bit 8 x" "(x :: u32) AND 0x0F = take_bit 4 x"
  by (simp_all add: take_bit_eq_mask mask_eq_exp_minus_1)

lemma gdt_high_masks:
  "(0xFF00 :: u32) = push_bit 8 (mask 8)" "(0xF0 :: u16) = push_bit 4 (mask 4)"
  by (simp_all add: mask_eq_exp_minus_1)

text \<open>The words of an entry, and the fields read from them.\<close>

definition gdt_word2 :: "u32 \<Rightarrow> u8 \<Rightarrow> u16" where
  "gdt_word2 base access = ucast (take_bit 8 (drop_bit 16 base)) OR push_bit 8 (ucast access)"

definition gdt_word3 :: "u32 \<Rightarrow> u32 \<Rightarrow> u8 \<Rightarrow> u16" where
  "gdt_word3 base limit flags =
     ucast (take_bit 4 (drop_bit 16 limit)) OR (push_bit 4 (ucast flags) AND 0xF0) OR ucast (drop_bit 16 base AND 0xFF00)"

lemma gdt_fields:
  fixes base limit :: u32 and access flags :: u8
  shows "ucast (ucast (take_bit 16 base) :: u16) OR push_bit 16 (take_bit 8 (ucast (gdt_word2 base access)))
      OR push_bit 24 (drop_bit 8 (ucast (gdt_word3 base limit flags))) = base"
    and "ucast (ucast (take_bit 16 limit) :: u16) OR push_bit 16 (take_bit 4 (ucast (gdt_word3 base limit flags)))
      = take_bit 20 limit"
    and "ucast (drop_bit 8 (gdt_word2 base access)) = access"
    and "take_bit 4 (ucast (drop_bit 4 (gdt_word3 base limit flags))) = take_bit 4 flags"
  unfolding gdt_word2_def gdt_word3_def gdt_high_masks
  by (rule bit_word_eqI, auto simp: bit_simps)+

lemma createGDTEntry_words:
  assumes "4 * unat num + 3 < length gdt" "unat num < 16384"
  shows "createGDTEntry gdt num base limit access flags = Inr (gdt
      [4 * unat num := ucast (take_bit 16 limit), 4 * unat num + 1 := ucast (take_bit 16 base),
       4 * unat num + 2 := gdt_word2 base access, 4 * unat num + 3 := gdt_word3 base limit flags])"
proof -
  have "unat (4 * num) = 4 * unat num" using assms(2) by (simp add: unat_word_ariths)
  moreover have "unat (4 * num) < 2 ^ 16" using unsigned_less [of "4 * num"] by simp
  then have "unat (ucast (4 * num) :: u32) = unat (4 * num)" by (simp add: unsigned_ucast_eq take_bit_nat_eq_self)
  ultimately have i: "unat (ucast (4 * num) :: u32) = 4 * unat num" by simp
  then have "unat (ucast (4 * num) + 1 :: u32) = 4 * unat num + 1" "unat (ucast (4 * num) + 2 :: u32) = 4 * unat num + 2"
    "unat (ucast (4 * num) + 3 :: u32) = 4 * unat num + 3" using assms(2) by (simp_all add: unat_word_ariths)
  then show ?thesis using i assms(1) by (simp add: createGDTEntry_def Let_def gdt_masks gdt_word2_def gdt_word3_def)
qed

section \<open>Properties\<close>

text \<open>C9. Freeing heap memory never unmaps memory in use. If \<open>free\<close> asks to unmap a range, no page that
  \<open>Management::unmap\<close> visits for it overlaps a block in use (with its header), and none contains the
  header of a free chunk, so the free list stays readable.\<close>

theorem heap_free_unmap_safe:
  assumes "heap_ok s cs bs" "(h, z) \<in> bs" "FreeList_free ini s (h + 12) = Some (s', Some (a, b))"
    and "Management_unmap_range st a b = Inr (st', r, visited)" "p \<in> set visited"
  shows "(\<forall>blk \<in> bs - {(h, z)}. unat p + 4096 \<le> unat (fst blk) \<or> unat (fst blk) + 12 + unat (snd blk) \<le> unat p)
    \<and> (\<forall>c \<in> set (spec_free (h, z) cs). unat p + 4096 \<le> unat (fst c) \<or> unat (fst c) + 12 \<le> unat p)"
proof (rule heap_free [OF assms(1,2), of ini])
  fix s1 u
  assume f: "FreeList_free ini s (h + 12) = Some (s1, u)" and H: "heap_ok s1 (spec_free (h, z) cs) (bs - {(h, z)})"
    and u: "case u of None \<Rightarrow> True | Some (a, b) \<Rightarrow> \<exists>c \<in> set (spec_free (h, z) cs). a = fst c + 12 \<and> b = fst c + (12 + snd c) - 1
                       \<and> 0x1000 \<le> snd c"
  obtain c where c: "c \<in> set (spec_free (h, z) cs)" "a = fst c + 12" "b = fst c + (12 + snd c) - 1" "0x1000 \<le> snd c"
    using u f assms(3) by auto
  have ch: "chunks_in (unat (memoryStartAddress s1)) (unat (memoryEndAddress s1)) (spec_free (h, z) cs)"
    using H by (simp add: heap_ok_def fl_ok_def fl_inv_def)
  note R = chunk_range [OF ch c(1,4), folded c(2,3)]
  from unmap_range_pages [OF R(3) assms(4,5)]
  have p: "unat (fst c) + 12 \<le> unat p" "unat p + 4096 \<le> unat (fst c) + 12 + unat (snd c)" using R(1,2) c(4) by (auto simp: word_le_nat_alt)
  have "apart_chunks blk c" if "blk \<in> bs - {(h, z)}" for blk using H c(1) that by (auto simp: heap_ok_def)
  then have "\<forall>blk \<in> bs - {(h, z)}. unat p + 4096 \<le> unat (fst blk) \<or> unat (fst blk) + 12 + unat (snd blk) \<le> unat p"
    using p by (fastforce simp: apart_chunks_def)
  moreover have "unat p + 4096 \<le> unat (fst d) \<or> unat (fst d) + 12 \<le> unat p" if "d \<in> set (spec_free (h, z) cs)" for d
    using chunks_in_apart [OF ch that c(1)] p by (auto simp: apart_chunks_def)
  ultimately show ?thesis by blast
qed

definition unmap_heap :: free_list_manager where
  "unmap_heap = lock_release (take_chunk 0x1000 4 ((FreeList_init heap0 0x1000 0x5000 True)\<lparr>fl_lock := True\<rparr>))"

lemma unmap_heap_ok: "heap_ok unmap_heap [(0x1010, 0x3FE4)] {(0x1000, 4)}"
  using heap_alloc_hit(1) [of "FreeList_init heap0 0x1000 0x5000 True" "[]" "0x1000" "0x3FF4" "[]" "{}" 4]
    FreeList_init_heap_ok [of "0x1000" "0x5000" heap0 True]
  by (simp add: unmap_heap_def heap0_def remainder_def taken_def)

lemma unmap_heap_free: "map_option snd (FreeList_free True unmap_heap 0x100C) = Some (Some (0x100C, 0x4FFF))"
  by code_simp

lemma unmap_heap_unmap:
  "\<exists>st' r. Management_unmap_range \<lparr>mg_mem = (\<lambda>a. 0), pageFrameAllocator = PageFrameAllocator_new,
      pagingAreaManager = PagingAreaManager_new, ioMemManager = IOMemoryManager_new, currentDirectory = small_dir\<rparr>
      0x100C 0x4FFF = Inr (st', r, [0x2000, 0x3000, 0x4000])"
proof -
  have "unmap_start 0x100C = 0x2000" "unmap_end 0x4FFF = 0x4000" by (simp_all add: unmap_start_def unmap_end_def)
  moreover have "PageDirectory_unmap (\<lambda>a. 0) d va = ((\<lambda>a. 0), 0)" for d va
    by (simp add: PageDirectory_unmap_def dir_entry_def)
  moreover have "unmap_loop 3 i a c r st = unmap_loop (Suc (Suc (Suc 0))) i a c r st" for i a c r st
    by (simp only: numeral_3_eq_3)
  ultimately show ?thesis by (simp add: Management_unmap_range_def Management_unmap_def Let_def)
qed

theorem heap_free_unmap_safe_witness:
  "\<exists>s' a b st' r visited. FreeList_free True unmap_heap 0x100C = Some (s', Some (a, b))
    \<and> Management_unmap_range \<lparr>mg_mem = (\<lambda>a. 0), pageFrameAllocator = PageFrameAllocator_new,
        pagingAreaManager = PagingAreaManager_new, ioMemManager = IOMemoryManager_new, currentDirectory = small_dir\<rparr>
        a b = Inr (st', r, visited)
    \<and> 0x3000 \<in> set visited
    \<and> (\<forall>c \<in> set (spec_free (0x1000, 4) [(0x1010, 0x3FE4)]). unat (0x3000 :: u32) + 4096 \<le> unat (fst c)
          \<or> unat (fst c) + 12 \<le> unat (0x3000 :: u32))"
proof -
  obtain s' where f: "FreeList_free True unmap_heap (0x1000 + 12) = Some (s', Some (0x100C, 0x4FFF))" using unmap_heap_free by auto
  obtain st' r where v: "Management_unmap_range \<lparr>mg_mem = (\<lambda>a. 0), pageFrameAllocator = PageFrameAllocator_new,
      pagingAreaManager = PagingAreaManager_new, ioMemManager = IOMemoryManager_new, currentDirectory = small_dir\<rparr>
      0x100C 0x4FFF = Inr (st', r, [0x2000, 0x3000, 0x4000])" using unmap_heap_unmap by blast
  have "0x3000 \<in> set [0x2000, 0x3000, 0x4000 :: u32]" "(0x1000, 4) \<in> {(0x1000 :: u32, 4 :: u32)}" by simp_all
  from heap_free_unmap_safe [OF unmap_heap_ok this(2) f v this(1)] show ?thesis using f v
    by (intro exI [of _ s'] exI [of _ "0x100C"] exI [of _ "0x4FFF"] exI [of _ st'] exI [of _ r]
        exI [of _ "[0x2000, 0x3000, 0x4000]"]) simp
qed

text \<open>C35. A segment descriptor keeps what was encoded in it: reading the fields of an entry back gives the
  base address, the lower 20 bits of the limit, the access byte and the lower four flags; no other
  word of the table changes.\<close>

theorem gdt_entry_roundtrip:
  assumes "4 * unat num + 3 < length gdt" "unat num < 16384"
  shows "\<exists>g. createGDTEntry gdt num base limit access flags = Inr g
    \<and> gdt_base g (unat num) = base \<and> gdt_limit g (unat num) = take_bit 20 limit
    \<and> gdt_access g (unat num) = access \<and> gdt_flags g (unat num) = take_bit 4 flags
    \<and> length g = length gdt
    \<and> (\<forall>k < length gdt. k < 4 * unat num \<or> 4 * unat num + 3 < k \<longrightarrow> g ! k = gdt ! k)"
  unfolding createGDTEntry_words [OF assms]
proof (intro exI conjI, rule refl)
  let ?n = "4 * unat num"
  let ?g = "gdt [?n := ucast (take_bit 16 limit), ?n + 1 := ucast (take_bit 16 base),
       ?n + 2 := gdt_word2 base access, ?n + 3 := gdt_word3 base limit flags]"
  have w: "?g ! ?n = ucast (take_bit 16 limit)" "?g ! (?n + 1) = ucast (take_bit 16 base)"
    "?g ! (?n + 2) = gdt_word2 base access" "?g ! (?n + 3) = gdt_word3 base limit flags" using assms(1) by simp_all
  show "gdt_base ?g (unat num) = base" unfolding gdt_base_def w by (rule gdt_fields)
  show "gdt_limit ?g (unat num) = take_bit 20 limit" unfolding gdt_limit_def w by (rule gdt_fields)
  show "gdt_access ?g (unat num) = access" unfolding gdt_access_def w by (rule gdt_fields)
  show "gdt_flags ?g (unat num) = take_bit 4 flags" unfolding gdt_flags_def w by (rule gdt_fields)
  show "length ?g = length gdt" by simp
  show "\<forall>k < length gdt. k < ?n \<or> ?n + 3 < k \<longrightarrow> ?g ! k = gdt ! k" by simp
qed

theorem gdt_entry_roundtrip_witness:
  "\<exists>g. createGDTEntry (replicate 8 0) 1 0xC0123456 0xFFFFF 0x9A 0xC = Inr g \<and> gdt_base g 1 = 0xC0123456"
  using gdt_entry_roundtrip [of 1 "replicate 8 0" "0xC0123456" "0xFFFFF" "0x9A" "0xC"] by auto

end
