(* ===== verification/Priority_Patterns.thy ===== *)
theory Priority_Patterns
  imports Arrays
begin

text \<open>The order in which the schedulers visit their ready queues: \<open>PriorityPattern\<close> and its two
  implementations \<open>AccessArrayPriorityPattern\<close> and \<open>SimplePriorityPattern\<close>
  (\<open>lib/system/priority\<close>). The schedulers only see the virtual interface, so its contract is a locale:
  a pattern never names a priority out of range and names every priority at least once in any
  window of a fixed number of calls. Both implementations interpret it.\<close>

section \<open>The interface\<close>

text \<open>\<open>due next m pat i\<close>: one of the next \<open>m\<close> calls of \<open>getNextPriority\<close> returns \<open>i\<close>.\<close>

fun due :: "('p \<Rightarrow> ('p \<times> u8) outcome) \<Rightarrow> nat \<Rightarrow> 'p \<Rightarrow> u8 \<Rightarrow> bool" where
  "due getNext 0 pat i \<longleftrightarrow> False"
| "due getNext (Suc m) pat i \<longleftrightarrow>
     (case getNext pat of Inl e \<Rightarrow> False | Inr (pat', p) \<Rightarrow> p = i \<or> due getNext m pat' i)"

locale priority_pattern =
  fixes pinv :: "'p \<Rightarrow> bool"
    and getNext :: "'p \<Rightarrow> ('p \<times> u8) outcome"
    and count :: u8
    and window :: nat
  assumes in_range: "pinv pat \<Longrightarrow> \<exists>pat' p. getNext pat = Inr (pat', p) \<and> pinv pat' \<and> p < count"
    and fair: "pinv pat \<Longrightarrow> i < count \<Longrightarrow> due getNext window pat i"

section \<open>PriorityPattern\<close>

definition PriorityPattern_count :: "u8 \<Rightarrow> u8" where
  "PriorityPattern_count priorityCount = (if priorityCount = 0 then 1 else priorityCount)"

definition PriorityPattern_getMaxPriority :: "u8 \<Rightarrow> u8" where
  "PriorityPattern_getMaxPriority priorityCount = priorityCount - 1"

definition PriorityPattern_getMinPriority :: "u8 \<Rightarrow> u8" where
  "PriorityPattern_getMinPriority priorityCount = 0"

section \<open>AccessArrayPriorityPattern\<close>

record access_pattern =
  priorityCount :: u8
  accessArray :: "u8 array"
  currentIndex :: u8

text \<open>\<open>while (tmp[index] == 0) { index++; index %= priorityCount; }\<close>. After 256 steps the index has been
  everywhere, so a search that is not over then never ends.\<close>

fun skip_used :: "nat \<Rightarrow> u8 list \<Rightarrow> u8 \<Rightarrow> u8 \<Rightarrow> u8 outcome" where
  "skip_used 0 tmp n index = Inl Spins"
| "skip_used (Suc fuel) tmp n index =
     andThen (readAt tmp (ucast index)) (\<lambda>t.
     if t = 0 then skip_used fuel tmp n ((index + 1) mod n) else Inr index)"

fun fill_access :: "nat \<Rightarrow> u32 \<Rightarrow> u8 list \<Rightarrow> u8 \<Rightarrow> u8 \<Rightarrow> u8 array \<Rightarrow> u8 array outcome" where
  "fill_access 0 i tmp n index a = Inr a"
| "fill_access (Suc m) i tmp n index a =
     andThen (skip_used 256 tmp n index) (\<lambda>index'.
     andThen (Array_set a i index') (\<lambda>a'.
     andThen (readAt tmp (ucast index')) (\<lambda>t.
     andThen (writeAt tmp (ucast index') (t - 1)) (\<lambda>tmp'.
     fill_access m (i + 1) tmp' n ((index' + 1) mod n) a'))))"

definition AccessArrayPriorityPattern_new :: "u8 \<Rightarrow> access_pattern outcome" where
  "AccessArrayPriorityPattern_new n =
     (let a = Array_new 0 (ucast n * (ucast n - 1) div 2);
          tmp = map of_nat [0..<unat n];
          index = PriorityPattern_getMaxPriority (PriorityPattern_count n)
      in andThen (fill_access (unat (Array_length a)) 0 tmp n index a) (\<lambda>a'.
         Inr \<lparr>priorityCount = PriorityPattern_count n, accessArray = a', currentIndex = 0\<rparr>))"

definition AccessArray_getNextPriority :: "access_pattern \<Rightarrow> (access_pattern \<times> u8) outcome" where
  "AccessArray_getNextPriority pat =
     (let index = ucast ((ucast (currentIndex pat) :: u32) mod (Array_length (accessArray pat) + 1)) :: u8;
          pat' = pat\<lparr>currentIndex := currentIndex pat + 1\<rparr>
      in if ucast index = Array_length (accessArray pat) then Inr (pat', 0)
         else andThen (Array_get (accessArray pat) (ucast index)) (\<lambda>p. Inr (pat', p)))"

definition AccessArray_reset :: "access_pattern \<Rightarrow> access_pattern" where
  "AccessArray_reset pat = pat\<lparr>currentIndex := 0\<rparr>"

section \<open>SimplePriorityPattern\<close>

record simple_pattern =
  simple_priorityCount :: u8
  currentPriority :: u8

definition SimplePriorityPattern_new :: "u8 \<Rightarrow> simple_pattern" where
  "SimplePriorityPattern_new n =
     \<lparr>simple_priorityCount = PriorityPattern_count n, currentPriority = 0\<rparr>"

definition Simple_getNextPriority :: "simple_pattern \<Rightarrow> (simple_pattern \<times> u8) outcome" where
  "Simple_getNextPriority pat =
     Inr (pat\<lparr>currentPriority := currentPriority pat + 1\<rparr>,
          currentPriority pat mod simple_priorityCount pat)"

definition Simple_reset :: "simple_pattern \<Rightarrow> simple_pattern" where
  "Simple_reset pat = pat\<lparr>currentPriority := 0\<rparr>"

section \<open>Both patterns are fair\<close>

text \<open>Both implementations count an 8-bit index up and reduce it modulo a period. Where the index
  wraps at 256 the sequence starts over, so a residue shows up within two periods.\<close>

lemma unat_Suc_u8: "unat (c + 1 :: u8) = (unat c + 1) mod 256"
  by (simp add: unat_word_ariths)

lemma residue_soon:
  fixes c d r :: nat
  assumes "0 < d" "d \<le> 256" "r < d" "c < 256"
  shows "\<exists>k < 2 * d. ((c + k) mod 256) mod d = r"
proof (cases "c + d \<le> 256")
  case True
  define k where "k = (r + d - c mod d) mod d"
  have cd: "c mod d < d" using assms by simp
  have "(c + k) mod d = (c mod d + (r + d - c mod d)) mod d"
    unfolding k_def by (simp add: mod_add_right_eq mod_add_left_eq)
  also have "c mod d + (r + d - c mod d) = r + d" using cd by linarith
  also have "(r + d) mod d = r" using assms by simp
  finally have "(c + k) mod d = r" .
  moreover have "k < d" using assms by (simp add: k_def)
  ultimately show ?thesis using True by (intro exI [of _ k]) simp
next
  case False
  then have "(c + (256 - c + r)) mod 256 mod d = r" "256 - c + r < 2 * d" using assms by auto
  then show ?thesis by blast
qed

text \<open>A pattern whose state is an 8-bit counter and whose output is a function of it.\<close>

lemma due_counter:
  assumes step: "\<And>c. getNext (st c) = Inr (st (c + 1), f c)"
  shows "due getNext m (st c) i \<longleftrightarrow> (\<exists>k < m. f (c + of_nat k) = i)"
proof (induction m arbitrary: c)
  case (Suc m)
  have "(\<exists>k < Suc m. f (c + of_nat k) = i) \<longleftrightarrow> f c = i \<or> (\<exists>k < m. f (c + of_nat (Suc k)) = i)"
    using Ex_less_Suc2 [of m "\<lambda>k. f (c + of_nat k) = i"] by simp
  then show ?case using Suc [of "c + 1"] by (simp add: step add.assoc)
qed simp

lemma unat_add_of_nat_u8: "unat (c + of_nat k :: u8) = (unat c + k) mod 256"
  by (simp add: unat_word_ariths unat_of_nat mod_add_right_eq)

lemma unat_ucast_u8: "unat (ucast (c :: u8) :: u32) = unat c"
proof -
  have "unat c < 2 ^ 32" using unat_u8_bound [of c] by (simp del: unat_u8_bound)
  then have "take_bit 32 (unat c) = unat c" by (rule take_bit_nat_eq_self)
  then show ?thesis by (simp add: unsigned_ucast_eq)
qed

text \<open>The pattern the kernel builds: priority 4 is named four times in a cycle of eleven, 0 once.\<close>

definition kernel_pattern :: "u8 \<Rightarrow> access_pattern" where
  "kernel_pattern c = \<lparr>priorityCount = 5,
     accessArray = \<lparr>arr_array = [4, 1, 2, 3, 4, 2, 3, 4, 3, 4], arr_capacity = 10\<rparr>, currentIndex = c\<rparr>"

definition kernel_priority :: "nat \<Rightarrow> u8" where
  "kernel_priority r = [4, 1, 2, 3, 4, 2, 3, 4, 3, 4, 0] ! r"

lemma kernel_pattern_built: "AccessArrayPriorityPattern_new 5 = Inr (kernel_pattern 0)"
  by code_simp

lemma below_11: "(r :: nat) < 11 \<Longrightarrow> r \<in> {0, 1, 2, 3, 4, 5, 6, 7, 8, 9, 10}"
  unfolding insert_iff empty_iff by presburger

lemma kernel_pattern_step:
  "AccessArray_getNextPriority (kernel_pattern c) =
     Inr (kernel_pattern (c + 1), kernel_priority (unat c mod 11))"
proof -
  define r where "r = unat c mod 11"
  have r: "r < 11" by (simp add: r_def)
  have "unat ((ucast c :: u32) mod 11) = r"
    by (simp add: r_def unat_mod unat_ucast_u8)
  then have i: "(ucast c :: u32) mod 11 = of_nat r" using r by (simp add: word_unat_eq_iff unat_of_nat)
  have "AccessArray_getNextPriority (kernel_pattern c) =
      Inr (kernel_pattern (c + 1), kernel_priority r)"
    using below_11 [OF r] unfolding AccessArray_getNextPriority_def Let_def
    by (elim insertE) (simp_all add: kernel_pattern_def Array_length_def i Array_get_def kernel_priority_def word_le_nat_alt)
  then show ?thesis by (simp add: r_def)
qed

lemma kernel_priority_range: "r < 11 \<Longrightarrow> kernel_priority r < 5"
  by (drule below_11, elim insertE) (simp_all add: kernel_priority_def word_less_nat_alt)

lemma kernel_priority_onto: "(i :: u8) < 5 \<Longrightarrow> \<exists>r < 11. kernel_priority r = i"
proof -
  assume "i < 5"
  then have "unat i < 5" by (simp add: word_less_nat_alt)
  then have "unat i \<in> {0, 1, 2, 3, 4}" unfolding insert_iff empty_iff by presburger
  then have "i \<in> {0, 1, 2, 3, 4}" by (auto simp: word_unat_eq_iff)
  then show ?thesis
  proof (elim insertE)
    show ?thesis if "i = 0" using that by (intro exI [of _ 10]) (simp add: kernel_priority_def)
    show ?thesis if "i = 1" using that by (intro exI [of _ 1]) (simp add: kernel_priority_def)
    show ?thesis if "i = 2" using that by (intro exI [of _ 2]) (simp add: kernel_priority_def)
    show ?thesis if "i = 3" using that by (intro exI [of _ 3]) (simp add: kernel_priority_def)
    show ?thesis if "i = 4" using that by (intro exI [of _ 0]) (simp add: kernel_priority_def)
  qed simp
qed

interpretation access: priority_pattern "\<lambda>pat. pat = kernel_pattern (currentIndex pat)"
  AccessArray_getNextPriority 5 22
proof
  fix pat :: access_pattern and i :: u8
  assume pat: "pat = kernel_pattern (currentIndex pat)"
  define c where "c = currentIndex pat"
  have pc: "pat = kernel_pattern c" using pat by (simp add: c_def)
  show "\<exists>pat' p. AccessArray_getNextPriority pat = Inr (pat', p)
      \<and> pat' = kernel_pattern (currentIndex pat') \<and> p < 5"
    unfolding pc kernel_pattern_step by (simp add: kernel_priority_range) (simp add: kernel_pattern_def)
  assume "i < 5"
  then obtain r where r: "r < 11" "kernel_priority r = i" using kernel_priority_onto by blast
  obtain k where "k < 22" "((unat c + k) mod 256) mod 11 = r"
    using residue_soon [of 11 r "unat c"] r(1) by auto
  then show "due AccessArray_getNextPriority 22 pat i"
    unfolding pc due_counter [of AccessArray_getNextPriority kernel_pattern, OF kernel_pattern_step]
    using r(2) by (intro exI [of _ k]) (simp add: unat_add_of_nat_u8)
qed

definition simple_state :: "u8 \<Rightarrow> u8 \<Rightarrow> simple_pattern" where
  "simple_state n c = \<lparr>simple_priorityCount = PriorityPattern_count n, currentPriority = c\<rparr>"

lemma simple_step:
  "Simple_getNextPriority (simple_state n c) = Inr (simple_state n (c + 1), c mod PriorityPattern_count n)"
  by (simp add: Simple_getNextPriority_def simple_state_def)

interpretation simple: priority_pattern "\<lambda>pat. pat = simple_state n (currentPriority pat)"
  Simple_getNextPriority "PriorityPattern_count n" "2 * unat (PriorityPattern_count n)" for n
proof
  fix pat :: simple_pattern and i :: u8
  let ?n = "PriorityPattern_count n"
  assume pat: "pat = simple_state n (currentPriority pat)"
  define c where "c = currentPriority pat"
  have pc: "pat = simple_state n c" using pat by (simp add: c_def)
  have n0: "?n \<noteq> 0" by (simp add: PriorityPattern_count_def)
  then have n: "0 < unat ?n" by (simp add: unat_gt_0)
  show "\<exists>pat' p. Simple_getNextPriority pat = Inr (pat', p)
      \<and> pat' = simple_state n (currentPriority pat') \<and> p < ?n"
    unfolding pc simple_step using n by (simp add: word_less_nat_alt unat_mod) (simp add: simple_state_def)
  assume "i < ?n"
  then have "unat i < unat ?n" by (simp add: word_less_nat_alt)
  moreover have "unat c < 256" "unat ?n \<le> 256" by (simp_all add: less_imp_le)
  ultimately obtain k where "k < 2 * unat ?n" "((unat c + k) mod 256) mod unat ?n = unat i"
    using residue_soon [of "unat ?n" "unat i" "unat c"] n by auto
  then show "due Simple_getNextPriority (2 * unat ?n) pat i"
    unfolding pc due_counter [of Simple_getNextPriority "simple_state n", OF simple_step]
    by (intro exI [of _ k]) (simp add: unat_add_of_nat_u8 unat_mod word_unat_eq_iff)
qed

end
