(* ===== verification/Scheduling.thy ===== *)
theory Scheduling
  imports Queues Spinlocks Priority_Patterns
begin

text \<open>The thread scheduler (\<open>kernel/thread/Scheduler.cpp\<close>) and the parts of \<open>Thread.cpp\<close> it works on.
  Threads are pointers into a store of thread objects. \<open>getNext\<close> is the virtual
  \<open>PriorityPattern::getNextPriority\<close>. A context switch ends in \<open>releaseSchedulerLock\<close>
  (\<open>kernel/thread/thread.asm\<close>), so \<open>dispatch\<close> and \<open>startUp\<close> free the lock after changing the current
  thread.\<close>

section \<open>State\<close>

record thread =
  th_id :: u32
  th_priority :: u8
  th_started :: bool
  th_finished :: bool

record 'p scheduler =
  initialized :: bool
  currentThread :: u32
  priority :: 'p
  readyQueues :: "u32 array_queue array"
  sched_lock :: u8
  threads :: "u32 \<Rightarrow> thread"

definition Scheduler_new :: "u8 \<Rightarrow> 'p \<Rightarrow> (u32 \<Rightarrow> thread) \<Rightarrow> 'p scheduler" where
  "Scheduler_new n pattern ths =
     \<lparr>initialized = False, currentThread = 0, priority = pattern,
      readyQueues = Array_new (ABQ_new 0) (ucast n), sched_lock = Spinlock_new, threads = ths\<rparr>"

definition Scheduler_getInstance :: "(u32 \<Rightarrow> thread) \<Rightarrow> access_pattern scheduler outcome" where
  "Scheduler_getInstance ths =
     andThen (AccessArrayPriorityPattern_new 5) (\<lambda>pattern.
     Inr (Scheduler_new (priorityCount pattern) pattern ths))"

section \<open>Operations\<close>

definition releaseSchedulerLock :: "'p scheduler \<Rightarrow> 'p scheduler" where
  "releaseSchedulerLock s = s\<lparr>sched_lock := Spinlock_release (sched_lock s)\<rparr>"

definition Scheduler_acquire :: "'p scheduler \<Rightarrow> 'p scheduler outcome" where
  "Scheduler_acquire s = andThen (Spinlock_acquire (sched_lock s)) (\<lambda>l. Inr (s\<lparr>sched_lock := l\<rparr>))"

definition Scheduler_isInitialized :: "'p scheduler \<Rightarrow> bool" where
  "Scheduler_isInitialized s = initialized s"

definition Scheduler_isThreadWaiting :: "'p scheduler \<Rightarrow> bool" where
  "Scheduler_isThreadWaiting s = list_ex (\<lambda>queue. \<not> ABQ_isEmpty queue) (arr_array (readyQueues s))"

definition Scheduler_getThreadCount :: "'p scheduler \<Rightarrow> u32" where
  "Scheduler_getThreadCount s = foldl (\<lambda>n queue. n + ABQ_size queue) 0 (arr_array (readyQueues s))"

definition Scheduler_getMaxPriority :: "'p scheduler \<Rightarrow> u8" where
  "Scheduler_getMaxPriority s = ucast (Array_length (readyQueues s) - 1)"

text \<open>\<open>readyQueues[p].push(t)\<close> and \<open>readyQueues[p].remove(t)\<close>.\<close>

definition push_ready :: "u32 array_queue array \<Rightarrow> u8 \<Rightarrow> u32 \<Rightarrow> u32 array_queue array outcome" where
  "push_ready qs p t =
     andThen (Array_get qs (ucast p)) (\<lambda>q.
     andThen (ABQ_push 0 q t) (\<lambda>q'. Array_set qs (ucast p) q'))"

definition remove_ready :: "u32 array_queue array \<Rightarrow> u8 \<Rightarrow> u32 \<Rightarrow> u32 array_queue array outcome" where
  "remove_ready qs p t =
     andThen (Array_get qs (ucast p)) (\<lambda>q.
     andThen (ABQ_remove q t) (\<lambda>(q', removed). Array_set qs (ucast p) q'))"

text \<open>The search of \<open>getNextThread\<close> for a queue that is not empty: \<open>None\<close> when it never ends.\<close>

partial_function (option) find_queue ::
  "('p \<Rightarrow> ('p \<times> u8) outcome) \<Rightarrow> u32 array_queue array \<Rightarrow> 'p \<Rightarrow> ('p \<times> u8) outcome option" where
  "find_queue getNext qs pat =
     (case getNext pat of
        Inl e \<Rightarrow> Some (Inl e)
      | Inr (pat', p) \<Rightarrow>
          (case Array_get qs (ucast p) of
             Inl e \<Rightarrow> Some (Inl e)
           | Inr q \<Rightarrow> if ABQ_isEmpty q then find_queue getNext qs pat' else Some (Inr (pat', p))))"

declare find_queue.simps [code]

definition Scheduler_getNextThread ::
  "('p \<Rightarrow> ('p \<times> u8) outcome) \<Rightarrow> 'p scheduler \<Rightarrow> ('p scheduler \<times> u32) outcome" where
  "Scheduler_getNextThread getNext s =
     (if \<not> Scheduler_isThreadWaiting s then Inl (Thrown ILLEGAL_STATE)
      else case find_queue getNext (readyQueues s) (priority s) of
        None \<Rightarrow> Inl Spins
      | Some r \<Rightarrow> andThen r (\<lambda>(pat, p).
          andThen (Array_get (readyQueues s) (ucast p)) (\<lambda>q.
          andThen (ABQ_pop q) (\<lambda>(q', t).
          andThen (Array_set (readyQueues s) (ucast p) q') (\<lambda>qs.
          Inr (s\<lparr>priority := pat, readyQueues := qs\<rparr>, t))))))"

definition Scheduler_dispatch :: "'p scheduler \<Rightarrow> u32 \<Rightarrow> 'p scheduler outcome" where
  "Scheduler_dispatch s t =
     (if \<not> initialized s then Inl (Thrown ILLEGAL_STATE)
      else Inr (releaseSchedulerLock (s\<lparr>currentThread := t\<rparr>)))"

definition Scheduler_startUp ::
  "('p \<Rightarrow> ('p \<times> u8) outcome) \<Rightarrow> 'p scheduler \<Rightarrow> 'p scheduler outcome" where
  "Scheduler_startUp getNext s =
     andThen (Scheduler_acquire s) (\<lambda>s1.
     if \<not> Scheduler_isThreadWaiting s1 then Inl (Thrown ILLEGAL_STATE)
     else andThen (Scheduler_getNextThread getNext s1) (\<lambda>(s2, t).
          Inr (releaseSchedulerLock (s2\<lparr>currentThread := t, initialized := True\<rparr>))))"

definition Scheduler_ready :: "'p scheduler \<Rightarrow> u32 \<Rightarrow> 'p scheduler outcome" where
  "Scheduler_ready s that =
     (if th_started (threads s that) then Inl (Thrown ILLEGAL_STATE)
      else andThen (Scheduler_acquire s) (\<lambda>s1.
           andThen (push_ready (readyQueues s1) (th_priority (threads s1 that)) that) (\<lambda>qs.
           Inr (releaseSchedulerLock (s1\<lparr>readyQueues := qs,
                  threads := (threads s1)(that := (threads s1 that)\<lparr>th_started := True\<rparr>)\<rparr>)))))"

definition Scheduler_exit ::
  "('p \<Rightarrow> ('p \<times> u8) outcome) \<Rightarrow> 'p scheduler \<Rightarrow> 'p scheduler outcome" where
  "Scheduler_exit getNext s =
     andThen (Scheduler_acquire s) (\<lambda>s1.
     if \<not> initialized s1 then Inl (Thrown ILLEGAL_STATE)
     else if \<not> Scheduler_isThreadWaiting s1 then Inl (Thrown ILLEGAL_STATE)
     else andThen (Scheduler_getNextThread getNext s1) (\<lambda>(s2, t).
          let c = currentThread s2
          in Scheduler_dispatch
               (s2\<lparr>threads := (threads s2)(c := (threads s2 c)\<lparr>th_finished := True\<rparr>)\<rparr>) t))"

definition Scheduler_kill :: "'p scheduler \<Rightarrow> u32 \<Rightarrow> 'p scheduler outcome" where
  "Scheduler_kill s that =
     andThen (Scheduler_acquire s) (\<lambda>s1.
     if \<not> initialized s1 then Inl (Thrown ILLEGAL_STATE)
     else if th_id (threads s1 that) = th_id (threads s1 (currentThread s1)) then Inl (Thrown ILLEGAL_STATE)
     else andThen (remove_ready (readyQueues s1) (th_priority (threads s1 that)) that) (\<lambda>qs.
          Inr (releaseSchedulerLock (s1\<lparr>readyQueues := qs,
                 threads := (threads s1)(that := (threads s1 that)\<lparr>th_finished := True\<rparr>)\<rparr>))))"

definition Scheduler_yield ::
  "('p \<Rightarrow> ('p \<times> u8) outcome) \<Rightarrow> 'p scheduler \<Rightarrow> 'p scheduler outcome" where
  "Scheduler_yield getNext s =
     (if \<not> Scheduler_isThreadWaiting s then Inr s
      else let (l, acquired) = Spinlock_tryAcquire (sched_lock s); s1 = s\<lparr>sched_lock := l\<rparr>
           in if \<not> acquired then Inr s1
              else andThen (Scheduler_getNextThread getNext s1) (\<lambda>(s2, t).
                   andThen (push_ready (readyQueues s2) (th_priority (threads s2 (currentThread s2)))
                              (currentThread s2)) (\<lambda>qs.
                   Scheduler_dispatch (s2\<lparr>readyQueues := qs\<rparr>) t)))"

definition Scheduler_block ::
  "('p \<Rightarrow> ('p \<times> u8) outcome) \<Rightarrow> 'p scheduler \<Rightarrow> 'p scheduler outcome" where
  "Scheduler_block getNext s =
     (if \<not> Scheduler_isThreadWaiting s then Inl (Thrown ILLEGAL_STATE)
      else andThen (Scheduler_acquire s) (\<lambda>s1.
           andThen (Scheduler_getNextThread getNext s1) (\<lambda>(s2, t). Scheduler_dispatch s2 t)))"

definition Scheduler_deblock :: "'p scheduler \<Rightarrow> u32 \<Rightarrow> 'p scheduler outcome" where
  "Scheduler_deblock s that =
     andThen (Scheduler_acquire s) (\<lambda>s1.
     if \<not> initialized s1 then Inl (Thrown ILLEGAL_STATE)
     else andThen (push_ready (readyQueues s1) (th_priority (threads s1 that)) that) (\<lambda>qs.
          Inr (releaseSchedulerLock (s1\<lparr>readyQueues := qs\<rparr>))))"

definition Scheduler_changePriority :: "'p scheduler \<Rightarrow> u32 \<Rightarrow> u8 \<Rightarrow> ('p scheduler \<times> u8) outcome" where
  "Scheduler_changePriority s that prio =
     (let prio' = (if prio > Scheduler_getMaxPriority s then Scheduler_getMaxPriority s else prio)
      in andThen (Scheduler_acquire s) (\<lambda>s1.
         if that = currentThread s1 then Inr (releaseSchedulerLock s1, prio')
         else andThen (remove_ready (readyQueues s1) (th_priority (threads s1 that)) that) (\<lambda>qs.
              andThen (push_ready qs prio' that) (\<lambda>qs'.
              Inr (releaseSchedulerLock (s1\<lparr>readyQueues := qs'\<rparr>), prio')))))"

section \<open>Threads\<close>

definition IdGenerator_getId :: "u32 \<Rightarrow> u32 \<times> u32" where
  "IdGenerator_getId ids = Atomic_fetchAndInc ids"

text \<open>The constructors: a fresh id, the given priority cut to the highest one (or the middle one), not
  started, not finished.\<close>

definition Thread_new :: "'p scheduler \<Rightarrow> u32 \<Rightarrow> u8 \<Rightarrow> u32 \<Rightarrow> 'p scheduler \<times> u32" where
  "Thread_new s this prio idGenerator =
     (let prio' = (if prio > Scheduler_getMaxPriority s then Scheduler_getMaxPriority s else prio);
          (idGenerator', i) = IdGenerator_getId idGenerator
      in (s\<lparr>threads := (threads s)(this :=
            \<lparr>th_id = i, th_priority = prio', th_started = False, th_finished = False\<rparr>)\<rparr>,
          idGenerator'))"

definition Thread_new_default :: "'p scheduler \<Rightarrow> u32 \<Rightarrow> u32 \<Rightarrow> 'p scheduler \<times> u32" where
  "Thread_new_default s this idGenerator =
     (let (idGenerator', i) = IdGenerator_getId idGenerator
      in (s\<lparr>threads := (threads s)(this :=
            \<lparr>th_id = i, th_priority = Scheduler_getMaxPriority s div 2,
             th_started = False, th_finished = False\<rparr>)\<rparr>,
          idGenerator'))"

definition Thread_start :: "'p scheduler \<Rightarrow> u32 \<Rightarrow> 'p scheduler outcome" where
  "Thread_start s this = Scheduler_ready s this"

definition Thread_setPriority :: "'p scheduler \<Rightarrow> u32 \<Rightarrow> u8 \<Rightarrow> 'p scheduler outcome" where
  "Thread_setPriority s this prio =
     andThen (Scheduler_changePriority s this prio) (\<lambda>(s', p).
     Inr (s'\<lparr>threads := (threads s')(this := (threads s' this)\<lparr>th_priority := p\<rparr>)\<rparr>))"

text \<open>\<open>Thread::yield\<close> is the system call registered in the scheduler's constructor.\<close>

definition Thread_yield :: "('p \<Rightarrow> ('p \<times> u8) outcome) \<Rightarrow> 'p scheduler \<Rightarrow> ('p scheduler \<times> bool) outcome" where
  "Thread_yield getNext s =
     (if Scheduler_isInitialized s then andThen (Scheduler_yield getNext s) (\<lambda>s'. Inr (s', True))
      else Inr (s, False))"

definition Stack_getStart :: "u32 \<Rightarrow> u32 \<Rightarrow> u32" where
  "Stack_getStart stack size' =
     (let startAddress = stack + size'
      in if startAddress mod 16 \<noteq> 0 then and startAddress (-16) else startAddress)"

end
