(* ===== verification/Scheduling_Properties.thy ===== *)
theory Scheduling_Properties
  imports Scheduling
begin

text \<open>The scheduler keeps every ready thread in exactly one queue, the one of its priority, and with a
  fair priority pattern no ready thread starves. The queue lemmas come from the \<open>fifo\<close> contract,
  the progress lemmas are proved once for every \<open>priority_pattern\<close>.\<close>

section \<open>Ready queues\<close>

definition qs_wf :: "u8 \<Rightarrow> u32 array_queue array \<Rightarrow> bool" where
  "qs_wf n qs \<longleftrightarrow> array_wf qs \<and> length (arr_array qs) = unat n \<and> (\<forall>q \<in> set (arr_array qs). al_wf q)"

definition qs_abs :: "u32 array_queue array \<Rightarrow> u32 list list" where
  "qs_abs qs = map al_abs (arr_array qs)"

lemma length_qs_abs: "qs_wf n qs \<Longrightarrow> length (qs_abs qs) = unat n"
  by (simp add: qs_wf_def qs_abs_def)

lemma qs_get:
  assumes "qs_wf n qs"
  shows "Array_get qs (ucast (p :: u8)) =
    (if p < n then Inr (arr_array qs ! unat p) else Inl (Thrown OUT_OF_BOUNDS))"
  using assms by (simp add: qs_wf_def Array_get_wf unat_ucast_u8 word_less_nat_alt)

lemma qs_queue:
  assumes "qs_wf n qs" "p < n"
  shows "al_wf (arr_array qs ! unat p)" "al_abs (arr_array qs ! unat p) = qs_abs qs ! unat p"
  using assms by (auto simp: qs_wf_def qs_abs_def word_less_nat_alt)

lemma qs_set:
  assumes "qs_wf n qs" "p < n" "al_wf q"
  shows "\<exists>qs'. Array_set qs (ucast p) q = Inr qs' \<and> qs_wf n qs'
    \<and> qs_abs qs' = (qs_abs qs)[unat p := al_abs q]"
proof -
  have p: "unat p < length (arr_array qs)" "\<not> arr_capacity qs \<le> ucast p"
    using assms by (simp_all add: qs_wf_def array_wf_def word_less_nat_alt word_le_nat_alt unat_ucast_u8)
  then have "Array_set qs (ucast p) q = Inr (qs\<lparr>arr_array := (arr_array qs)[unat p := q]\<rparr>)"
    by (simp add: Array_set_def unat_ucast_u8)
  moreover have "set ((arr_array qs)[unat p := q]) \<subseteq> insert q (set (arr_array qs))"
    by (rule set_update_subset_insert)
  ultimately show ?thesis
    using assms(1,3) by (auto simp: qs_wf_def qs_abs_def array_wf_def map_update)
qed

lemma push_ready_abs:
  assumes "qs_wf n qs" "p < n" "length (qs_abs qs ! unat p) < 2147483648"
  shows "\<exists>qs'. push_ready qs p t = Inr qs' \<and> qs_wf n qs'
    \<and> qs_abs qs' = (qs_abs qs)[unat p := qs_abs qs ! unat p @ [t]]"
proof -
  obtain q where q: "ABQ_push 0 (arr_array qs ! unat p) t = Inr q" "al_wf q"
      "al_abs q = qs_abs qs ! unat p @ [t]"
    using abq.push_back [of "arr_array qs ! unat p" 0 t] qs_queue [OF assms(1,2)] assms(3) by auto
  then show ?thesis using qs_set [OF assms(1,2) q(2)] by (simp add: push_ready_def qs_get [OF assms(1)] assms(2))
qed

lemma push_ready_fails: "qs_wf n qs \<Longrightarrow> \<not> p < n \<Longrightarrow> push_ready qs p t = Inl (Thrown OUT_OF_BOUNDS)"
  by (simp add: push_ready_def qs_get)

lemma ABQ_remove_member:
  "al_wf q \<Longrightarrow> x \<in> set (al_abs q)
     \<Longrightarrow> \<exists>q'. ABQ_remove q x = Inr (q', True) \<and> al_wf q' \<and> al_abs q' = remove1 x (al_abs q)"
  unfolding ABQ_remove_def by (rule ArrayList_remove_member)

lemma ABQ_remove_other:
  assumes "al_wf q" "x \<notin> set (al_abs q)" "ABQ_remove q x = Inr r"
  shows "r = (q, False)"
proof -
  have "al_length q \<le> UINT32_MAX"
    using unat_u32_bound [of "al_length q"] by (simp add: word_le_nat_alt del: unat_u32_bound)
  then show ?thesis
    using assms by (auto simp: ABQ_remove_def ArrayList_remove_def indexOf_abs split: if_splits)
qed


lemma remove_ready_member:
  assumes "qs_wf n qs" "p < n" "t \<in> set (qs_abs qs ! unat p)"
  shows "\<exists>qs'. remove_ready qs p t = Inr qs' \<and> qs_wf n qs'
    \<and> qs_abs qs' = (qs_abs qs)[unat p := remove1 t (qs_abs qs ! unat p)]"
proof -
  obtain q where q: "ABQ_remove (arr_array qs ! unat p) t = Inr (q, True)" "al_wf q"
      "al_abs q = remove1 t (qs_abs qs ! unat p)"
    using ABQ_remove_member [of "arr_array qs ! unat p" t] qs_queue [OF assms(1,2)] assms(3) by auto
  then show ?thesis
    using qs_set [OF assms(1,2) q(2)] by (simp add: remove_ready_def qs_get [OF assms(1)] assms(2))
qed

lemma remove_ready_other:
  assumes "qs_wf n qs" "p < n \<Longrightarrow> t \<notin> set (qs_abs qs ! unat p)" "remove_ready qs p t = Inr qs'"
  shows "p < n \<and> qs_wf n qs' \<and> qs_abs qs' = qs_abs qs"
proof -
  have p: "p < n" using assms(3) by (auto simp: remove_ready_def qs_get [OF assms(1)] split: if_splits)
  note q = qs_queue [OF assms(1) p]
  obtain r where r: "ABQ_remove (arr_array qs ! unat p) t = Inr r"
      "Array_set qs (ucast p) (fst r) = Inr qs'"
    using assms(3) p by (auto simp: remove_ready_def qs_get [OF assms(1)] andThen_Inr_iff split_beta)
  have "r = (arr_array qs ! unat p, False)"
    using ABQ_remove_other [OF q(1) _ r(1)] q(2) assms(2) [OF p] by simp
  then show ?thesis using qs_set [OF assms(1) p q(1)] r(2) p q(2) by auto
qed


section \<open>Well-formed schedulers\<close>

definition placed :: "(u32 \<Rightarrow> thread) \<Rightarrow> u32 list list \<Rightarrow> bool" where
  "placed th Q \<longleftrightarrow> (\<forall>i < length Q. distinct (Q ! i)
     \<and> (\<forall>t \<in> set (Q ! i). unat (th_priority (th t)) = i \<and> th_started (th t) \<and> \<not> th_finished (th t)))"

lemma mem_concat: "t \<in> set (concat Q) \<longleftrightarrow> (\<exists>i < length Q. t \<in> set (Q ! i))"
  unfolding set_concat UN_iff Bex_def by (metis in_set_conv_nth)

lemma placed_mem:
  assumes "placed th Q"
  shows "t \<in> set (concat Q) \<longleftrightarrow>
    unat (th_priority (th t)) < length Q \<and> t \<in> set (Q ! unat (th_priority (th t)))"
proof
  assume "t \<in> set (concat Q)"
  then obtain i where "i < length Q" "t \<in> set (Q ! i)" unfolding mem_concat by blast
  moreover from this have "unat (th_priority (th t)) = i" using assms by (simp add: placed_def)
  ultimately show "unat (th_priority (th t)) < length Q \<and> t \<in> set (Q ! unat (th_priority (th t)))" by simp
qed (auto simp del: set_concat simp: mem_concat)

lemma placed_threads: "placed th Q \<Longrightarrow> (\<And>t. t \<in> set (concat Q) \<Longrightarrow> th' t = th t) \<Longrightarrow> placed th' Q"
  unfolding placed_def mem_concat by (metis (full_types))

lemma placed_started:
  "placed th Q \<Longrightarrow> t \<in> set (concat Q) \<Longrightarrow> th_started (th t) \<and> \<not> th_finished (th t)"
  unfolding placed_def mem_concat by blast

lemma placed_upd: "placed th Q \<Longrightarrow> t \<notin> set (concat Q) \<Longrightarrow> placed (th(t := x)) Q"
  by (erule placed_threads) (auto simp del: set_concat)

lemma length_concat_update:
  "i < length Q \<Longrightarrow> length (concat (Q[i := xs])) + length (Q ! i) = length (concat Q) + length xs"
  by (induction Q arbitrary: i) (auto split: nat.splits)

lemma set_concat_nth: "i < length Q \<Longrightarrow> set (Q ! i) \<subseteq> set (concat Q)"
  unfolding subset_eq mem_concat by blast

lemma mem_concat_update:
  "i < length Q \<Longrightarrow> t \<in> set (concat (Q[i := xs])) \<longleftrightarrow>
     t \<in> set xs \<or> (\<exists>j < length Q. j \<noteq> i \<and> t \<in> set (Q ! j))"
  unfolding mem_concat by (auto simp: nth_list_update split: if_splits)

lemma placed_push:
  assumes "placed th Q" "t \<notin> set (concat Q)" "th_priority (th t) = p" "unat p < length Q"
    "th_started (th t)" "\<not> th_finished (th t)"
  shows "placed th (Q[unat p := Q ! unat p @ [t]])"
    "set (concat (Q[unat p := Q ! unat p @ [t]])) = insert t (set (concat Q))"
    "length (concat (Q[unat p := Q ! unat p @ [t]])) = Suc (length (concat Q))"
proof -
  have "t \<notin> set (Q ! unat p)" using assms(2) set_concat_nth [OF assms(4)] by blast
  then show "placed th (Q[unat p := Q ! unat p @ [t]])"
    using assms by (auto simp: placed_def nth_list_update)
  show "set (concat (Q[unat p := Q ! unat p @ [t]])) = insert t (set (concat Q))"
    unfolding set_eq_iff mem_concat_update [OF assms(4)] insert_iff mem_concat [of _ Q] using assms(4) by auto
  show "length (concat (Q[unat p := Q ! unat p @ [t]])) = Suc (length (concat Q))"
    using length_concat_update [OF assms(4), of "Q ! unat p @ [t]"] by simp
qed

lemma placed_remove:
  assumes "placed th Q" "i < length Q" "t \<in> set (Q ! i)"
  shows "placed th (Q[i := remove1 t (Q ! i)])"
    "set (concat (Q[i := remove1 t (Q ! i)])) = set (concat Q) - {t}"
    "Suc (length (concat (Q[i := remove1 t (Q ! i)]))) = length (concat Q)"
proof -
  have d: "distinct (Q ! i)" using assms by (simp add: placed_def)
  have only: "t \<notin> set (Q ! j)" if "j < length Q" "j \<noteq> i" for j
    using assms that unfolding placed_def by metis
  show "placed th (Q[i := remove1 t (Q ! i)])"
    using assms d by (auto simp: placed_def nth_list_update)
  show "set (concat (Q[i := remove1 t (Q ! i)])) = set (concat Q) - {t}"
    unfolding set_eq_iff mem_concat_update [OF assms(2)] Diff_iff mem_concat [of _ Q] using only d assms(2)
    by auto
  have "Suc (length (remove1 t (Q ! i))) = length (Q ! i)"
    using assms(3) length_pos_if_in_set [OF assms(3)] by (simp add: length_remove1)
  then show "Suc (length (concat (Q[i := remove1 t (Q ! i)]))) = length (concat Q)"
    using length_concat_update [OF assms(2), of "remove1 t (Q ! i)"] by linarith
qed


text \<open>Every ready thread is in the queue of its priority and nowhere else, has been started and has not
  finished; the running thread is in no queue; the lock is free between two operations. The bound
  keeps the 32-bit sizes of the queues from overflowing.\<close>

definition sched_wf :: "u8 \<Rightarrow> ('p \<Rightarrow> bool) \<Rightarrow> 'p scheduler \<Rightarrow> bool" where
  "sched_wf n pinv s \<longleftrightarrow>
     qs_wf n (readyQueues s) \<and> pinv (priority s) \<and> sched_lock s = Spinlock_new
     \<and> placed (threads s) (qs_abs (readyQueues s))
     \<and> length (concat (qs_abs (readyQueues s))) < 2147483648
     \<and> (initialized s \<longrightarrow>
          currentThread s \<notin> set (concat (qs_abs (readyQueues s)))
          \<and> th_priority (threads s (currentThread s)) < n
          \<and> th_started (threads s (currentThread s)) \<and> \<not> th_finished (threads s (currentThread s)))"

lemma isThreadWaiting_iff:
  "qs_wf n (readyQueues s) \<Longrightarrow> Scheduler_isThreadWaiting s \<longleftrightarrow> concat (qs_abs (readyQueues s)) \<noteq> []"
  by (auto simp: Scheduler_isThreadWaiting_def list_ex_iff qs_wf_def qs_abs_def ABQ_isEmpty_abs)

lemma waiting_queue:
  assumes "qs_wf n qs" "concat (qs_abs qs) \<noteq> []"
  obtains p where "p < n" "qs_abs qs ! unat p \<noteq> []"
proof -
  obtain t where "t \<in> set (concat (qs_abs qs))" using assms(2) by (metis all_not_in_conv set_empty)
  then obtain i where i: "i < length (qs_abs qs)" "qs_abs qs ! i \<noteq> []" unfolding mem_concat by force
  then have "i < unat n" by (simp add: length_qs_abs [OF assms(1)])
  then have "unat (of_nat i :: u8) = i" using unat_u8_bound [of n] by (simp add: unat_of_nat del: unat_u8_bound)
  then show ?thesis using that [of "of_nat i"] i \<open>i < unat n\<close> by (simp add: word_less_nat_alt)
qed

lemma acquire_free:
  "sched_lock s = Spinlock_new \<Longrightarrow> Scheduler_acquire s = Inr (s\<lparr>sched_lock := SPINLOCK_LOCK\<rparr>)"
  by (simp add: Scheduler_acquire_def acquire_release)

lemma release_lock [simp]: "Spinlock_release l = Spinlock_new"
  by (simp add: atomic_defs)

text \<open>What \<open>getNextThread\<close> does to a scheduler whose queues are well-formed: it takes the first thread of
  a queue, and no queue that is due and not empty is passed over.\<close>

definition took :: "('p \<Rightarrow> bool) \<Rightarrow> u8 \<Rightarrow> 'p scheduler \<Rightarrow> u8 \<Rightarrow> u32 \<Rightarrow> 'p scheduler \<Rightarrow> bool" where
  "took pinv n s p t s' \<longleftrightarrow> p < n \<and> qs_wf n (readyQueues s') \<and> pinv (priority s')
     \<and> s' = s\<lparr>priority := priority s', readyQueues := readyQueues s'\<rparr>
     \<and> (\<exists>ts. qs_abs (readyQueues s) ! unat p = t # ts
          \<and> qs_abs (readyQueues s') = (qs_abs (readyQueues s))[unat p := ts])"

context priority_pattern
begin

lemma find_queue_due:
  assumes "qs_wf count qs" "i < count" "qs_abs qs ! unat i \<noteq> []" "pinv pat" "due getNext m pat i"
  shows "\<exists>pat' p. find_queue getNext qs pat = Some (Inr (pat', p)) \<and> pinv pat' \<and> p < count
    \<and> qs_abs qs ! unat p \<noteq> [] \<and> (p = i \<or> (\<exists>m' < m. due getNext m' pat' i))"
  using assms(4,5)
proof (induction m arbitrary: pat)
  case (Suc m)
  obtain pat1 p where next': "getNext pat = Inr (pat1, p)" "pinv pat1" "p < count"
    using in_range [OF Suc.prems(1)] by blast
  have e: "ABQ_isEmpty (arr_array qs ! unat p) \<longleftrightarrow> qs_abs qs ! unat p = []"
    using qs_queue [OF assms(1) next'(3)] by (simp add: ABQ_isEmpty_abs)
  show ?case
  proof (cases "qs_abs qs ! unat p = []")
    case True
    then have "p \<noteq> i" using assms(3) by auto
    then have "due getNext m pat1 i" using Suc.prems(2) next'(1) by simp
    then show ?thesis using Suc.IH [OF next'(2)] True e next'
      by (subst find_queue.simps) (auto simp: qs_get [OF assms(1)] intro: less_SucI)
  next
    case False
    then have "p = i \<or> due getNext m pat1 i" using Suc.prems(2) next'(1) by simp
    then show ?thesis using False e next'
      by (subst find_queue.simps) (auto simp: qs_get [OF assms(1)])
  qed
qed simp

lemma getNextThread_due:
  assumes "qs_wf count (readyQueues s)" "pinv (priority s)"
    and "i < count" "qs_abs (readyQueues s) ! unat i \<noteq> []" "due getNext m (priority s) i"
  shows "\<exists>s' p t. Scheduler_getNextThread getNext s = Inr (s', t) \<and> took pinv count s p t s'
    \<and> (p = i \<or> (\<exists>m' < m. due getNext m' (priority s') i))"
proof -
  let ?Q = "qs_abs (readyQueues s)"
  obtain pat p where f: "find_queue getNext (readyQueues s) (priority s) = Some (Inr (pat, p))"
      "pinv pat" "p < count" "?Q ! unat p \<noteq> []" "p = i \<or> (\<exists>m' < m. due getNext m' pat i)"
    using find_queue_due [OF assms(1,3,4,2,5)] by blast
  note q = qs_queue [OF assms(1) f(3)]
  obtain t ts where t: "?Q ! unat p = t # ts" using f(4) by (cases "?Q ! unat p") auto
  obtain q' where q': "ABQ_pop (arr_array (readyQueues s) ! unat p) = Inr (q', t)" "al_wf q'" "al_abs q' = ts"
    using abq.pop_front [OF q(1)] q(2) t by auto
  obtain qs' where qs': "Array_set (readyQueues s) (ucast p) q' = Inr qs'" "qs_wf count qs'"
      "qs_abs qs' = ?Q[unat p := ts]"
    using qs_set [OF assms(1) f(3) q'(2)] q'(3) by auto
  have "?Q ! unat p \<in> set ?Q" using f(3) length_qs_abs [OF assms(1)] by (simp add: word_less_nat_alt)
  then have "Scheduler_isThreadWaiting s" using isThreadWaiting_iff [OF assms(1)] t by auto
  then have "Scheduler_getNextThread getNext s = Inr (s\<lparr>priority := pat, readyQueues := qs'\<rparr>, t)"
    using f q' qs' by (simp add: Scheduler_getNextThread_def qs_get [OF assms(1)])
  then show ?thesis using f qs' t by (auto simp: took_def)
qed

lemma getNextThread_ok:
  assumes "qs_wf count (readyQueues s)" "pinv (priority s)" "concat (qs_abs (readyQueues s)) \<noteq> []"
  shows "\<exists>s' p t. Scheduler_getNextThread getNext s = Inr (s', t) \<and> took pinv count s p t s'"
proof -
  obtain i where "i < count" "qs_abs (readyQueues s) ! unat i \<noteq> []"
    using waiting_queue [OF assms(1,3)] .
  then show ?thesis using getNextThread_due [OF assms(1,2)] fair [OF assms(2)] by blast
qed

end


section \<open>Every operation keeps the scheduler well-formed\<close>

declare set_concat [simp del]

lemma tookD:
  assumes "took pinv n s p t s'" "qs_wf n (readyQueues s)" "placed (threads s) (qs_abs (readyQueues s))"
  shows "placed (threads s') (qs_abs (readyQueues s'))"
    "set (concat (qs_abs (readyQueues s'))) = set (concat (qs_abs (readyQueues s))) - {t}"
    "Suc (length (concat (qs_abs (readyQueues s')))) = length (concat (qs_abs (readyQueues s)))"
    "t \<in> set (concat (qs_abs (readyQueues s)))"
    "th_priority (threads s t) = p \<and> th_started (threads s t) \<and> \<not> th_finished (threads s t)"
    "p < n" "qs_wf n (readyQueues s')" "pinv (priority s')" "threads s' = threads s"
    "currentThread s' = currentThread s" "initialized s' = initialized s" "sched_lock s' = sched_lock s"
proof -
  let ?Q = "qs_abs (readyQueues s)"
  obtain ts where ts: "?Q ! unat p = t # ts" "qs_abs (readyQueues s') = ?Q[unat p := ts]"
    and p: "p < n" and s': "s' = s\<lparr>priority := priority s', readyQueues := readyQueues s'\<rparr>"
    using assms(1) by (auto simp: took_def)
  have len: "unat p < length ?Q" using p length_qs_abs [OF assms(2)] by (simp add: word_less_nat_alt)
  show th: "threads s' = threads s" by (subst s') simp
  note r = placed_remove [OF assms(3) len, of t]
  show "placed (threads s') (qs_abs (readyQueues s'))"
    "set (concat (qs_abs (readyQueues s'))) = set (concat ?Q) - {t}"
    "Suc (length (concat (qs_abs (readyQueues s')))) = length (concat ?Q)"
    using r by (simp_all add: ts th del: set_concat)
  show "t \<in> set (concat ?Q)" using set_concat_nth [OF len] ts(1) by auto
  have "unat (th_priority (threads s t)) = unat p \<and> th_started (threads s t) \<and> \<not> th_finished (threads s t)"
    using assms(3) len ts(1) unfolding placed_def by (metis list.set_intros(1))
  then show "th_priority (threads s t) = p \<and> th_started (threads s t) \<and> \<not> th_finished (threads s t)"
    by (simp add: word_unat_eq_iff)
  show "p < n" by fact
  show "qs_wf n (readyQueues s')" "pinv (priority s')" using assms(1) by (simp_all add: took_def)
  show "currentThread s' = currentThread s" "initialized s' = initialized s" "sched_lock s' = sched_lock s"
    by (subst s'; simp)+
qed

text \<open>Pushing a thread that is in no queue.\<close>

lemma push_ready_wf:
  assumes "qs_wf n qs" "placed th (qs_abs qs)" "length (concat (qs_abs qs)) < 2147483648"
    and "t \<notin> set (concat (qs_abs qs))" "th_priority (th t) < n" "th_started (th t)" "\<not> th_finished (th t)"
  shows "\<exists>qs'. push_ready qs (th_priority (th t)) t = Inr qs' \<and> qs_wf n qs' \<and> placed th (qs_abs qs')
    \<and> set (concat (qs_abs qs')) = insert t (set (concat (qs_abs qs)))
    \<and> length (concat (qs_abs qs')) = Suc (length (concat (qs_abs qs)))
    \<and> (\<forall>j < length (qs_abs qs). \<exists>zs. qs_abs qs' ! j = qs_abs qs ! j @ zs)"
proof -
  let ?p = "th_priority (th t)"
  have len: "unat ?p < length (qs_abs qs)"
    using assms(5) length_qs_abs [OF assms(1)] by (simp add: word_less_nat_alt)
  have "length (qs_abs qs ! unat ?p) \<le> length (concat (qs_abs qs))"
    using length_concat_update [OF len, of "[]"] by simp
  then obtain qs' where qs': "push_ready qs ?p t = Inr qs'" "qs_wf n qs'"
      "qs_abs qs' = (qs_abs qs)[unat ?p := qs_abs qs ! unat ?p @ [t]]"
    using push_ready_abs [OF assms(1,5)] assms(3) by fastforce
  moreover have "\<forall>j < length (qs_abs qs). \<exists>zs. qs_abs qs' ! j = qs_abs qs ! j @ zs"
    by (auto simp: qs'(3) nth_list_update len)
  ultimately show ?thesis
    using placed_push [OF assms(2,4) refl len assms(6,7)] by (auto simp del: set_concat)
qed

context priority_pattern
begin

lemma yield_due:
  assumes wf: "sched_wf count pinv s" and init: "initialized s"
    and i: "i < count" "qs_abs (readyQueues s) ! unat i = x # xs" and d: "due getNext m (priority s) i"
  shows "\<exists>s'. Scheduler_yield getNext s = Inr s' \<and> sched_wf count pinv s' \<and> initialized s'
    \<and> ((currentThread s' = x \<and> (\<exists>zs. qs_abs (readyQueues s') ! unat i = xs @ zs))
       \<or> ((\<exists>m' < m. due getNext m' (priority s') i)
           \<and> (\<exists>zs. qs_abs (readyQueues s') ! unat i = x # xs @ zs)))"
proof -
  let ?Q = "qs_abs (readyQueues s)" and ?c = "currentThread s"
  let ?s1 = "s\<lparr>sched_lock := SPINLOCK_LOCK\<rparr>"
  note w = wf [unfolded sched_wf_def]
  have len: "unat i < length ?Q" using i w length_qs_abs by (auto simp: word_less_nat_alt)
  have "concat ?Q \<noteq> []" using nth_mem [OF len] i(2) by auto
  then have wait: "Scheduler_isThreadWaiting s" using isThreadWaiting_iff w by blast
  have lock: "Spinlock_tryAcquire (sched_lock s) = (SPINLOCK_LOCK, True)" using w by (simp add: atomic_defs)
  obtain s2 p t where g: "Scheduler_getNextThread getNext ?s1 = Inr (s2, t)" "took pinv count ?s1 p t s2"
      "p = i \<or> (\<exists>m' < m. due getNext m' (priority s2) i)"
    using getNextThread_due [of ?s1 i m] w i d by auto
  have q1: "qs_wf count (readyQueues ?s1)" "placed (threads ?s1) (qs_abs (readyQueues ?s1))" using w by simp_all
  note k = tookD [OF g(2) q1]
  have short: "length (concat (qs_abs (readyQueues s2))) < 2147483648" using k(3) w by simp
  have c: "?c \<notin> set (concat (qs_abs (readyQueues s2)))" "th_priority (threads s2 ?c) < count"
      "th_started (threads s2 ?c)" "\<not> th_finished (threads s2 ?c)"
    using k(2,9) w init by simp_all
  obtain qs where p: "push_ready (readyQueues s2) (th_priority (threads s2 ?c)) ?c = Inr qs" "qs_wf count qs"
      "placed (threads s2) (qs_abs qs)" "set (concat (qs_abs qs)) = insert ?c (set (concat (qs_abs (readyQueues s2))))"
      "length (concat (qs_abs qs)) = Suc (length (concat (qs_abs (readyQueues s2))))"
      "\<forall>j < length (qs_abs (readyQueues s2)). \<exists>zs. qs_abs qs ! j = qs_abs (readyQueues s2) ! j @ zs"
    using push_ready_wf [OF k(7,1) short c] by blast
  let ?s' = "s2\<lparr>readyQueues := qs, currentThread := t, sched_lock := Spinlock_new\<rparr>"
  have y: "Scheduler_yield getNext s = Inr ?s'"
    using wait lock g(1) p(1) k init
    by (simp add: Scheduler_yield_def Scheduler_dispatch_def releaseSchedulerLock_def)
  have "t \<noteq> ?c" using k(4) w init by auto
  then have wf': "sched_wf count pinv ?s'"
    using p(2-5) k w init by (auto simp: sched_wf_def)
  obtain zs where zs: "qs_abs qs ! unat i = qs_abs (readyQueues s2) ! unat i @ zs"
    using p(6) len k(7) length_qs_abs [OF k(7)] length_qs_abs w by (metis (no_types))
  show ?thesis
  proof (cases "p = i")
    case True
    then have "t = x" "qs_abs (readyQueues s2) ! unat i = xs"
      using g(2) i(2) len by (auto simp: took_def)
    then show ?thesis using y wf' zs k init by auto
  next
    case False
    then have "qs_abs (readyQueues s2) ! unat i = x # xs"
      using g(2) i(2) len by (auto simp: took_def word_unat_eq_iff)
    then show ?thesis using y wf' zs k init g(3) False by auto
  qed
qed

lemma yield_wf:
  assumes "sched_wf count pinv s" "initialized s"
  shows "\<exists>s'. Scheduler_yield getNext s = Inr s' \<and> sched_wf count pinv s' \<and> initialized s'"
proof (cases "concat (qs_abs (readyQueues s)) = []")
  case True
  then have "\<not> Scheduler_isThreadWaiting s" using assms isThreadWaiting_iff by (auto simp: sched_wf_def)
  then show ?thesis using assms by (simp add: Scheduler_yield_def)
next
  case False
  then obtain i where i: "i < count" "qs_abs (readyQueues s) ! unat i \<noteq> []"
    using waiting_queue assms(1) unfolding sched_wf_def by blast
  then obtain x xs where "qs_abs (readyQueues s) ! unat i = x # xs" by (meson neq_Nil_conv)
  then show ?thesis using yield_due [OF assms i(1)] fair i(1) assms(1) unfolding sched_wf_def by blast
qed

text \<open>\<open>block\<close>, \<open>exit\<close> and \<open>startUp\<close> all take the lock and run the next thread.\<close>

lemma next_wf:
  assumes "sched_wf count pinv s" "concat (qs_abs (readyQueues s)) \<noteq> []"
  shows "\<exists>s2 t. Scheduler_acquire s = Inr (s\<lparr>sched_lock := SPINLOCK_LOCK\<rparr>) \<and> Scheduler_isThreadWaiting s
    \<and> Scheduler_isThreadWaiting (s\<lparr>sched_lock := SPINLOCK_LOCK\<rparr>)
    \<and> Scheduler_getNextThread getNext (s\<lparr>sched_lock := SPINLOCK_LOCK\<rparr>) = Inr (s2, t)
    \<and> initialized s2 = initialized s \<and> currentThread s2 = currentThread s \<and> threads s2 = threads s
    \<and> t \<in> set (concat (qs_abs (readyQueues s)))
    \<and> sched_wf count pinv (s2\<lparr>currentThread := t, initialized := True, sched_lock := Spinlock_new\<rparr>)
    \<and> set (concat (qs_abs (readyQueues s2))) \<subseteq> set (concat (qs_abs (readyQueues s)))"
proof -
  let ?s1 = "s\<lparr>sched_lock := SPINLOCK_LOCK\<rparr>"
  note w = assms(1) [unfolded sched_wf_def]
  have q: "qs_wf count (readyQueues ?s1)" "placed (threads ?s1) (qs_abs (readyQueues ?s1))" using w by simp_all
  obtain s2 p t where g: "Scheduler_getNextThread getNext ?s1 = Inr (s2, t)" "took pinv count ?s1 p t s2"
    using getNextThread_ok [of ?s1] assms w by auto
  note k = tookD [OF g(2) q]
  have "sched_wf count pinv (s2\<lparr>currentThread := t, initialized := True, sched_lock := Spinlock_new\<rparr>)"
    using k w by (auto simp: sched_wf_def)
  moreover have "Scheduler_isThreadWaiting s" "Scheduler_isThreadWaiting ?s1"
    using isThreadWaiting_iff [of count s] isThreadWaiting_iff [of count ?s1] w assms(2) by simp_all
  ultimately show ?thesis using g(1) k acquire_free w by auto
qed

lemma startUp_wf:
  assumes "sched_wf count pinv s" "concat (qs_abs (readyQueues s)) \<noteq> []"
  shows "\<exists>s'. Scheduler_startUp getNext s = Inr s' \<and> sched_wf count pinv s' \<and> initialized s'"
  using next_wf [OF assms] by (auto simp: Scheduler_startUp_def releaseSchedulerLock_def)

lemma block_wf:
  assumes "sched_wf count pinv s" "initialized s" "concat (qs_abs (readyQueues s)) \<noteq> []"
  shows "\<exists>s'. Scheduler_block getNext s = Inr s' \<and> sched_wf count pinv s' \<and> initialized s'"
proof -
  obtain s2 t where s2: "Scheduler_acquire s = Inr (s\<lparr>sched_lock := SPINLOCK_LOCK\<rparr>)"
      "Scheduler_isThreadWaiting s"
      "Scheduler_getNextThread getNext (s\<lparr>sched_lock := SPINLOCK_LOCK\<rparr>) = Inr (s2, t)"
      "initialized s2" "sched_wf count pinv (s2\<lparr>currentThread := t, initialized := True, sched_lock := Spinlock_new\<rparr>)"
    using next_wf [OF assms(1,3)] assms(2) by auto
  have "Scheduler_block getNext s = Inr (s2\<lparr>currentThread := t, sched_lock := Spinlock_new\<rparr>)"
    using s2(1-4) by (simp add: Scheduler_block_def Scheduler_dispatch_def releaseSchedulerLock_def)
  moreover have "sched_wf count pinv (s2\<lparr>currentThread := t, sched_lock := Spinlock_new\<rparr>)"
    using s2(4,5) by (simp add: sched_wf_def)
  ultimately show ?thesis using s2(4) by auto
qed

lemma exit_wf:
  assumes "sched_wf count pinv s" "initialized s" "concat (qs_abs (readyQueues s)) \<noteq> []"
  shows "\<exists>s'. Scheduler_exit getNext s = Inr s' \<and> sched_wf count pinv s' \<and> initialized s'
    \<and> th_finished (threads s' (currentThread s)) \<and> currentThread s' \<noteq> currentThread s"
proof -
  let ?c = "currentThread s" and ?s1 = "s\<lparr>sched_lock := SPINLOCK_LOCK\<rparr>"
  obtain s2 t where s2: "Scheduler_acquire s = Inr ?s1" "Scheduler_isThreadWaiting ?s1"
      "Scheduler_getNextThread getNext ?s1 = Inr (s2, t)" "initialized s2" "currentThread s2 = ?c"
      "t \<in> set (concat (qs_abs (readyQueues s)))"
    and wf2: "sched_wf count pinv (s2\<lparr>currentThread := t, initialized := True, sched_lock := Spinlock_new\<rparr>)"
    and sub: "set (concat (qs_abs (readyQueues s2))) \<subseteq> set (concat (qs_abs (readyQueues s)))"
    using next_wf [OF assms(1,3)] assms(2) by auto
  have c: "?c \<noteq> t" "?c \<notin> set (concat (qs_abs (readyQueues s2)))"
    using assms(1,2) s2(6) sub by (auto simp: sched_wf_def)
  let ?s' = "s2\<lparr>threads := (threads s2)(?c := (threads s2 ?c)\<lparr>th_finished := True\<rparr>),
      currentThread := t, sched_lock := Spinlock_new\<rparr>"
  have "Scheduler_exit getNext s = Inr ?s'"
    using s2 assms(2) by (simp add: Scheduler_exit_def Scheduler_dispatch_def releaseSchedulerLock_def Let_def)
  moreover have "placed (threads ?s') (qs_abs (readyQueues s2))"
    using wf2 c by (simp add: sched_wf_def placed_upd)
  then have "sched_wf count pinv ?s'" using wf2 c by (simp add: sched_wf_def)
  ultimately show ?thesis using s2(4) c by auto
qed

end


text \<open>The operations that do not consult the pattern.\<close>

definition queued :: "'p scheduler \<Rightarrow> u32 \<Rightarrow> bool" where
  "queued s t \<longleftrightarrow> t \<in> set (concat (qs_abs (readyQueues s)))"

definition has_room :: "'p scheduler \<Rightarrow> bool" where
  "has_room s \<longleftrightarrow> Suc (length (concat (qs_abs (readyQueues s)))) < 2147483648"

lemma ready_wf:
  assumes "sched_wf n pinv s" "has_room s" "\<not> th_finished (threads s t)" "Scheduler_ready s t = Inr s'"
  shows "sched_wf n pinv s'" "initialized s' = initialized s"
proof -
  note w = assms(1) [unfolded sched_wf_def]
  let ?Q = "qs_abs (readyQueues s)" and ?th = "(threads s)(t := (threads s t)\<lparr>th_started := True\<rparr>)"
  have ns: "\<not> th_started (threads s t)" using assms(4) by (auto simp: Scheduler_ready_def split: if_splits)
  then have nq: "t \<notin> set (concat ?Q)" using w placed_started by blast
  then have pl: "placed ?th ?Q" using w by (simp add: placed_upd)
  obtain qs where qs: "push_ready (readyQueues s) (th_priority (threads s t)) t = Inr qs"
    and s': "s' = s\<lparr>readyQueues := qs, threads := ?th, sched_lock := Spinlock_new\<rparr>"
    using assms(4) ns w
    by (auto simp: Scheduler_ready_def acquire_free andThen_Inr_iff releaseSchedulerLock_def)
  have p: "th_priority (threads s t) < n" using qs push_ready_fails w by fastforce
  have "\<exists>qs'. push_ready (readyQueues s) (th_priority (?th t)) t = Inr qs' \<and> qs_wf n qs' \<and> placed ?th (qs_abs qs')
    \<and> set (concat (qs_abs qs')) = insert t (set (concat ?Q))
    \<and> length (concat (qs_abs qs')) = Suc (length (concat ?Q))"
    using push_ready_wf [of n "readyQueues s" ?th t] w pl nq p assms(3) by auto
  then have "qs_wf n qs" "placed ?th (qs_abs qs)" "set (concat (qs_abs qs)) = insert t (set (concat ?Q))"
    "length (concat (qs_abs qs)) = Suc (length (concat ?Q))" using qs by auto
  then show "sched_wf n pinv s'" using w ns assms(2) by (auto simp: s' sched_wf_def has_room_def)
  show "initialized s' = initialized s" by (simp add: s')
qed

lemma deblock_wf:
  assumes "sched_wf n pinv s" "has_room s" "\<not> queued s t" "t \<noteq> currentThread s"
    and "th_started (threads s t)" "\<not> th_finished (threads s t)" "Scheduler_deblock s t = Inr s'"
  shows "sched_wf n pinv s'" "initialized s' = initialized s"
proof -
  note w = assms(1) [unfolded sched_wf_def]
  obtain qs where qs: "push_ready (readyQueues s) (th_priority (threads s t)) t = Inr qs"
    and s': "s' = s\<lparr>readyQueues := qs, sched_lock := Spinlock_new\<rparr>"
    using assms(7) w
    by (auto simp: Scheduler_deblock_def acquire_free andThen_Inr_iff releaseSchedulerLock_def split: if_splits)
  have p: "th_priority (threads s t) < n" using qs push_ready_fails w by fastforce
  show "sched_wf n pinv s'"
    using push_ready_wf [of n "readyQueues s" "threads s" t] qs w p assms(2-6)
    by (auto simp: s' sched_wf_def has_room_def queued_def)
  show "initialized s' = initialized s" by (simp add: s')
qed

lemma remove_ready_wf:
  assumes "qs_wf n qs" "placed th (qs_abs qs)" "remove_ready qs (th_priority (th t)) t = Inr qs'"
  shows "qs_wf n qs' \<and> placed th (qs_abs qs') \<and> th_priority (th t) < n
    \<and> set (concat (qs_abs qs')) = set (concat (qs_abs qs)) - {t}
    \<and> length (concat (qs_abs qs')) \<le> length (concat (qs_abs qs))
    \<and> (t \<in> set (concat (qs_abs qs)) \<longrightarrow> length (concat (qs_abs qs')) < length (concat (qs_abs qs)))"
proof (cases "t \<in> set (concat (qs_abs qs))")
  case True
  let ?p = "th_priority (th t)"
  have i: "unat ?p < length (qs_abs qs)" "t \<in> set (qs_abs qs ! unat ?p)"
    using True placed_mem [OF assms(2)] by blast+
  then have p: "?p < n" using length_qs_abs [OF assms(1)] by (simp add: word_less_nat_alt)
  then show ?thesis
    using remove_ready_member [OF assms(1) p i(2)] placed_remove [OF assms(2) i] assms(3) by auto
next
  case False
  then have "th_priority (th t) < n \<Longrightarrow> t \<notin> set (qs_abs qs ! unat (th_priority (th t)))"
    using placed_mem [OF assms(2)] length_qs_abs [OF assms(1)] by (auto simp: word_less_nat_alt)
  then show ?thesis using remove_ready_other [OF assms(1) _ assms(3)] assms(2) False by auto
qed

lemma kill_wf:
  assumes "sched_wf n pinv s" "Scheduler_kill s t = Inr s'"
  shows "sched_wf n pinv s'" "initialized s'" "\<not> queued s' t" "th_finished (threads s' t)"
proof -
  note w = assms(1) [unfolded sched_wf_def]
  let ?th = "(threads s)(t := (threads s t)\<lparr>th_finished := True\<rparr>)"
  obtain qs where qs: "remove_ready (readyQueues s) (th_priority (threads s t)) t = Inr qs"
    and s': "s' = s\<lparr>readyQueues := qs, threads := ?th, sched_lock := Spinlock_new\<rparr>"
    and t: "t \<noteq> currentThread s" "initialized s"
    using assms(2) w
    by (auto simp: Scheduler_kill_def acquire_free andThen_Inr_iff releaseSchedulerLock_def split: if_splits)
  note r = remove_ready_wf [of n "readyQueues s" "threads s" t qs, OF _ _ qs]
  have r': "qs_wf n qs" "placed (threads s) (qs_abs qs)" "t \<notin> set (concat (qs_abs qs))"
    "set (concat (qs_abs qs)) \<subseteq> set (concat (qs_abs (readyQueues s)))"
    "length (concat (qs_abs qs)) \<le> length (concat (qs_abs (readyQueues s)))" using r w by auto
  then have "placed ?th (qs_abs qs)" by (simp add: placed_upd)
  then show "sched_wf n pinv s'" using r' w t by (auto simp: s' sched_wf_def)
  show "initialized s'" "\<not> queued s' t" "th_finished (threads s' t)" using r'(3) t by (simp_all add: s' queued_def)
qed


lemma cut_priority:
  assumes "qs_wf n (readyQueues s)" "0 < n"
  shows "(if prio > Scheduler_getMaxPriority s then Scheduler_getMaxPriority s else prio) < n"
proof -
  have n: "0 < unat n" "unat n < 256" using assms(2) by (simp_all add: word_less_nat_alt)
  have "unat (arr_capacity (readyQueues s)) = unat n" using assms(1) by (simp add: qs_wf_def array_wf_def)
  then have "unat (arr_capacity (readyQueues s) - 1) = unat n - 1"
    using n(1) unat_sub_u32 [of 1 "arr_capacity (readyQueues s)"] by (simp add: Suc_le_eq)
  moreover have "(unat n - 1) mod 256 = unat n - 1" by (rule mod_less) (use n in linarith)
  ultimately have "unat (Scheduler_getMaxPriority s) = unat n - 1"
    by (simp add: Scheduler_getMaxPriority_def Array_length_def unsigned_ucast_eq take_bit_eq_mod)
  then show ?thesis unfolding word_less_nat_alt using n(1) by (auto split: if_splits)
qed


lemma setPriority_wf:
  assumes "sched_wf n pinv s" "0 < n" "queued s t \<and> t \<noteq> currentThread s \<or> initialized s \<and> t = currentThread s"
    and "Thread_setPriority s t prio = Inr s'"
  shows "sched_wf n pinv s'" "initialized s' = initialized s"
proof -
  note w = assms(1) [unfolded sched_wf_def]
  define p where "p = (if prio > Scheduler_getMaxPriority s then Scheduler_getMaxPriority s else prio)"
  have p: "p < n" unfolding p_def using cut_priority [OF _ assms(2)] w by blast
  define th where "th = (threads s)(t := (threads s t)\<lparr>th_priority := p\<rparr>)"
  show "sched_wf n pinv s'" "initialized s' = initialized s"
  proof (atomize (full), cases "t = currentThread s")
    case True
    then have i: "initialized s" "t \<notin> set (concat (qs_abs (readyQueues s)))"
      using assms(3) w by (auto simp: queued_def)
    then have "placed th (qs_abs (readyQueues s))" using w by (simp add: placed_upd th_def)
    moreover have "s' = s\<lparr>threads := th, sched_lock := Spinlock_new\<rparr>"
      using assms(4) w True
      by (auto simp: Thread_setPriority_def Scheduler_changePriority_def Let_def acquire_free
          releaseSchedulerLock_def th_def p_def [symmetric])
    ultimately show "sched_wf n pinv s' \<and> initialized s' = initialized s"
      using w True i p by (auto simp: sched_wf_def th_def)
  next
    case False
    then have q: "t \<in> set (concat (qs_abs (readyQueues s)))" using assms(3) by (simp add: queued_def)
    obtain qs qs' where qs: "remove_ready (readyQueues s) (th_priority (threads s t)) t = Inr qs"
        "push_ready qs p t = Inr qs'" "s' = s\<lparr>readyQueues := qs', threads := th, sched_lock := Spinlock_new\<rparr>"
      using assms(4) w False
      by (auto simp: Thread_setPriority_def Scheduler_changePriority_def Let_def acquire_free
          releaseSchedulerLock_def andThen_Inr_iff th_def p_def [symmetric])
    have r: "qs_wf n qs" "placed (threads s) (qs_abs qs)"
      "set (concat (qs_abs qs)) = set (concat (qs_abs (readyQueues s))) - {t}"
      "length (concat (qs_abs qs)) < length (concat (qs_abs (readyQueues s)))"
      using remove_ready_wf [of n "readyQueues s" "threads s" t qs] w qs(1) q by auto
    have st: "th_started (th t)" "\<not> th_finished (th t)" using placed_started [of "threads s" _ t] w q by (auto simp: th_def)
    have pl: "placed th (qs_abs qs)" "t \<notin> set (concat (qs_abs qs))" using r by (simp_all add: placed_upd th_def)
    have "th_priority (th t) = p" by (simp add: th_def)
    then obtain qs'' where "push_ready qs p t = Inr qs''" "qs_wf n qs''" "placed th (qs_abs qs'')"
      "set (concat (qs_abs qs'')) = insert t (set (concat (qs_abs qs)))"
      "length (concat (qs_abs qs'')) = Suc (length (concat (qs_abs qs)))"
      using push_ready_wf [OF r(1) pl(1) _ pl(2) _ st] r(4) w p by auto
    moreover have "th (currentThread s) = threads s (currentThread s)" using False by (simp add: th_def)
    ultimately show "sched_wf n pinv s' \<and> initialized s' = initialized s"
      using qs(2) w r(3,4) False by (simp add: sched_wf_def qs(3))
  qed
qed

lemma create_wf:
  assumes "sched_wf n pinv s" "\<not> queued s t" "t \<noteq> currentThread s"
  shows "sched_wf n pinv (fst (Thread_new s t prio ids))"
  using assms by (simp add: sched_wf_def Thread_new_def Let_def queued_def placed_upd split_beta)

section \<open>Runs of the scheduler\<close>

text \<open>What may happen between two interrupts. The guards are obligations of the callers: objects are
  created where no live thread is, \<open>start\<close> and \<open>deblock\<close> are called for threads that have not finished,
  \<open>deblock\<close> for threads that are blocked, and \<open>setPriority\<close> for ready threads and the running one. The code
  does not check the last one; \<open>unchecked_reach\<close> below is without it.\<close>

inductive sched_step :: "('p \<Rightarrow> ('p \<times> u8) outcome) \<Rightarrow> 'p scheduler \<Rightarrow> 'p scheduler \<Rightarrow> bool"
  for getNext where
  create: "\<not> queued s t \<Longrightarrow> t \<noteq> currentThread s \<Longrightarrow> sched_step getNext s (fst (Thread_new s t prio ids))"
| start: "has_room s \<Longrightarrow> \<not> th_finished (threads s t) \<Longrightarrow> Thread_start s t = Inr s' \<Longrightarrow> sched_step getNext s s'"
| startUp: "\<not> initialized s \<Longrightarrow> Scheduler_startUp getNext s = Inr s' \<Longrightarrow> sched_step getNext s s'"
| yield: "initialized s \<Longrightarrow> Scheduler_yield getNext s = Inr s' \<Longrightarrow> sched_step getNext s s'"
| exit: "Scheduler_exit getNext s = Inr s' \<Longrightarrow> sched_step getNext s s'"
| kill: "Scheduler_kill s t = Inr s' \<Longrightarrow> sched_step getNext s s'"
| block: "initialized s \<Longrightarrow> Scheduler_block getNext s = Inr s' \<Longrightarrow> sched_step getNext s s'"
| deblock: "has_room s \<Longrightarrow> \<not> queued s t \<Longrightarrow> t \<noteq> currentThread s \<Longrightarrow> th_started (threads s t)
    \<Longrightarrow> \<not> th_finished (threads s t) \<Longrightarrow> Scheduler_deblock s t = Inr s' \<Longrightarrow> sched_step getNext s s'"
| setPriority: "queued s t \<and> t \<noteq> currentThread s \<or> initialized s \<and> t = currentThread s
    \<Longrightarrow> Thread_setPriority s t prio = Inr s' \<Longrightarrow> sched_step getNext s s'"

inductive sched_reach :: "('p \<Rightarrow> ('p \<times> u8) outcome) \<Rightarrow> 'p scheduler \<Rightarrow> 'p scheduler \<Rightarrow> bool"
  for getNext s0 where
  init: "sched_reach getNext s0 s0"
| step: "sched_reach getNext s0 s \<Longrightarrow> sched_step getNext s s' \<Longrightarrow> sched_reach getNext s0 s'"

lemma waits_if_returns:
  assumes "qs_wf n (readyQueues s)" "sched_lock s = Spinlock_new"
  shows "Scheduler_exit getNext s = Inr s' \<Longrightarrow> concat (qs_abs (readyQueues s)) \<noteq> [] \<and> initialized s"
    "Scheduler_block getNext s = Inr s' \<Longrightarrow> concat (qs_abs (readyQueues s)) \<noteq> []"
    "Scheduler_startUp getNext s = Inr s' \<Longrightarrow> concat (qs_abs (readyQueues s)) \<noteq> []"
  using assms isThreadWaiting_iff [of n s] isThreadWaiting_iff [of n "s\<lparr>sched_lock := SPINLOCK_LOCK\<rparr>"]
  by (auto simp: Scheduler_exit_def Scheduler_block_def Scheduler_startUp_def acquire_free split: if_splits)

lemma sched_new_wf: "pinv pat \<Longrightarrow> sched_wf n pinv (Scheduler_new n pat ths)"
  by (auto simp: sched_wf_def Scheduler_new_def qs_wf_def qs_abs_def array_wf_def Array_new_def unat_ucast_u8
      ABQ_new_def placed_def in_set_conv_nth)

context priority_pattern
begin

lemma count_pos: "pinv pat \<Longrightarrow> 0 < count"
  using in_range by (metis le_less_trans word_zero_le)

lemma step_wf:
  assumes "sched_step getNext s s'" "sched_wf count pinv s"
  shows "sched_wf count pinv s'"
  using assms(1)
proof cases
  case create
  then show ?thesis using create_wf assms(2) by blast
next
  case start
  then show ?thesis using ready_wf assms(2) unfolding Thread_start_def by blast
next
  case startUp
  then show ?thesis using startUp_wf waits_if_returns(3) assms(2) unfolding sched_wf_def by fastforce
next
  case yield
  then show ?thesis using yield_wf assms(2) by fastforce
next
  case exit
  then have "concat (qs_abs (readyQueues s)) \<noteq> [] \<and> initialized s"
    using waits_if_returns(1) assms(2) unfolding sched_wf_def by blast
  then show ?thesis using exit exit_wf [OF assms(2)] by fastforce
next
  case kill
  then show ?thesis using kill_wf assms(2) by blast
next
  case block
  then have "concat (qs_abs (readyQueues s)) \<noteq> []"
    using waits_if_returns(2) assms(2) unfolding sched_wf_def by blast
  then show ?thesis using block block_wf [OF assms(2)] by fastforce
next
  case deblock
  then show ?thesis using deblock_wf assms(2) by blast
next
  case setPriority
  moreover have "0 < count" using count_pos assms(2) unfolding sched_wf_def by blast
  ultimately show ?thesis using setPriority_wf assms(2) by blast
qed

lemma reach_wf:
  assumes "sched_reach getNext (Scheduler_new count pat ths) s" "pinv pat"
  shows "sched_wf count pinv s"
  using assms(1) by induction (auto intro: sched_new_wf step_wf assms(2))

end


section \<open>Progress\<close>

primrec yields :: "('p \<Rightarrow> ('p \<times> u8) outcome) \<Rightarrow> nat \<Rightarrow> 'p scheduler \<Rightarrow> 'p scheduler outcome" where
  "yields getNext 0 s = Inr s"
| "yields getNext (Suc n) s = andThen (Scheduler_yield getNext s) (yields getNext n)"

context priority_pattern
begin

lemma runs_soon:
  assumes "sched_wf count pinv s" "initialized s" "i < count"
    and "qs_abs (readyQueues s) ! unat i = xs @ t # ys" "due getNext m (priority s) i"
  shows "\<exists>n \<le> window * length xs + m. \<exists>s'. yields getNext n s = Inr s' \<and> currentThread s' = t"
  using assms
proof (induction "window * length xs + m" arbitrary: xs ys s m rule: less_induct)
  case less
  have m: "0 < m" using less.prems(5) by (cases m) auto
  obtain x rest where x: "xs @ t # ys = x # rest" by (cases xs) auto
  obtain s1 where y: "Scheduler_yield getNext s = Inr s1" and s1: "sched_wf count pinv s1" "initialized s1"
    and c: "(currentThread s1 = x \<and> (\<exists>zs. qs_abs (readyQueues s1) ! unat i = rest @ zs))
       \<or> ((\<exists>m' < m. due getNext m' (priority s1) i)
           \<and> (\<exists>zs. qs_abs (readyQueues s1) ! unat i = x # rest @ zs))"
    using yield_due [OF less.prems(1-3) _ less.prems(5), of x rest] less.prems(4) x by auto
  have later: "\<exists>n \<le> window * length xs + m. \<exists>s'. yields getNext n s = Inr s' \<and> currentThread s' = t"
    if "k < window * length xs + m" "n \<le> k" "yields getNext n s1 = Inr s'" "currentThread s' = t" for k n s'
    using that y by (intro exI [of _ "Suc n"]) auto
  from c show ?case
  proof (elim disjE conjE exE)
    fix zs assume cur: "currentThread s1 = x" and q: "qs_abs (readyQueues s1) ! unat i = rest @ zs"
    show ?case
    proof (cases xs)
      case Nil
      then show ?thesis using later [of 0 0 s1] m cur x by simp
    next
      case (Cons x' xs')
      have k: "window * length xs' + window < window * length xs + m" using m Cons by simp
      have "qs_abs (readyQueues s1) ! unat i = xs' @ t # (ys @ zs)" using q x Cons by simp
      moreover have "due getNext window (priority s1) i"
        using fair s1(1) less.prems(3) unfolding sched_wf_def by blast
      ultimately obtain n s' where "n \<le> window * length xs' + window" "yields getNext n s1 = Inr s'"
          "currentThread s' = t"
        using less.hyps [OF k s1 less.prems(3)] by blast
      then show ?thesis using later [OF k] by blast
    qed
  next
    fix m' zs assume d: "m' < m" "due getNext m' (priority s1) i"
      and q: "qs_abs (readyQueues s1) ! unat i = x # rest @ zs"
    have k: "window * length xs + m' < window * length xs + m" using d by simp
    have "qs_abs (readyQueues s1) ! unat i = xs @ t # (ys @ zs)" using q x by (metis append.assoc append_Cons)
    then obtain n s' where "n \<le> window * length xs + m'" "yields getNext n s1 = Inr s'" "currentThread s' = t"
      using less.hyps [OF k s1 less.prems(3) _ d(2)] by blast
    then show ?thesis using later [OF k] by blast
  qed
qed

lemma no_starvation:
  assumes "sched_wf count pinv s" "initialized s" "i < count" "qs_abs (readyQueues s) ! unat i = xs @ t # ys"
  shows "\<exists>n \<le> window * Suc (length xs). \<exists>s'. yields getNext n s = Inr s' \<and> currentThread s' = t"
proof -
  have "due getNext window (priority s) i" using fair assms(1,3) unfolding sched_wf_def by blast
  then show ?thesis using runs_soon [OF assms] by (simp add: add.commute)
qed

end

section \<open>Properties\<close>

lemma getInstance_eq: "Scheduler_getInstance ths = Inr (Scheduler_new 5 (kernel_pattern 0) ths)"
  by (simp add: Scheduler_getInstance_def kernel_pattern_built) (simp add: kernel_pattern_def)

lemma kernel_pattern_inv: "kernel_pattern c = kernel_pattern (currentIndex (kernel_pattern c))"
  by (simp add: kernel_pattern_def)

lemmas kernel_reach_wf = access.reach_wf [OF _ kernel_pattern_inv [of 0]]

text \<open>Two threads of priority 4 and one of priority 0, started up.\<close>

definition demo_threads :: "u32 \<Rightarrow> thread" where
  "demo_threads t = \<lparr>th_id = t, th_priority = (if t = 0x3000 then 0 else 4), th_started = False, th_finished = False\<rparr>"

primrec start_all :: "'p scheduler \<Rightarrow> u32 list \<Rightarrow> 'p scheduler outcome" where
  "start_all s [] = Inr s"
| "start_all s (t # ts) =
     (if length (concat (qs_abs (readyQueues s))) \<le> 9 \<and> \<not> th_finished (threads s t)
      then andThen (Thread_start s t) (\<lambda>s'. start_all s' ts) else Inl BadAccess)"

lemma start_all_reach:
  "sched_reach getNext s0 s \<Longrightarrow> start_all s ts = Inr s' \<Longrightarrow> sched_reach getNext s0 s'"
proof (induction ts arbitrary: s)
  case (Cons t ts)
  then obtain s1 where s1: "Thread_start s t = Inr s1" "start_all s1 ts = Inr s'"
    and g: "has_room s" "\<not> th_finished (threads s t)"
    by (auto simp: andThen_Inr_iff has_room_def split: if_splits)
  then show ?case using Cons.IH [of s1] sched_reach.step [OF Cons.prems(1) sched_step.start [OF g s1(1)]] by simp
qed simp

definition demo_started :: "access_pattern scheduler outcome" where
  "demo_started =
     andThen (start_all (Scheduler_new 5 (kernel_pattern 0) demo_threads) [0x1000, 0x2000, 0x3000]) (\<lambda>s.
     if initialized s then Inl BadAccess else Scheduler_startUp AccessArray_getNextPriority s)"

lemma demo_runs:
  "\<exists>s. demo_started = Inr s \<and> initialized s \<and> qs_abs (readyQueues s) = [[0x3000], [], [], [], [0x2000]]
     \<and> sched_reach AccessArray_getNextPriority (Scheduler_new 5 (kernel_pattern 0) demo_threads) s"
proof -
  have "case demo_started of Inl e \<Rightarrow> False | Inr s \<Rightarrow>
      initialized s \<and> qs_abs (readyQueues s) = [[0x3000], [], [], [], [0x2000]]"
    by code_simp
  then obtain s where s: "demo_started = Inr s" "initialized s"
      "qs_abs (readyQueues s) = [[0x3000], [], [], [], [0x2000]]"
    by (auto split: sum.splits)
  obtain s1 where s1: "start_all (Scheduler_new 5 (kernel_pattern 0) demo_threads) [0x1000, 0x2000, 0x3000] = Inr s1"
      "\<not> initialized s1" "Scheduler_startUp AccessArray_getNextPriority s1 = Inr s"
    using s(1) unfolding demo_started_def by (auto simp: andThen_Inr_iff simp del: start_all.simps split: if_splits)
  have "sched_reach AccessArray_getNextPriority (Scheduler_new 5 (kernel_pattern 0) demo_threads) s1"
    by (rule start_all_reach [OF sched_reach.init s1(1)])
  then show ?thesis using s sched_reach.step sched_step.startUp [OF s1(2,3)] by blast
qed

text \<open>C3. No thread starves: in every state of the kernel's scheduler that is reached by callers that keep their
  obligations (the guards of \<open>sched_step\<close>), a ready thread that has
  \<open>length xs\<close> threads before it in its queue is running after at most 22 calls of \<open>yield\<close> for each of
  them and itself, whatever its priority and however many threads of higher priority are ready. In
  particular the search of \<open>getNextThread\<close> for a queue that is not empty ends every time.\<close>

theorem scheduler_no_starvation:
  assumes "Scheduler_getInstance ths = Inr s0" "sched_reach AccessArray_getNextPriority s0 s"
    and "initialized s" "(p :: u8) < 5" "qs_abs (readyQueues s) ! unat p = xs @ t # ys"
  shows "\<exists>n \<le> 22 * Suc (length xs). \<exists>s'. yields AccessArray_getNextPriority n s = Inr s' \<and> currentThread s' = t"
proof -
  have "sched_reach AccessArray_getNextPriority (Scheduler_new 5 (kernel_pattern 0) ths) s"
    using assms(1,2) by (simp add: getInstance_eq)
  then show ?thesis using access.no_starvation [OF _ assms(3-5)] kernel_reach_wf by blast
qed

theorem scheduler_no_starvation_witness:
  "\<exists>s. demo_started = Inr s \<and> (\<exists>n \<le> 22. \<exists>s'. yields AccessArray_getNextPriority n s = Inr s' \<and> currentThread s' = 0x3000)"
proof -
  obtain s where s: "demo_started = Inr s" "initialized s" "qs_abs (readyQueues s) = [[0x3000], [], [], [], [0x2000]]"
      "sched_reach AccessArray_getNextPriority (Scheduler_new 5 (kernel_pattern 0) demo_threads) s"
    using demo_runs by blast
  have "qs_abs (readyQueues s) ! unat (0 :: u8) = [] @ 0x3000 # []" using s(3) by simp
  then show ?thesis
    using scheduler_no_starvation [OF getInstance_eq s(4,2), of 0 "[]" "0x3000" "[]"] s(1)
    by (intro exI [of _ s]) simp
qed

text \<open>\<open>setPriority\<close> on a thread that is not ready, for instance before \<open>start\<close>, puts the thread into a
  ready queue; a later \<open>start\<close> puts it there a second time, so that the scheduler would run one thread
  object twice.\<close>

lemma setPriority_enqueues_twice:
  assumes "sched_wf 5 pinv s" "\<not> queued s t" "t \<noteq> currentThread s" "\<not> th_started (threads s t)"
    and "th_priority (threads s t) < 5" "prio < 5" "length (concat (qs_abs (readyQueues s))) < 1000"
    and room: "al_length (arr_array (readyQueues s) ! unat (th_priority (threads s t)))
               < al_capacity (arr_array (readyQueues s) ! unat (th_priority (threads s t)))"
  shows "\<exists>s1 s2. Thread_setPriority s t prio = Inr s1 \<and> threads s1 = (threads s)(t := (threads s t)\<lparr>th_priority := prio\<rparr>)
    \<and> qs_abs (readyQueues s1) = (qs_abs (readyQueues s))[unat prio := qs_abs (readyQueues s) ! unat prio @ [t]]
    \<and> Thread_start s1 t = Inr s2
    \<and> qs_abs (readyQueues s2) = (qs_abs (readyQueues s))[unat prio := qs_abs (readyQueues s) ! unat prio @ [t, t]]"
proof -
  let ?Q = "qs_abs (readyQueues s)" and ?p = "th_priority (threads s t)"
  note w = assms(1) [unfolded sched_wf_def]
  have q: "qs_wf 5 (readyQueues s)" using w by simp
  note a = qs_queue [OF q assms(5)]
  have len: "unat prio < length ?Q" using assms(6) length_qs_abs [OF q] by (simp add: word_less_nat_alt)
  have "t \<notin> set (?Q ! unat ?p)"
    using assms(2,5) set_concat_nth [of "unat ?p" ?Q] length_qs_abs [OF q] by (auto simp: queued_def word_less_nat_alt)
  then have "ABQ_remove (arr_array (readyQueues s) ! unat ?p) t = Inr (arr_array (readyQueues s) ! unat ?p, False)"
    using a room unat_u32_bound [of "al_length (arr_array (readyQueues s) ! unat ?p)"]
    by (simp add: ABQ_remove_def ArrayList_remove_def indexOf_abs word_le_nat_alt del: unat_u32_bound)
  then obtain qs where qs: "remove_ready (readyQueues s) ?p t = Inr qs" "qs_wf 5 qs" "qs_abs qs = ?Q"
    using qs_set [OF q assms(5) a(1)] a(2) assms(5) by (auto simp: remove_ready_def qs_get [OF q])
  have short: "length (?Q ! unat prio) < 1000" using length_concat_update [OF len, of "[]"] assms(7) by simp
  obtain qs1 where qs1: "push_ready qs prio t = Inr qs1" "qs_wf 5 qs1" "qs_abs qs1 = ?Q[unat prio := ?Q ! unat prio @ [t]]"
    using push_ready_abs [OF qs(2) assms(6)] short by (auto simp: qs(3))
  obtain qs2 where qs2: "push_ready qs1 prio t = Inr qs2" "qs_abs qs2 = ?Q[unat prio := ?Q ! unat prio @ [t, t]]"
    using push_ready_abs [OF qs1(2) assms(6), of t] short len by (auto simp: qs1(3))
  have "arr_capacity (readyQueues s) = 5" using q by (simp add: qs_wf_def array_wf_def word_unat_eq_iff)
  then have "Scheduler_getMaxPriority s = 4" by (simp add: Scheduler_getMaxPriority_def Array_length_def)
  then have p: "\<not> prio > Scheduler_getMaxPriority s" using assms(6) by (simp add: word_less_nat_alt)
  let ?s1 = "s\<lparr>readyQueues := qs1, sched_lock := Spinlock_new,
      threads := (threads s)(t := (threads s t)\<lparr>th_priority := prio\<rparr>)\<rparr>"
  have "Thread_setPriority s t prio = Inr ?s1"
    using w p qs(1) qs1(1) assms(3)
    by (simp add: Thread_setPriority_def Scheduler_changePriority_def Let_def acquire_free releaseSchedulerLock_def)
  moreover have "Thread_start ?s1 t = Inr (?s1\<lparr>readyQueues := qs2,
      threads := (threads ?s1)(t := (threads ?s1 t)\<lparr>th_started := True\<rparr>)\<rparr>)"
    using assms(4) qs2(1) by (simp add: Thread_start_def Scheduler_ready_def acquire_free releaseSchedulerLock_def)
  ultimately show ?thesis using qs1(3) qs2(2) assms(4) by simp
qed

lemma setPriority_enqueues_twice_witness:
  "\<exists>s1 s2. Thread_setPriority (Scheduler_new 5 (kernel_pattern 0) demo_threads) 0x1000 2 = Inr s1
     \<and> Thread_start s1 0x1000 = Inr s2 \<and> qs_abs (readyQueues s2) = [[], [], [0x1000, 0x1000], [], []]"
proof -
  let ?s = "Scheduler_new 5 (kernel_pattern 0) demo_threads"
  have "qs_abs (readyQueues ?s) = [[], [], [], [], []]" "\<not> th_started (threads ?s 0x1000)" "currentThread ?s = 0"
    "th_priority (threads ?s 0x1000) = 4"
    "al_length (arr_array (readyQueues ?s) ! 4) < al_capacity (arr_array (readyQueues ?s) ! 4)" by code_simp+
  then show ?thesis
    using setPriority_enqueues_twice [of "\<lambda>pat. True" ?s "0x1000" 2]
    by (auto simp: sched_new_wf queued_def word_less_nat_alt)
qed

text \<open>Runs in which \<open>setPriority\<close> is called for any thread, as the code allows.\<close>

inductive unchecked_reach :: "('p \<Rightarrow> ('p \<times> u8) outcome) \<Rightarrow> 'p scheduler \<Rightarrow> 'p scheduler \<Rightarrow> bool"
  for getNext s0 where
  init: "unchecked_reach getNext s0 s0"
| step: "unchecked_reach getNext s0 s \<Longrightarrow> sched_step getNext s s' \<Longrightarrow> unchecked_reach getNext s0 s'"
| setPriority: "unchecked_reach getNext s0 s \<Longrightarrow> Thread_setPriority s t prio = Inr s' \<Longrightarrow> unchecked_reach getNext s0 s'"

lemma unchecked_twice:
  "\<exists>s. unchecked_reach getNext (Scheduler_new 5 (kernel_pattern 0) ths) s \<and> \<not> distinct (qs_abs (readyQueues s) ! 2)"
proof -
  let ?s0 = "Scheduler_new 5 (kernel_pattern 0) ths"
  let ?s1 = "fst (Thread_new ?s0 0x1000 4 0)"
  have Q0: "qs_abs (readyQueues ?s0) = [[], [], [], [], []]"
  proof -
    have "replicate 5 (ABQ_new 0 :: u32 array_queue) = [ABQ_new 0, ABQ_new 0, ABQ_new 0, ABQ_new 0, ABQ_new 0]" by code_simp
    then show ?thesis by (simp add: Scheduler_new_def qs_abs_def Array_new_def ABQ_new_def)
  qed
  have new: "\<not> queued ?s0 0x1000" "0x1000 \<noteq> currentThread ?s0"
    by (simp_all add: queued_def Q0) (simp add: Scheduler_new_def)
  have q1: "readyQueues ?s1 = readyQueues ?s0" "currentThread ?s1 = currentThread ?s0"
    by (simp_all add: Thread_new_def Let_def split_beta)
  have t1: "\<not> th_started (threads ?s1 0x1000)" "\<not> th_finished (threads ?s1 0x1000)" "th_priority (threads ?s1 0x1000) = 4"
    by (simp_all add: Thread_new_def Let_def split_beta Scheduler_getMaxPriority_def Array_length_def Scheduler_new_def Array_new_def)
  have room: "al_length (arr_array (readyQueues ?s1) ! unat (4 :: u8)) < al_capacity (arr_array (readyQueues ?s1) ! unat (4 :: u8))"
    unfolding q1(1) by (simp add: Scheduler_new_def Array_new_def ABQ_new_def ArrayList_new_def)
  have wf: "sched_wf 5 (\<lambda>_. True) ?s1" using create_wf [OF sched_new_wf new] by simp
  obtain s2 s3 where s2: "Thread_setPriority ?s1 0x1000 2 = Inr s2"
      "threads s2 = (threads ?s1)(0x1000 := (threads ?s1 0x1000)\<lparr>th_priority := 2\<rparr>)"
      "qs_abs (readyQueues s2) = [[], [], [0x1000], [], []]"
    and s3: "Thread_start s2 0x1000 = Inr s3" "qs_abs (readyQueues s3) = [[], [], [0x1000, 0x1000], [], []]"
    using setPriority_enqueues_twice [OF wf _ _ t1(1), of 2] new t1(3) room q1 Q0
    by (auto simp: queued_def word_less_nat_alt)
  have "unchecked_reach getNext ?s0 ?s1" using unchecked_reach.init sched_step.create [OF new] by (rule unchecked_reach.step)
  then have "unchecked_reach getNext ?s0 s2" using s2(1) by (rule unchecked_reach.setPriority)
  moreover have "sched_step getNext s2 s3"
    using s3(1) by (rule sched_step.start [rotated 2]) (use s2(2,3) t1(2) in \<open>simp_all add: has_room_def\<close>)
  ultimately have "unchecked_reach getNext ?s0 s3" by (rule unchecked_reach.step)
  then show ?thesis using s3(2) by (intro exI [of _ s3]) simp
qed

text \<open>C7. As long as the callers keep their obligations, every state of the scheduler is well-formed: a ready thread
  is once in the queue of its priority and in no other, has been started and has not finished, the running
  thread is in no queue, and between two operations the lock is free. In such a state \<open>yield\<close> always returns, in a
  state of the same kind. The obligations are: thread objects are created where no live thread is, \<open>start\<close> is called for
  threads that have not finished, \<open>deblock\<close> for blocked threads, and \<open>setPriority\<close> for the running thread and ready ones.
  The code does not check the last one, and it is needed: with \<open>setPriority\<close> for any thread a state can be
  reached in which a thread is twice in a queue.\<close>

theorem scheduler_reachable_wf:
  assumes "Scheduler_getInstance ths = Inr s0" "sched_reach AccessArray_getNextPriority s0 s"
  shows "length (qs_abs (readyQueues s)) = 5
    \<and> (\<forall>i < 5. distinct (qs_abs (readyQueues s) ! i) \<and> (\<forall>t \<in> set (qs_abs (readyQueues s) ! i).
         unat (th_priority (threads s t)) = i \<and> th_started (threads s t) \<and> \<not> th_finished (threads s t)
         \<and> (initialized s \<longrightarrow> t \<noteq> currentThread s)))
    \<and> \<not> Spinlock_isLocked (sched_lock s)
    \<and> (initialized s \<longrightarrow> (\<exists>s'. Scheduler_yield AccessArray_getNextPriority s = Inr s' \<and> initialized s'))
    \<and> (\<exists>s' i. unchecked_reach AccessArray_getNextPriority s0 s' \<and> i < 5 \<and> \<not> distinct (qs_abs (readyQueues s') ! i))"
proof -
  have "sched_reach AccessArray_getNextPriority (Scheduler_new 5 (kernel_pattern 0) ths) s"
    using assms by (simp add: getInstance_eq)
  then have wf: "sched_wf 5 (\<lambda>pat. pat = kernel_pattern (currentIndex pat)) s" by (rule kernel_reach_wf)
  have len: "length (qs_abs (readyQueues s)) = 5" using wf length_qs_abs by (fastforce simp: sched_wf_def)
  have "distinct (qs_abs (readyQueues s) ! i) \<and> (\<forall>t \<in> set (qs_abs (readyQueues s) ! i).
         unat (th_priority (threads s t)) = i \<and> th_started (threads s t) \<and> \<not> th_finished (threads s t)
         \<and> (initialized s \<longrightarrow> t \<noteq> currentThread s))" if "i < 5" for i
    using wf that len set_concat_nth [of i "qs_abs (readyQueues s)"] by (auto simp: sched_wf_def placed_def)
  moreover have "\<not> Spinlock_isLocked (sched_lock s)" using wf by (simp add: sched_wf_def atomic_defs)
  moreover have "\<exists>s'. Scheduler_yield AccessArray_getNextPriority s = Inr s' \<and> initialized s'" if "initialized s"
    using access.yield_wf [OF wf that] by blast
  moreover obtain s' where "unchecked_reach AccessArray_getNextPriority s0 s'" "\<not> distinct (qs_abs (readyQueues s') ! 2)"
    using unchecked_twice [of AccessArray_getNextPriority ths] assms(1) by (auto simp: getInstance_eq)
  then have "\<exists>s' i. unchecked_reach AccessArray_getNextPriority s0 s' \<and> i < 5 \<and> \<not> distinct (qs_abs (readyQueues s') ! i)"
    by (intro exI [of _ s'] exI [of _ 2]) simp
  ultimately show ?thesis using len by blast
qed

theorem scheduler_reachable_wf_witness:
  "\<exists>s. demo_started = Inr s \<and> length (qs_abs (readyQueues s)) = 5 \<and> \<not> Spinlock_isLocked (sched_lock s)
     \<and> unat (th_priority (threads s 0x2000)) = 4 \<and> 0x2000 \<noteq> currentThread s
     \<and> (\<exists>s'. Scheduler_yield AccessArray_getNextPriority s = Inr s' \<and> initialized s')"
proof -
  obtain s where s: "demo_started = Inr s" "initialized s" "qs_abs (readyQueues s) = [[0x3000], [], [], [], [0x2000]]"
      "sched_reach AccessArray_getNextPriority (Scheduler_new 5 (kernel_pattern 0) demo_threads) s"
    using demo_runs by blast
  note w = scheduler_reachable_wf [OF getInstance_eq s(4)]
  have "unat (th_priority (threads s 0x2000)) = 4 \<and> 0x2000 \<noteq> currentThread s"
    using w s(2,3) by (auto dest!: spec [of _ 4])
  then show ?thesis using s(1,2) w by blast
qed

end
