(* ===== verification/Process_Scheduling.thy ===== *)
theory Process_Scheduling
  imports Scheduling_Properties
begin

text \<open>\<open>ProcessScheduler\<close> and the parts of \<open>Process\<close> it uses (\<open>kernel/process\<close>), built on the same queues and
  priority patterns as the thread scheduler. Its \<open>dispatch\<close> is empty apart from the check, so nothing
  ever frees the lock that \<open>startUp\<close>, \<open>exit\<close> and \<open>yield\<close> take.\<close>

section \<open>State\<close>

record process =
  proc_id :: u32
  proc_priority :: u8

record 'p process_scheduler =
  ps_initialized :: bool
  currentProcess :: u32
  priorityPattern :: 'p
  ps_readyQueues :: "u32 array_queue array"
  ps_lock :: u8
  processes :: "u32 \<Rightarrow> process"

definition ProcessScheduler_new :: "u8 \<Rightarrow> 'p \<Rightarrow> (u32 \<Rightarrow> process) \<Rightarrow> 'p process_scheduler" where
  "ProcessScheduler_new n pattern procs =
     \<lparr>ps_initialized = False, currentProcess = 0, priorityPattern = pattern,
      ps_readyQueues = Array_new (ABQ_new 0) (ucast n), ps_lock = Spinlock_new, processes = procs\<rparr>"

definition ProcessScheduler_getInstance :: "(u32 \<Rightarrow> process) \<Rightarrow> access_pattern process_scheduler outcome" where
  "ProcessScheduler_getInstance procs =
     andThen (AccessArrayPriorityPattern_new 5) (\<lambda>pattern.
     Inr (ProcessScheduler_new (priorityCount pattern) pattern procs))"

definition Process_new :: "u32 \<Rightarrow> u32 \<times> process" where
  "Process_new idGenerator =
     (let (idGenerator', i) = IdGenerator_getId idGenerator
      in (idGenerator', \<lparr>proc_id = i, proc_priority = 0xff\<rparr>))"

definition Process_eq :: "process \<Rightarrow> process \<Rightarrow> bool" where
  "Process_eq a b \<longleftrightarrow> proc_id a = proc_id b"

section \<open>Operations\<close>

definition ps_acquire :: "'p process_scheduler \<Rightarrow> 'p process_scheduler outcome" where
  "ps_acquire s = andThen (Spinlock_acquire (ps_lock s)) (\<lambda>l. Inr (s\<lparr>ps_lock := l\<rparr>))"

definition ps_release :: "'p process_scheduler \<Rightarrow> 'p process_scheduler" where
  "ps_release s = s\<lparr>ps_lock := Spinlock_release (ps_lock s)\<rparr>"

definition ProcessScheduler_isInitialized :: "'p process_scheduler \<Rightarrow> bool" where
  "ProcessScheduler_isInitialized s = ps_initialized s"

definition ProcessScheduler_isProcessWaiting :: "'p process_scheduler \<Rightarrow> bool" where
  "ProcessScheduler_isProcessWaiting s = list_ex (\<lambda>queue. \<not> ABQ_isEmpty queue) (arr_array (ps_readyQueues s))"

definition ProcessScheduler_getProcessCount :: "'p process_scheduler \<Rightarrow> u32" where
  "ProcessScheduler_getProcessCount s =
     foldl (\<lambda>n queue. n + ABQ_size queue) 0 (arr_array (ps_readyQueues s))"

definition ProcessScheduler_getMaxPriority :: "'p process_scheduler \<Rightarrow> u8" where
  "ProcessScheduler_getMaxPriority s = ucast (Array_length (ps_readyQueues s) - 1)"

text \<open>The chosen process goes back to the end of its queue at once.\<close>

definition ProcessScheduler_getNextProcess ::
  "('p \<Rightarrow> ('p \<times> u8) outcome) \<Rightarrow> 'p process_scheduler \<Rightarrow> ('p process_scheduler \<times> u32) outcome" where
  "ProcessScheduler_getNextProcess getNext s =
     (if \<not> ProcessScheduler_isProcessWaiting s then Inl (Thrown ILLEGAL_STATE)
      else case find_queue getNext (ps_readyQueues s) (priorityPattern s) of
        None \<Rightarrow> Inl Spins
      | Some r \<Rightarrow> andThen r (\<lambda>(pat, p).
          andThen (Array_get (ps_readyQueues s) (ucast p)) (\<lambda>q.
          andThen (ABQ_pop q) (\<lambda>(q', t).
          andThen (ABQ_push 0 q' t) (\<lambda>q''.
          andThen (Array_set (ps_readyQueues s) (ucast p) q'') (\<lambda>qs.
          Inr (s\<lparr>priorityPattern := pat, ps_readyQueues := qs\<rparr>, t)))))))"

definition ProcessScheduler_dispatch :: "'p process_scheduler \<Rightarrow> u32 \<Rightarrow> 'p process_scheduler outcome" where
  "ProcessScheduler_dispatch s p = (if \<not> ps_initialized s then Inl (Thrown ILLEGAL_STATE) else Inr s)"

definition ProcessScheduler_startUp ::
  "('p \<Rightarrow> ('p \<times> u8) outcome) \<Rightarrow> 'p process_scheduler \<Rightarrow> 'p process_scheduler outcome" where
  "ProcessScheduler_startUp getNext s =
     andThen (ps_acquire s) (\<lambda>s1.
     if \<not> ProcessScheduler_isProcessWaiting s1 then Inl (Thrown ILLEGAL_STATE)
     else andThen (ProcessScheduler_getNextProcess getNext s1) (\<lambda>(s2, p).
          Inr (s2\<lparr>currentProcess := p, ps_initialized := True\<rparr>)))"

definition ProcessScheduler_ready :: "'p process_scheduler \<Rightarrow> u32 \<Rightarrow> 'p process_scheduler outcome" where
  "ProcessScheduler_ready s p =
     andThen (ps_acquire s) (\<lambda>s1.
     andThen (push_ready (ps_readyQueues s1) (proc_priority (processes s1 p)) p) (\<lambda>qs.
     Inr (ps_release (s1\<lparr>ps_readyQueues := qs\<rparr>))))"

definition ProcessScheduler_exit ::
  "('p \<Rightarrow> ('p \<times> u8) outcome) \<Rightarrow> 'p process_scheduler \<Rightarrow> 'p process_scheduler outcome" where
  "ProcessScheduler_exit getNext s =
     andThen (ps_acquire s) (\<lambda>s1.
     if \<not> ps_initialized s1 then Inl (Thrown ILLEGAL_STATE)
     else if \<not> ProcessScheduler_isProcessWaiting s1 then Inl (Thrown ILLEGAL_STATE)
     else andThen (ProcessScheduler_getNextProcess getNext s1) (\<lambda>(s2, p). ProcessScheduler_dispatch s2 p))"

text \<open>Comparing with the current process reads its id, which needs an object behind the pointer.\<close>

definition is_current :: "'p process_scheduler \<Rightarrow> u32 \<Rightarrow> bool outcome" where
  "is_current s p =
     (if currentProcess s = 0 then Inl BadAccess
      else Inr (Process_eq (processes s p) (processes s (currentProcess s))))"

definition ProcessScheduler_kill :: "'p process_scheduler \<Rightarrow> u32 \<Rightarrow> 'p process_scheduler outcome" where
  "ProcessScheduler_kill s p =
     andThen (ps_acquire s) (\<lambda>s1.
     if \<not> ps_initialized s1 then Inl (Thrown ILLEGAL_STATE)
     else andThen (is_current s1 p) (\<lambda>self.
          if self then Inl (Thrown ILLEGAL_STATE)
          else andThen (remove_ready (ps_readyQueues s1) (proc_priority (processes s1 p)) p) (\<lambda>qs.
               Inr (ps_release (s1\<lparr>ps_readyQueues := qs\<rparr>)))))"

definition ProcessScheduler_yield ::
  "('p \<Rightarrow> ('p \<times> u8) outcome) \<Rightarrow> 'p process_scheduler \<Rightarrow> 'p process_scheduler outcome" where
  "ProcessScheduler_yield getNext s =
     (if \<not> ProcessScheduler_isProcessWaiting s then Inr s
      else let (l, acquired) = Spinlock_tryAcquire (ps_lock s); s1 = s\<lparr>ps_lock := l\<rparr>
           in if \<not> acquired then Inr s1
              else if currentProcess s1 = 0 then Inl BadAccess
              else andThen (push_ready (ps_readyQueues s1) (proc_priority (processes s1 (currentProcess s1)))
                              (currentProcess s1)) (\<lambda>qs.
                   andThen (ProcessScheduler_getNextProcess getNext (s1\<lparr>ps_readyQueues := qs\<rparr>)) (\<lambda>(s2, p).
                   ProcessScheduler_dispatch s2 p)))"

definition ProcessScheduler_changePriority ::
  "'p process_scheduler \<Rightarrow> u32 \<Rightarrow> u8 \<Rightarrow> ('p process_scheduler \<times> u8) outcome" where
  "ProcessScheduler_changePriority s p prio =
     (let prio' = (if prio > ProcessScheduler_getMaxPriority s then ProcessScheduler_getMaxPriority s else prio)
      in andThen (ps_acquire s) (\<lambda>s1.
         andThen (is_current s1 p) (\<lambda>self.
         if self then Inr (ps_release s1, prio')
         else andThen (remove_ready (ps_readyQueues s1) (proc_priority (processes s1 p)) p) (\<lambda>qs.
              andThen (push_ready qs prio' p) (\<lambda>qs'.
              Inr (ps_release (s1\<lparr>ps_readyQueues := qs'\<rparr>), prio'))))))"

definition Process_setPriority :: "'p process_scheduler \<Rightarrow> u32 \<Rightarrow> u8 \<Rightarrow> 'p process_scheduler outcome" where
  "Process_setPriority s p prio =
     andThen (ProcessScheduler_changePriority s p prio) (\<lambda>(s', pr).
     Inr (s'\<lparr>processes := (processes s')(p := (processes s' p)\<lparr>proc_priority := pr\<rparr>)\<rparr>))"

section \<open>What becomes of the lock\<close>

text \<open>A process fresh from its constructor has priority 255, for which there is no queue: \<open>ready\<close> raises
  \<open>OUT_OF_BOUNDS\<close>, and does so while it holds the lock.\<close>

lemma ready_fresh_fails:
  assumes "qs_wf 5 (ps_readyQueues s)" "ps_lock s = Spinlock_new" "processes s p = snd (Process_new ids)"
  shows "ProcessScheduler_ready s p = Inl (Thrown OUT_OF_BOUNDS)"
proof -
  have "proc_priority (processes s p) = 0xff" using assms(3) by (simp add: Process_new_def split_beta)
  then show ?thesis
    using assms(1,2) push_ready_fails [of 5 "ps_readyQueues s" "0xff" p]
    by (simp add: ProcessScheduler_ready_def ps_acquire_def acquire_release word_less_nat_alt)
qed

lemma getNextProcess_keeps_lock:
  "ProcessScheduler_getNextProcess getNext s = Inr (s', p) \<Longrightarrow> ps_lock s' = ps_lock s"
  by (auto simp: ProcessScheduler_getNextProcess_def andThen_Inr_iff split: if_splits option.splits)

text \<open>After \<open>startUp\<close> the lock is taken for good: every later operation that needs it spins.\<close>

lemma startUp_leaves_locked:
  "ProcessScheduler_startUp getNext s = Inr s' \<Longrightarrow> ps_lock s' = SPINLOCK_LOCK"
  using getNextProcess_keeps_lock
  by (fastforce simp: ProcessScheduler_startUp_def ps_acquire_def andThen_Inr_iff atomic_defs Let_def
      split: if_splits)

lemma locked_spins:
  assumes "ps_lock s = SPINLOCK_LOCK"
  shows "ProcessScheduler_ready s p = Inl Spins" "ProcessScheduler_exit getNext s = Inl Spins"
    "ProcessScheduler_kill s p = Inl Spins" "ProcessScheduler_changePriority s p prio = Inl Spins"
    "ProcessScheduler_yield getNext s = Inr s"
  using assms
  by (simp_all add: ProcessScheduler_ready_def ProcessScheduler_exit_def ProcessScheduler_kill_def
      ProcessScheduler_changePriority_def ProcessScheduler_yield_def ps_acquire_def atomic_defs Let_def)


section \<open>Properties\<close>

definition demo_process :: "access_pattern process_scheduler outcome" where
  "demo_process =
     andThen (ProcessScheduler_ready (ProcessScheduler_new 5 (kernel_pattern 0)
               (\<lambda>p. \<lparr>proc_id = p, proc_priority = 4\<rparr>)) 0x1000) (\<lambda>s.
     ProcessScheduler_startUp AccessArray_getNextPriority s)"

text \<open>C40. \<open>ProcessScheduler::startUp\<close> never gives back the lock it takes, because \<open>dispatch\<close> switches to no
  process: from then on \<open>ready\<close>, \<open>exit\<close>, \<open>kill\<close> and \<open>setPriority\<close> wait for the lock for ever and \<open>yield\<close>
  does nothing.\<close>

theorem process_startUp_locks_out:
  assumes "ProcessScheduler_startUp getNext s = Inr s'"
  shows "ProcessScheduler_ready s' p = Inl Spins \<and> ProcessScheduler_exit getNext s' = Inl Spins
    \<and> ProcessScheduler_kill s' p = Inl Spins \<and> Process_setPriority s' p prio = Inl Spins
    \<and> ProcessScheduler_yield getNext s' = Inr s'"
  using locked_spins [OF startUp_leaves_locked [OF assms]] by (simp add: Process_setPriority_def)

theorem process_startUp_locks_out_witness:
  "\<exists>s'. demo_process = Inr s' \<and> currentProcess s' = 0x1000 \<and> ProcessScheduler_ready s' 0x1000 = Inl Spins
     \<and> ProcessScheduler_yield AccessArray_getNextPriority s' = Inr s'"
proof -
  have "case demo_process of Inl e \<Rightarrow> False | Inr s \<Rightarrow> currentProcess s = 0x1000" by code_simp
  then obtain s' where s': "demo_process = Inr s'" "currentProcess s' = 0x1000" by (auto split: sum.splits)
  then obtain s where "ProcessScheduler_startUp AccessArray_getNextPriority s = Inr s'"
    by (auto simp: demo_process_def andThen_Inr_iff)
  then show ?thesis using process_startUp_locks_out [of AccessArray_getNextPriority s s'] s' by auto
qed

end
