(* ===== verification/C_Strings.thy ===== *)
theory C_Strings
  imports Prelude
begin

text \<open>The string functions of \<open>lib/libc/string.c\<close> and the character classes of \<open>lib/libc/ctype.c\<close>. A \<open>char *\<close>
  argument is the list of the bytes that can be accessed from the pointer on; an access behind the end
  of the object is the fault \<open>BadAccess\<close>. A pointer into an argument is an offset, \<open>NULL\<close> is \<open>None\<close>. Objects
  are smaller than the address space, so offsets and sizes are natural numbers. Arguments do not
  overlap. The memory functions are in \<open>Byte_Memory\<close>.\<close>

definition byteAt :: "u8 list \<Rightarrow> nat \<Rightarrow> u8 outcome" where
  "byteAt s i = (if i < length s then Inr (s ! i) else Inl BadAccess)"

section \<open>Character classes\<close>

definition isdigit :: "int \<Rightarrow> bool" where
  "isdigit c \<longleftrightarrow> c \<ge> 0x30 \<and> c \<le> 0x39"

definition isgraph :: "int \<Rightarrow> bool" where
  "isgraph c \<longleftrightarrow> c \<ge> 0x21 \<and> c \<le> 0x7e"

definition islower :: "int \<Rightarrow> bool" where
  "islower c \<longleftrightarrow> c \<ge> 0x61 \<and> c \<le> 0x7a"

definition isprint :: "int \<Rightarrow> bool" where
  "isprint c \<longleftrightarrow> c \<ge> 0x20 \<and> c \<le> 0x7e"

definition isspace :: "int \<Rightarrow> bool" where
  "isspace c \<longleftrightarrow> c \<ge> 0x09 \<and> c \<le> 0x0d"

definition isupper :: "int \<Rightarrow> bool" where
  "isupper c \<longleftrightarrow> c \<ge> 0x41 \<and> c \<le> 0x5a"

definition isalpha :: "int \<Rightarrow> bool" where
  "isalpha c \<longleftrightarrow> isupper c \<or> islower c"

definition isalnum :: "int \<Rightarrow> bool" where
  "isalnum c \<longleftrightarrow> isalpha c \<or> isdigit c"

definition iscntrl :: "int \<Rightarrow> bool" where
  "iscntrl c \<longleftrightarrow> \<not> isprint c"

definition ispunct :: "int \<Rightarrow> bool" where
  "ispunct c \<longleftrightarrow> isgraph c \<and> \<not> isalnum c"

definition isxdigit :: "int \<Rightarrow> bool" where
  "isxdigit c \<longleftrightarrow> isdigit c \<or> (c \<ge> 0x41 \<and> c \<le> 0x46) \<or> (c \<ge> 0x61 \<and> c \<le> 0x66)"

lemmas ctype_defs = isdigit_def isgraph_def islower_def isprint_def isspace_def isupper_def
  isalpha_def isalnum_def iscntrl_def ispunct_def isxdigit_def

text \<open>Every printable character is a blank, a letter, a digit or punctuation, and exactly one of them.\<close>

lemma isprint_partition:
  "isprint c \<longleftrightarrow> c = 0x20 \<or> isalnum c \<or> ispunct c"
  "\<not> (isalpha c \<and> isdigit c)" "\<not> (isalnum c \<and> ispunct c)" "\<not> isgraph 0x20"
  by (auto simp: ctype_defs)

section \<open>Length and copying\<close>

fun strlen :: "u8 list \<Rightarrow> nat outcome" where
  "strlen [] = Inl BadAccess"
| "strlen (c # s) = (if c \<noteq> 0 then andThen (strlen s) (\<lambda>i. Inr (Suc i)) else Inr 0)"

text \<open>The result is the destination after the call.\<close>

fun strcpy :: "u8 list \<Rightarrow> u8 list \<Rightarrow> u8 list outcome" where
  "strcpy dest [] = Inl BadAccess"
| "strcpy [] (c # src) = Inl BadAccess"
| "strcpy (d # dest) (c # src) =
     (if c \<noteq> 0 then andThen (strcpy dest src) (\<lambda>r. Inr (c # r)) else Inr (c # dest))"

fun strncpy_pad :: "nat \<Rightarrow> u8 list \<Rightarrow> u8 list outcome" where
  "strncpy_pad 0 dest = Inr dest"
| "strncpy_pad (Suc n) [] = Inl BadAccess"
| "strncpy_pad (Suc n) (d # dest) = andThen (strncpy_pad n dest) (\<lambda>r. Inr (0 # r))"

text \<open>The loop reads \<open>src[i]\<close> before it compares \<open>i\<close> with \<open>n\<close>.\<close>

fun strncpy :: "u8 list \<Rightarrow> u8 list \<Rightarrow> nat \<Rightarrow> u8 list outcome" where
  "strncpy dest [] n = Inl BadAccess"
| "strncpy dest (c # src) n =
     (if c \<noteq> 0 \<and> 0 < n then
        (case dest of [] \<Rightarrow> Inl BadAccess
         | d # dest' \<Rightarrow> andThen (strncpy dest' src (n - 1)) (\<lambda>r. Inr (c # r)))
      else strncpy_pad n dest)"

definition strcat :: "u8 list \<Rightarrow> u8 list \<Rightarrow> u8 list outcome" where
  "strcat s1 s2 =
     andThen (strlen s1) (\<lambda>len. andThen (strcpy (drop len s1) s2) (\<lambda>r. Inr (take len s1 @ r)))"

text \<open>\<open>strncat\<close> only writes a terminating zero when it stopped because of \<open>n\<close>.\<close>

fun strncat_loop :: "u8 list \<Rightarrow> u8 list \<Rightarrow> nat \<Rightarrow> u8 list outcome" where
  "strncat_loop dest [] n = Inl BadAccess"
| "strncat_loop dest (c # src) n =
     (if c \<noteq> 0 \<and> 0 < n then
        (case dest of [] \<Rightarrow> Inl BadAccess
         | d # dest' \<Rightarrow> andThen (strncat_loop dest' src (n - 1)) (\<lambda>r. Inr (c # r)))
      else if n = 0 then (case dest of [] \<Rightarrow> Inl BadAccess | d # dest' \<Rightarrow> Inr (0 # dest'))
      else Inr dest)"

definition strncat :: "u8 list \<Rightarrow> u8 list \<Rightarrow> nat \<Rightarrow> u8 list outcome" where
  "strncat s1 s2 n =
     andThen (strlen s1) (\<lambda>len. andThen (strncat_loop (drop len s1) s2 n) (\<lambda>r. Inr (take len s1 @ r)))"

section \<open>Comparing\<close>

fun memcmp :: "u8 list \<Rightarrow> u8 list \<Rightarrow> nat \<Rightarrow> int outcome" where
  "memcmp s1 s2 0 = Inr 0"
| "memcmp (a # s1) (b # s2) (Suc n) = (if a = b then memcmp s1 s2 n else Inr (uint a - uint b))"
| "memcmp s1 s2 (Suc n) = Inl BadAccess"

fun strcmp :: "u8 list \<Rightarrow> u8 list \<Rightarrow> int outcome" where
  "strcmp (a # s1) (b # s2) = (if a \<noteq> 0 \<and> a = b then strcmp s1 s2 else Inr (uint a - uint b))"
| "strcmp s1 s2 = Inl BadAccess"

fun strncmp :: "u8 list \<Rightarrow> u8 list \<Rightarrow> nat \<Rightarrow> int outcome" where
  "strncmp [] s2 n = Inl BadAccess"
| "strncmp (a # s1) s2 n =
     (if a \<noteq> 0 \<and> 0 < n then
        (case s2 of [] \<Rightarrow> Inl BadAccess
         | b # s2' \<Rightarrow> if a = b then strncmp s1 s2' (n - 1) else Inr (uint a - uint b))
      else if n = 0 then Inr 0
      else (case s2 of [] \<Rightarrow> Inl BadAccess | b # s2' \<Rightarrow> Inr (uint a - uint b)))"

section \<open>Searching\<close>

fun memchr_loop :: "u8 list \<Rightarrow> u8 \<Rightarrow> nat \<Rightarrow> nat option outcome" where
  "memchr_loop s c 0 = Inr None"
| "memchr_loop [] c (Suc n) = Inl BadAccess"
| "memchr_loop (x # s) c (Suc n) =
     (if x = c then Inr (Some 0) else andThen (memchr_loop s c n) (\<lambda>r. Inr (map_option Suc r)))"

definition memchr :: "u8 list \<Rightarrow> int \<Rightarrow> nat \<Rightarrow> nat option outcome" where
  "memchr s c n = memchr_loop s (word_of_int c) n"

fun strchr_loop :: "u8 list \<Rightarrow> u8 \<Rightarrow> nat outcome" where
  "strchr_loop [] c = Inl BadAccess"
| "strchr_loop (x # s) c = (if x \<noteq> c \<and> x \<noteq> 0 then andThen (strchr_loop s c) (\<lambda>i. Inr (Suc i)) else Inr 0)"

definition strchr :: "u8 list \<Rightarrow> int \<Rightarrow> nat option outcome" where
  "strchr s c =
     andThen (strchr_loop s (word_of_int c)) (\<lambda>i.
     andThen (byteAt s i) (\<lambda>x. Inr (if x = 0 \<and> c \<noteq> 0 then None else Some i)))"

fun strcspn_loop :: "u8 list \<Rightarrow> u8 list \<Rightarrow> nat \<Rightarrow> nat outcome" where
  "strcspn_loop s1 [] ret = Inr ret"
| "strcspn_loop s1 (d # ds) ret =
     andThen (strchr s1 (sint d)) (\<lambda>tmp.
     strcspn_loop s1 ds (case tmp of None \<Rightarrow> ret | Some k \<Rightarrow> if k < ret then k else ret))"

definition strcspn :: "u8 list \<Rightarrow> u8 list \<Rightarrow> nat outcome" where
  "strcspn s1 s2 =
     andThen (strlen s1) (\<lambda>ret. andThen (strlen s2) (\<lambda>n. strcspn_loop s1 (take n s2) ret))"

text \<open>\<open>for (j = 0; j < strlen(s1); j++) if (s1[j] == c && (index == -1 || j < index)) index = j;\<close>\<close>

fun strpbrk_inner :: "u8 list \<Rightarrow> u8 \<Rightarrow> nat \<Rightarrow> nat option \<Rightarrow> nat option" where
  "strpbrk_inner [] c j index = index"
| "strpbrk_inner (x # s) c j index =
     strpbrk_inner s c (Suc j)
       (if x = c \<and> (case index of None \<Rightarrow> True | Some i \<Rightarrow> j < i) then Some j else index)"

definition strpbrk :: "u8 list \<Rightarrow> u8 list \<Rightarrow> nat option outcome" where
  "strpbrk s1 s2 =
     andThen (strlen s2) (\<lambda>n2. andThen (strlen s1) (\<lambda>n1.
     Inr (foldl (\<lambda>index c. strpbrk_inner (take n1 s1) c 0 index) None (take n2 s2))))"

text \<open>\<open>strrchr\<close> compares the signed character with the argument.\<close>

fun strrchr_loop :: "u8 list \<Rightarrow> int \<Rightarrow> nat \<Rightarrow> nat option \<Rightarrow> nat option" where
  "strrchr_loop [] c i index = index"
| "strrchr_loop (x # s) c i index = strrchr_loop s c (Suc i) (if sint x = c then Some i else index)"

definition strrchr :: "u8 list \<Rightarrow> int \<Rightarrow> nat option outcome" where
  "strrchr s c = andThen (strlen s) (\<lambda>n. Inr (strrchr_loop (take n s) c 0 None))"

fun strspn_loop :: "u8 list \<Rightarrow> u8 list \<Rightarrow> nat" where
  "strspn_loop [] ds = 0"
| "strspn_loop (c # s) ds = (if list_ex (\<lambda>d. c = d) ds then Suc (strspn_loop s ds) else 0)"

definition strspn :: "u8 list \<Rightarrow> u8 list \<Rightarrow> nat outcome" where
  "strspn s1 s2 =
     andThen (strlen s1) (\<lambda>n1. andThen (strlen s2) (\<lambda>n2. Inr (strspn_loop (take n1 s1) (take n2 s2))))"

text \<open>The inner loop of \<open>strstr\<close> at position \<open>i\<close>, which may read behind the terminating zero of \<open>s1\<close> only
  if \<open>s2\<close> contained one.\<close>

fun strstr_at :: "u8 list \<Rightarrow> u8 list \<Rightarrow> bool outcome" where
  "strstr_at s1 [] = Inr True"
| "strstr_at [] (d # ds) = Inl BadAccess"
| "strstr_at (c # s1) (d # ds) = (if c \<noteq> d then Inr False else strstr_at s1 ds)"

fun strstr_loop :: "nat \<Rightarrow> u8 list \<Rightarrow> u8 list \<Rightarrow> nat option outcome" where
  "strstr_loop 0 s1 ds = Inr None"
| "strstr_loop (Suc n) s1 ds =
     andThen (strstr_at s1 ds) (\<lambda>found.
     if found then Inr (Some 0) else andThen (strstr_loop n (tl s1) ds) (\<lambda>r. Inr (map_option Suc r)))"

definition strstr :: "u8 list \<Rightarrow> u8 list \<Rightarrow> nat option outcome" where
  "strstr s1 s2 = andThen (strlen s1) (\<lambda>n1. andThen (strlen s2) (\<lambda>n2. strstr_loop n1 s1 (take n2 s2)))"

section \<open>Tokens\<close>

text \<open>\<open>strtok_start_pointer\<close> and \<open>strtok_pointer\<close>: the private copy of the string and the offset in it.\<close>

record strtok_state =
  tk_start :: "u8 list"
  tk_pointer :: "nat option"

definition strtok_copy :: "strtok_state \<Rightarrow> u8 list \<Rightarrow> strtok_state outcome" where
  "strtok_copy st s1 =
     andThen (strlen s1) (\<lambda>n. andThen (strcpy (replicate (Suc n) 0) s1) (\<lambda>copy.
     Inr (st\<lparr>tk_start := copy, tk_pointer := Some 0\<rparr>)))"

definition strtok_next :: "strtok_state \<Rightarrow> u8 list \<Rightarrow> (strtok_state \<times> nat option) outcome" where
  "strtok_next st s2 =
     (case tk_pointer st of
        None \<Rightarrow> Inr (st, None)
      | Some p \<Rightarrow>
          andThen (strspn (drop p (tk_start st)) s2) (\<lambda>k.
          let ret = p + k; st1 = st\<lparr>tk_pointer := Some ret\<rparr>
          in andThen (strcspn (drop ret (tk_start st)) s2) (\<lambda>end_index.
             if end_index = 0 then Inr (st1, None)
             else andThen (byteAt (tk_start st) (ret + end_index)) (\<lambda>c.
                  if c = 0 then Inr (st\<lparr>tk_pointer := None\<rparr>, Some ret)
                  else Inr (\<lparr>tk_start = (tk_start st)[ret + end_index := 0],
                             tk_pointer = Some (ret + end_index + 1)\<rparr>, Some ret)))))"

definition strtok :: "strtok_state \<Rightarrow> u8 list option \<Rightarrow> u8 list \<Rightarrow> (strtok_state \<times> nat option) outcome" where
  "strtok st s1 s2 =
     (case s1 of None \<Rightarrow> strtok_next st s2
      | Some s \<Rightarrow> andThen (strtok_copy st s) (\<lambda>st'. strtok_next st' s2))"

section \<open>Numbers and messages\<close>

text \<open>\<open>strtoint\<close> walks from the last character to the first; \<open>int\<close> is 32 bits wide. A character one above
  \<open>'9'\<close> is accepted as the digit ten.\<close>

fun strtoint_loop :: "u8 list \<Rightarrow> 32 word \<Rightarrow> 32 word \<Rightarrow> 32 word" where
  "strtoint_loop [] j result = result"
| "strtoint_loop (c # s) j result =
     (let num = sint c - 0x30
      in if num \<ge> 0 \<and> num \<le> 10 then strtoint_loop s (j * 10) (result + word_of_int num * j)
         else strtoint_loop s j result)"

definition strtoint :: "u8 list \<Rightarrow> 32 word outcome" where
  "strtoint str =
     andThen (strlen str) (\<lambda>len.
     andThen (byteAt str 0) (\<lambda>c.
     let neg = (c = 0x2D); limit = (if neg then 1 else 0)
     in Inr (strtoint_loop (rev (drop limit (take len str))) 1 0 * (if neg then - 1 else 1))))"

definition strerror :: "int \<Rightarrow> string option" where
  "strerror errnum = (if errnum = 1 then Some ''Domain error!'' else if errnum = 2 then Some ''Range error!'' else None)"


section \<open>What the functions compute\<close>

text \<open>A C string: the characters \<open>xs\<close>, none of them zero, a zero, and whatever follows.\<close>

lemma strlen_eq [simp]: "0 \<notin> set xs \<Longrightarrow> strlen (xs @ 0 # r) = Inr (length xs)"
  by (induction xs) auto

lemma strcpy_eq:
  "0 \<notin> set xs \<Longrightarrow> length xs < length dest
   \<Longrightarrow> strcpy dest (xs @ 0 # r) = Inr (xs @ 0 # drop (Suc (length xs)) dest)"
proof (induction xs arbitrary: dest)
  case Nil
  then show ?case by (cases dest) auto
next
  case (Cons x xs)
  then show ?case by (cases dest) auto
qed

lemma strcat_eq:
  assumes "0 \<notin> set xs" "0 \<notin> set ys" "length ys \<le> length r"
  shows "strcat (xs @ 0 # r) (ys @ 0 # r') = Inr (xs @ ys @ 0 # drop (length ys) r)"
  using assms strcpy_eq [of ys "0 # r" r'] by (simp add: strcat_def)

text \<open>The comparison is zero for equal strings, and its sign is their lexicographic order.\<close>

lemma strcmp_order:
  assumes "0 \<notin> set xs" "0 \<notin> set ys"
  shows "\<exists>v. strcmp (xs @ 0 # r) (ys @ 0 # r') = Inr v \<and> (v = 0 \<longleftrightarrow> xs = ys)
    \<and> (v < 0 \<longleftrightarrow> (xs, ys) \<in> lexord {(a, b). a < b})"
  using assms
proof (induction xs ys rule: list_induct2')
  case (2 x xs)
  then show ?case by (auto simp: word_less_def uint_0_iff not_less)
next
  case (3 y ys)
  then show ?case by (auto simp: word_less_def uint_0_iff not_less order_less_le)
next
  case (4 x xs y ys)
  then show ?case by (cases "x = y") (auto simp: word_less_def word_uint_eq_iff)
qed auto

lemma strchr_loop_eq:
  "0 \<notin> set xs \<Longrightarrow> strchr_loop (xs @ 0 # r) d = Inr (length (takeWhile (\<lambda>c. c \<noteq> d) xs))"
  by (induction xs) auto

lemma strchr_eq:
  assumes "0 \<notin> set xs" "d \<noteq> 0"
  shows "strchr (xs @ 0 # r) (sint d) =
    Inr (if d \<in> set xs then Some (length (takeWhile (\<lambda>c. c \<noteq> d) xs)) else None)"
proof -
  let ?k = "length (takeWhile (\<lambda>c. c \<noteq> d) xs)"
  have "sint d \<noteq> 0" using assms(2) by (metis signed_0 signed_word_eqI)
  moreover have "(xs @ 0 # r) ! ?k = (if d \<in> set xs then d else 0)"
    using assms by (induction xs) auto
  moreover have "?k < length (xs @ 0 # r)" using length_takeWhile_le [of "\<lambda>c. c \<noteq> d" xs] by simp
  ultimately show ?thesis using assms by (simp add: strchr_def strchr_loop_eq byteAt_def)
qed


lemma length_takeWhile_conj:
  "length (takeWhile (\<lambda>c. P c \<and> Q c) xs) = min (length (takeWhile P xs)) (length (takeWhile Q xs))"
  by (induction xs) auto

lemma strcspn_loop_eq:
  assumes "0 \<notin> set xs" "0 \<notin> set ds" "ret \<le> length xs"
  shows "strcspn_loop (xs @ 0 # r) ds ret = Inr (min ret (length (takeWhile (\<lambda>c. c \<notin> set ds) xs)))"
  using assms(2,3)
proof (induction ds arbitrary: ret)
  case Nil
  have all: "takeWhile (\<lambda>c. True) xs = xs" by (simp add: takeWhile_eq_all_conv)
  show ?case using Nil by (simp add: all)
next
  case (Cons d ds)
  let ?k = "length (takeWhile (\<lambda>c. c \<noteq> d) xs)"
  have k: "ret \<le> ?k" if "d \<notin> set xs"
    using that Cons.prems(2) by (metis (mono_tags, lifting) takeWhile_eq_all_conv)
  have "strcspn_loop (xs @ 0 # r) (d # ds) ret = strcspn_loop (xs @ 0 # r) ds (min ret ?k)"
    using Cons.prems assms(1) k by (auto simp: strchr_eq min_def)
  then show ?case
    using Cons.IH [of "min ret ?k"] Cons.prems length_takeWhile_conj [of "\<lambda>c. c \<noteq> d" "\<lambda>c. c \<notin> set ds" xs]
    by (simp add: min.assoc)
qed

lemma strcspn_eq:
  "0 \<notin> set xs \<Longrightarrow> 0 \<notin> set ds
   \<Longrightarrow> strcspn (xs @ 0 # r) (ds @ 0 # r') = Inr (length (takeWhile (\<lambda>c. c \<notin> set ds) xs))"
  by (simp add: strcspn_def strcspn_loop_eq length_takeWhile_le min_absorb2)

lemma strspn_loop_eq: "strspn_loop xs ds = length (takeWhile (\<lambda>c. c \<in> set ds) xs)"
  by (induction xs) (auto simp: list_ex_iff)

lemma strspn_eq:
  "0 \<notin> set xs \<Longrightarrow> 0 \<notin> set ds
   \<Longrightarrow> strspn (xs @ 0 # r) (ds @ 0 # r') = Inr (length (takeWhile (\<lambda>c. c \<in> set ds) xs))"
  by (simp add: strspn_def strspn_loop_eq)

lemma strstr_at_eq:
  "0 \<notin> set xs \<Longrightarrow> 0 \<notin> set ds \<Longrightarrow> strstr_at (xs @ 0 # r) ds = Inr (take (length ds) xs = ds)"
proof (induction ds arbitrary: xs)
  case (Cons d ds)
  then show ?case by (cases xs) auto
qed simp

text \<open>The first position at which \<open>ds\<close> occurs.\<close>

lemma strstr_loop_first:
  assumes "0 \<notin> set xs" "0 \<notin> set ds"
  shows "strstr_loop (length xs) (xs @ 0 # r) ds =
    Inr (if \<exists>i < length xs. take (length ds) (drop i xs) = ds
         then Some (LEAST i. take (length ds) (drop i xs) = ds) else None)"
  using assms(1)
proof (induction xs)
  case (Cons x xs)
  let ?P = "\<lambda>i. take (length ds) (drop i (x # xs)) = ds"
  show ?case
  proof (cases "?P 0")
    case True
    then show ?thesis using strstr_at_eq [OF Cons.prems assms(2)] by (auto simp: Least_eq_0)
  next
    case False
    have "(LEAST i. ?P i) = Suc (LEAST i. ?P (Suc i))" if "?P (Suc i)" for i
      using Least_Suc [of ?P, OF that False] .
    moreover have "(\<exists>i < Suc (length xs). ?P i) \<longleftrightarrow> (\<exists>i < length xs. ?P (Suc i))"
      using False by (metis (no_types, lifting) Suc_less_eq less_Suc_eq_0_disj)
    ultimately show ?thesis
      using False Cons strstr_at_eq [OF Cons.prems assms(2)] by auto
  qed
qed simp

section \<open>Tokens as a reference definition\<close>

function tokens :: "u8 list \<Rightarrow> u8 list \<Rightarrow> u8 list list" where
  "tokens ds s =
     (let s' = dropWhile (\<lambda>c. c \<in> set ds) s
      in if s' = [] then []
         else takeWhile (\<lambda>c. c \<notin> set ds) s' # tokens ds (dropWhile (\<lambda>c. c \<notin> set ds) s'))"
  by pat_completeness auto
termination
proof (relation "measure (\<lambda>(ds, s). length s)")
  fix ds s s' :: "u8 list"
  assume s': "s' = dropWhile (\<lambda>c. c \<in> set ds) s" "s' \<noteq> []"
  then obtain c cs where c: "s' = c # cs" "c \<notin> set ds" by (metis hd_dropWhile neq_Nil_conv list.sel(1))
  then have "length (dropWhile (\<lambda>c. c \<notin> set ds) s') < length s'"
    using length_dropWhile_le [of _ cs] by (simp add: le_imp_less_Suc)
  also have "length s' \<le> length s" by (simp add: s'(1) length_dropWhile_le)
  finally show "((ds, dropWhile (\<lambda>c. c \<notin> set ds) s'), ds, s) \<in> measure (\<lambda>(ds, s). length s)" by simp
qed simp

declare tokens.simps [simp del]

text \<open>The state of \<open>strtok\<close> when the rest of the string is \<open>xs\<close>.\<close>

definition tk_rest :: "strtok_state \<Rightarrow> u8 list \<Rightarrow> bool" where
  "tk_rest st xs \<longleftrightarrow> 0 \<notin> set xs
     \<and> (case tk_pointer st of None \<Rightarrow> xs = []
        | Some p \<Rightarrow> \<exists>pre. tk_start st = pre @ xs @ [0] \<and> length pre = p)"

definition tk_text :: "strtok_state \<Rightarrow> nat \<Rightarrow> u8 list" where
  "tk_text st p = takeWhile (\<lambda>c. c \<noteq> 0) (drop p (tk_start st))"

lemma strtok_next_end:
  assumes "tk_rest st xs" "0 \<notin> set ds" "dropWhile (\<lambda>c. c \<in> set ds) xs = []"
  shows "\<exists>st'. strtok_next st (ds @ 0 # r) = Inr (st', None)"
proof (cases "tk_pointer st")
  case None
  then show ?thesis by (simp add: strtok_next_def)
next
  case (Some p)
  then obtain pre where pre: "tk_start st = pre @ xs @ [0]" "length pre = p" "0 \<notin> set xs"
    using assms(1) by (auto simp: tk_rest_def)
  have all: "takeWhile (\<lambda>c. c \<in> set ds) xs = xs"
    using assms(3) by (simp add: dropWhile_eq_Nil_conv takeWhile_eq_all_conv)
  show ?thesis
    using pre assms(2) strspn_eq [of xs ds "[]" r] strcspn_eq [of "[]" ds "[]" r]
    by (simp add: strtok_next_def Some Let_def all)
qed

text \<open>When a token is left, it is returned and the state moves behind it.\<close>

lemma strtok_next_token:
  assumes "tk_rest st xs" "0 \<notin> set ds" "dropWhile (\<lambda>c. c \<in> set ds) xs = c # cs"
  shows "\<exists>st' p. strtok_next st (ds @ 0 # r) = Inr (st', Some p)
    \<and> tk_text st' p = takeWhile (\<lambda>c. c \<notin> set ds) (c # cs)
    \<and> tk_rest st' (tl (dropWhile (\<lambda>c. c \<notin> set ds) (c # cs)))"
proof -
  have "xs \<noteq> []" using assms(3) by auto
  then obtain p pre where p: "tk_pointer st = Some p" "tk_start st = pre @ xs @ [0]" "length pre = p" "0 \<notin> set xs"
    using assms(1) by (auto simp: tk_rest_def split: option.splits)
  define skip tok rest where "skip = takeWhile (\<lambda>c. c \<in> set ds) xs"
    and "tok = takeWhile (\<lambda>c. c \<notin> set ds) (c # cs)" and "rest = dropWhile (\<lambda>c. c \<notin> set ds) (c # cs)"
  have xs: "xs = skip @ tok @ rest" by (metis assms(3) skip_def tok_def rest_def takeWhile_dropWhile_id)
  have c: "c \<notin> set ds" using assms(3) by (metis hd_dropWhile list.distinct(1) list.sel(1))
  then have tok: "tok \<noteq> []" by (simp add: tok_def)
  let ?q = "p + length skip"
  have start: "tk_start st = (pre @ skip) @ (tok @ rest @ [0])" "?q = length (pre @ skip)"
    using p xs by simp_all
  have spn: "strspn (drop p (tk_start st)) (ds @ 0 # r) = Inr (length skip)"
    using p assms(2) strspn_eq [of xs ds "[]" r] by (simp add: skip_def)
  have cspn: "strcspn (drop ?q (tk_start st)) (ds @ 0 # r) = Inr (length tok)"
    using start p xs assms(2,3) strcspn_eq [of "tok @ rest" ds "[]" r]
    by (simp add: tok_def rest_def)
  have nz: "0 \<notin> set tok" "0 \<notin> set rest" using p(4) xs by auto
  have read: "takeWhile (\<lambda>c. c \<noteq> 0) (tok @ 0 # ys) = tok" for ys
    using nz(1) by (induction tok) auto
  show ?thesis
  proof (cases rest)
    case Nil
    let ?st = "st\<lparr>tk_pointer := None\<rparr>"
    have "strtok_next st (ds @ 0 # r) = Inr (?st, Some ?q)"
      using p(1) spn cspn tok start Nil by (simp add: strtok_next_def Let_def byteAt_def nth_append)
    moreover have "tk_text ?st ?q = tok" using start Nil read by (simp add: tk_text_def)
    moreover have "tk_rest ?st (tl rest)" using Nil by (simp add: tk_rest_def)
    ultimately show ?thesis unfolding tok_def rest_def by blast
  next
    case (Cons d rest')
    let ?st = "\<lparr>tk_start = (tk_start st)[?q + length tok := 0], tk_pointer = Some (?q + length tok + 1)\<rparr>"
    have d: "d \<noteq> 0" using nz Cons by auto
    have upd: "tk_start ?st = (pre @ skip) @ tok @ 0 # rest' @ [0]"
      using start Cons by (simp add: list_update_append)
    have "strtok_next st (ds @ 0 # r) = Inr (?st, Some ?q)"
      using p(1) spn cspn tok start Cons d by (simp add: strtok_next_def Let_def byteAt_def nth_append)
    moreover have "tk_text ?st ?q = tok" using upd start(2) read by (simp add: tk_text_def)
    moreover have "tk_rest ?st (tl rest)"
      using nz(2) Cons upd start(2)
      by (auto simp: tk_rest_def intro!: exI [of _ "pre @ skip @ tok @ [0]"])
    ultimately show ?thesis unfolding tok_def rest_def by blast
  qed
qed


text \<open>The usual loop of a caller: \<open>strtok(s1, s2)\<close> once, then \<open>strtok(NULL, s2)\<close> until it returns \<open>NULL\<close>, reading
  each token before the next call. The number bounds the calls.\<close>

fun strtok_collect :: "nat \<Rightarrow> strtok_state \<Rightarrow> nat option \<Rightarrow> u8 list \<Rightarrow> u8 list list outcome" where
  "strtok_collect n st None s2 = Inr []"
| "strtok_collect 0 st (Some p) s2 = Inl Spins"
| "strtok_collect (Suc n) st (Some p) s2 =
     andThen (strtok st None s2) (\<lambda>(st', res).
     andThen (strtok_collect n st' res s2) (\<lambda>ts. Inr (tk_text st p # ts)))"

definition strtok_all :: "nat \<Rightarrow> strtok_state \<Rightarrow> u8 list \<Rightarrow> u8 list \<Rightarrow> u8 list list outcome" where
  "strtok_all n st s1 s2 = andThen (strtok st (Some s1) s2) (\<lambda>(st', res). strtok_collect n st' res s2)"

lemma tokens_Nil [simp]: "tokens ds [] = []"
  by (simp add: tokens.simps)

lemma tokens_skip: "tokens ds (tl (dropWhile (\<lambda>c. c \<notin> set ds) s)) = tokens ds (dropWhile (\<lambda>c. c \<notin> set ds) s)"
proof (cases "dropWhile (\<lambda>c. c \<notin> set ds) s")
  case Nil
  show ?thesis by (simp only: Nil list.sel)
next
  case (Cons d s')
  then have "d \<in> set ds" by (metis hd_dropWhile list.distinct(1) list.sel(1))
  then show ?thesis using Cons tokens.simps [of ds s'] tokens.simps [of ds "d # s'"] by simp
qed

lemma strtok_collect_tokens:
  assumes "tk_rest st xs" "0 \<notin> set ds" "length xs \<le> n"
  shows "\<exists>st' res. strtok_next st (ds @ 0 # r) = Inr (st', res)
    \<and> strtok_collect n st' res (ds @ 0 # r) = Inr (tokens ds xs)"
  using assms
proof (induction "length xs" arbitrary: xs st n rule: less_induct)
  case less
  show ?case
  proof (cases "dropWhile (\<lambda>c. c \<in> set ds) xs")
    case Nil
    then show ?thesis using strtok_next_end [OF less.prems(1,2) Nil, of r] by (auto simp: tokens.simps)
  next
    case (Cons c cs)
    let ?rest = "tl (dropWhile (\<lambda>c. c \<notin> set ds) (c # cs))"
    obtain st' p where st': "strtok_next st (ds @ 0 # r) = Inr (st', Some p)"
        "tk_text st' p = takeWhile (\<lambda>c. c \<notin> set ds) (c # cs)" "tk_rest st' ?rest"
      using strtok_next_token [OF less.prems(1,2) Cons] by blast
    have "c \<notin> set ds" using Cons by (metis hd_dropWhile list.distinct(1) list.sel(1))
    then have "length ?rest < length (c # cs)" using length_dropWhile_le [of "\<lambda>c. c \<notin> set ds" cs] by simp
    also have "length (c # cs) \<le> length xs" by (metis Cons length_dropWhile_le)
    finally have len: "length ?rest < length xs" .
    then obtain m where m: "n = Suc m" "length ?rest \<le> m" using less.prems(3) by (cases n) auto
    have "tokens ds xs = takeWhile (\<lambda>c. c \<notin> set ds) (c # cs) # tokens ds ?rest"
      using tokens_skip [of ds "c # cs"] tokens.simps [of ds xs] Cons by (simp add: Let_def)
    then show ?thesis using less.hyps [OF len st'(3) less.prems(2) m(2)] st' m(1) by (auto simp: strtok_def)
  qed
qed

section \<open>Properties\<close>

text \<open>C20. Called once with a string and then with \<open>NULL\<close>, \<open>strtok\<close> yields the tokens of the string in order:
  the maximal runs of characters that are not delimiters. It never writes to the caller's string, stays
  inside its private copy, and returns \<open>NULL\<close> after at most one call per character.\<close>

theorem strtok_tokens:
  assumes "0 \<notin> set xs" "0 \<notin> set ds"
  shows "strtok_all (length xs) st (xs @ 0 # r) (ds @ 0 # r') = Inr (tokens ds xs)"
proof -
  let ?st = "st\<lparr>tk_start := xs @ [0], tk_pointer := Some 0\<rparr>"
  have "strtok_copy st (xs @ 0 # r) = Inr ?st"
    using assms(1) strcpy_eq [of xs "replicate (Suc (length xs)) 0" r] by (simp add: strtok_copy_def)
  moreover have "tk_rest ?st xs" using assms(1) by (simp add: tk_rest_def)
  ultimately show ?thesis
    using strtok_collect_tokens [of ?st xs ds "length xs" r'] assms(2) by (auto simp: strtok_all_def strtok_def)
qed

theorem strtok_tokens_witness:
  "strtok_all (Suc (Suc (Suc (Suc (Suc (Suc 0)))))) \<lparr>tk_start = [], tk_pointer = None\<rparr> [0x2F, 0x61, 0x2F, 0x2F, 0x62, 0x63, 0] [0x2F, 0]
     = Inr [[0x61], [0x62, 0x63]]"
proof -
  have "tokens [0x2F] [0x2F, 0x61, 0x2F, 0x2F, 0x62, 0x63] = [[0x61], [0x62, 0x63]]"
    by (simp add: tokens.simps)
  then show ?thesis
    using strtok_tokens [of "[0x2F, 0x61, 0x2F, 0x2F, 0x62, 0x63]" "[0x2F]" "\<lparr>tk_start = [], tk_pointer = None\<rparr>" "[]" "[]"]
    by simp
qed

end
