(* ===== verification/Strings.thy ===== *)
theory Strings
  imports C_Strings
begin

text \<open>The class \<open>String\<close> (\<open>lib/string/String.cpp\<close>): a length and a buffer that ends with a zero. Accesses to
  buffers are checked. Storage for a new buffer is assumed to be found, and a \<open>String\<close> returned by value
  passes through the copy constructor. The \<open>ArrayList\<close> and the \<open>Array\<close> of strings that \<open>split\<close> and \<open>join\<close> use
  appear as the lists they contain.\<close>

section \<open>State and constructors\<close>

record cstring =
  str_len :: u32
  str_buffer :: "u8 list"

text \<open>\<open>memcpy(new char[n + 1], source + offset, n)\<close>.\<close>

definition copy_bytes :: "u8 list \<Rightarrow> u32 \<Rightarrow> u32 \<Rightarrow> u8 list outcome" where
  "copy_bytes source offset n =
     (if unat offset + unat n \<le> length source then Inr (take (unat n) (drop (unat offset) source))
      else Inl BadAccess)"

definition String_empty :: cstring where
  "String_empty = \<lparr>str_len = 0, str_buffer = [0]\<rparr>"

definition String_char :: "u8 \<Rightarrow> cstring" where
  "String_char character = \<lparr>str_len = 1, str_buffer = [character, 0]\<rparr>"

definition String_of :: "u8 list option \<Rightarrow> cstring outcome" where
  "String_of s =
     (case s of
        None \<Rightarrow> Inr \<lparr>str_len = 0, str_buffer = [0]\<rparr>
      | Some string \<Rightarrow>
          andThen (strlen string) (\<lambda>n.
          andThen (copy_bytes string 0 (of_nat n)) (\<lambda>b. Inr \<lparr>str_len = of_nat n, str_buffer = b @ [0]\<rparr>)))"

definition String_copy :: "cstring \<Rightarrow> cstring outcome" where
  "String_copy other =
     andThen (copy_bytes (str_buffer other) 0 (str_len other)) (\<lambda>b.
     Inr \<lparr>str_len = str_len other, str_buffer = b @ [0]\<rparr>)"

text \<open>Assignment copies one byte more, the terminating zero of the source.\<close>

definition String_assign :: "cstring \<Rightarrow> cstring outcome" where
  "String_assign other =
     andThen (copy_bytes (str_buffer other) 0 (str_len other + 1)) (\<lambda>b.
     Inr \<lparr>str_len = str_len other, str_buffer = b\<rparr>)"

section \<open>Queries\<close>

definition String_isEmpty :: "cstring \<Rightarrow> bool" where
  "String_isEmpty s \<longleftrightarrow> str_len s = 0"

definition String_length :: "cstring \<Rightarrow> u32" where
  "String_length s = str_len s"

definition String_get :: "cstring \<Rightarrow> u32 \<Rightarrow> u8 outcome" where
  "String_get s index = readAt (str_buffer s) index"

text \<open>\<open>char\<close> is signed, so each character is sign extended before it is added.\<close>

definition String_hashCode :: "cstring \<Rightarrow> u32 outcome" where
  "String_hashCode s =
     andThen (copy_bytes (str_buffer s) 0 (str_len s)) (\<lambda>cs. Inr (foldl (\<lambda>hash c. hash + scast c) 0 cs))"

definition String_eq :: "cstring \<Rightarrow> cstring \<Rightarrow> bool outcome" where
  "String_eq s other = andThen (strcmp (str_buffer s) (str_buffer other)) (\<lambda>v. Inr (v = 0))"

definition String_neq :: "cstring \<Rightarrow> cstring \<Rightarrow> bool outcome" where
  "String_neq s other = andThen (strcmp (str_buffer s) (str_buffer other)) (\<lambda>v. Inr (v \<noteq> 0))"

function indexOf_char_loop :: "cstring \<Rightarrow> u8 \<Rightarrow> u32 \<Rightarrow> u32 outcome" where
  "indexOf_char_loop s character i =
     (if i < str_len s then
        andThen (readAt (str_buffer s) i) (\<lambda>x.
        if x = character then Inr i else indexOf_char_loop s character (i + 1))
      else Inr UINT32_MAX)"
  by pat_completeness auto
termination
  by (relation "measure (\<lambda>(s, _, i). unat (str_len s) - unat i)")
    (auto simp: unat_Suc_u32 word_less_nat_alt)

declare indexOf_char_loop.simps [simp del]

definition String_indexOf_char :: "cstring \<Rightarrow> u8 \<Rightarrow> u32 \<Rightarrow> u32 outcome" where
  "String_indexOf_char s character start = indexOf_char_loop s character start"

text \<open>The inner loop of \<open>indexOf\<close> from \<open>j\<close> on: \<open>None\<close> for \<open>return UINT32_MAX\<close>, else \<open>j\<close> at its end.\<close>

function indexOf_inner :: "cstring \<Rightarrow> cstring \<Rightarrow> u32 \<Rightarrow> u32 \<Rightarrow> u32 option outcome" where
  "indexOf_inner s other i j =
     (if j < str_len other then
        if i + j \<ge> str_len s then Inr None
        else andThen (readAt (str_buffer s) (i + j)) (\<lambda>x.
             andThen (readAt (str_buffer other) j) (\<lambda>y.
             if x \<noteq> y then Inr (Some j) else indexOf_inner s other i (j + 1)))
      else Inr (Some j))"
  by pat_completeness auto
termination
  by (relation "measure (\<lambda>(_, other, _, j). unat (str_len other) - unat j)")
    (auto simp: unat_Suc_u32 word_less_nat_alt)

text \<open>\<open>j\<close> keeps its value from one position to the next when the first characters differ.\<close>

function indexOf_outer :: "cstring \<Rightarrow> cstring \<Rightarrow> u32 \<Rightarrow> u32 \<Rightarrow> u32 outcome" where
  "indexOf_outer s other i j =
     (if i < str_len s then
        andThen (readAt (str_buffer s) i) (\<lambda>x.
        andThen (readAt (str_buffer other) 0) (\<lambda>y.
        andThen (if x = y then indexOf_inner s other i 1 else Inr (Some j)) (\<lambda>r.
        case r of None \<Rightarrow> Inr UINT32_MAX
        | Some j' \<Rightarrow> if j' = str_len other then Inr i else indexOf_outer s other (i + 1) j')))
      else Inr UINT32_MAX)"
  by pat_completeness auto
termination
  by (relation "measure (\<lambda>(s, _, i, _). unat (str_len s) - unat i)")
    (auto simp: unat_Suc_u32 word_less_nat_alt)

declare indexOf_inner.simps [simp del] indexOf_outer.simps [simp del]

definition String_indexOf :: "cstring \<Rightarrow> cstring \<Rightarrow> u32 \<Rightarrow> u32 outcome" where
  "String_indexOf s other start = indexOf_outer s other start 0"

section \<open>Parts of strings\<close>

definition String_substring :: "cstring \<Rightarrow> u32 \<Rightarrow> u32 \<Rightarrow> cstring outcome" where
  "String_substring s begin end' =
     (if begin > end' \<or> begin \<ge> str_len s then Inr String_empty
      else let e = (if end' > str_len s then str_len s else end'); n = e - begin
           in andThen (copy_bytes (str_buffer s) begin n) (\<lambda>b.
              Inr \<lparr>str_len = n, str_buffer = b @ [0]\<rparr>))"

text \<open>The loop of \<open>split\<close>: \<open>None\<close> when it never ends.\<close>

partial_function (option) split_loop ::
  "cstring \<Rightarrow> cstring \<Rightarrow> u32 \<Rightarrow> u32 \<Rightarrow> u32 \<Rightarrow> cstring list \<Rightarrow> (u32 \<times> cstring list) outcome option" where
  "split_loop s delimiter limit start end' result =
     (if end' \<noteq> UINT32_MAX \<and> of_nat (length result) + 1 \<noteq> limit then
        (case String_substring s start end' of
           Inl e \<Rightarrow> Some (Inl e)
         | Inr element \<Rightarrow>
             (case String_indexOf s delimiter (end' + str_len delimiter) of
                Inl e \<Rightarrow> Some (Inl e)
              | Inr end'' \<Rightarrow>
                  split_loop s delimiter limit (end' + str_len delimiter) end''
                    (if \<not> String_isEmpty element then result @ [element] else result)))
      else Some (Inr (start, result)))"

declare split_loop.simps [code]

definition String_split :: "cstring \<Rightarrow> cstring \<Rightarrow> u32 \<Rightarrow> cstring list outcome" where
  "String_split s delimiter limit =
     (if str_len s = 0 then Inr []
      else andThen (String_indexOf s delimiter 0) (\<lambda>end'.
           case split_loop s delimiter limit 0 end' [] of
             None \<Rightarrow> Inl Spins
           | Some r \<Rightarrow> andThen r (\<lambda>(start, result).
               andThen (String_substring s start (str_len s)) (\<lambda>element.
               Inr (if \<not> String_isEmpty element then result @ [element] else result)))))"

definition String_append :: "cstring \<Rightarrow> cstring \<Rightarrow> cstring outcome" where
  "String_append s other =
     andThen (copy_bytes (str_buffer s) 0 (str_len s)) (\<lambda>a.
     andThen (copy_bytes (str_buffer other) 0 (str_len other + 1)) (\<lambda>b.
     Inr \<lparr>str_len = str_len s + str_len other, str_buffer = a @ b\<rparr>))"

definition String_plus :: "cstring \<Rightarrow> cstring \<Rightarrow> cstring outcome" where
  "String_plus first second = andThen (String_copy first) (\<lambda>tmp. String_append tmp second)"

definition String_plus_char :: "cstring \<Rightarrow> u8 \<Rightarrow> cstring outcome" where
  "String_plus_char first second = andThen (String_copy first) (\<lambda>tmp. String_append tmp (String_char second))"

definition String_plus_chars :: "cstring \<Rightarrow> u8 list \<Rightarrow> cstring outcome" where
  "String_plus_chars first second =
     andThen (String_copy first) (\<lambda>tmp. andThen (String_of (Some second)) (\<lambda>s. String_append tmp s))"

definition char_plus_String :: "u8 \<Rightarrow> cstring \<Rightarrow> cstring outcome" where
  "char_plus_String first second = String_append (String_char first) second"

definition chars_plus_String :: "u8 list \<Rightarrow> cstring \<Rightarrow> cstring outcome" where
  "chars_plus_String first second = andThen (String_of (Some first)) (\<lambda>tmp. String_append tmp second)"

definition String_remove :: "cstring \<Rightarrow> cstring \<Rightarrow> cstring outcome" where
  "String_remove s string =
     andThen (String_indexOf s string 0) (\<lambda>index.
     if index = UINT32_MAX then String_of (Some (str_buffer s))
     else andThen (String_substring s 0 index) (\<lambda>a.
          andThen (String_substring s (index + str_len string) (str_len s)) (\<lambda>b. String_plus a b)))"

fun append_all :: "cstring \<Rightarrow> cstring list \<Rightarrow> cstring outcome" where
  "append_all tmp [] = Inr tmp"
| "append_all tmp (token # ts) = andThen (String_append tmp token) (\<lambda>tmp'. append_all tmp' ts)"

definition String_removeAll :: "cstring \<Rightarrow> cstring \<Rightarrow> cstring outcome" where
  "String_removeAll s string = andThen (String_split s string 0) (\<lambda>ts. append_all String_empty ts)"

definition String_beginsWith :: "cstring \<Rightarrow> cstring \<Rightarrow> bool outcome" where
  "String_beginsWith s string = andThen (String_substring s 0 (str_len string)) (\<lambda>t. String_eq t string)"

definition String_endsWith :: "cstring \<Rightarrow> cstring \<Rightarrow> bool outcome" where
  "String_endsWith s string =
     andThen (String_substring s (str_len s - str_len string) (str_len s)) (\<lambda>t. String_eq t string)"

text \<open>\<open>size - 1\<close> wraps for an empty array, and the first access is out of bounds.\<close>

fun join_loop :: "cstring \<Rightarrow> cstring list \<Rightarrow> cstring \<Rightarrow> cstring outcome" where
  "join_loop separator [] tmp = Inl (Thrown OUT_OF_BOUNDS)"
| "join_loop separator [e] tmp = String_append tmp e"
| "join_loop separator (e # f # elements) tmp =
     andThen (String_plus e separator) (\<lambda>es. andThen (String_append tmp es) (\<lambda>tmp'.
     join_loop separator (f # elements) tmp'))"

definition String_join :: "cstring \<Rightarrow> cstring list \<Rightarrow> cstring outcome" where
  "String_join separator elements = join_loop separator elements String_empty"

definition String_valueOf_bool :: "bool \<Rightarrow> u8 list" where
  "String_valueOf_bool value = (if value then [0x74, 0x72, 0x75, 0x65] else [0x66, 0x61, 0x6C, 0x73, 0x65])"

section \<open>Case and blanks\<close>

abbreviation CASE_OFFSET :: u8 where
  "CASE_OFFSET \<equiv> 32"

text \<open>\<open>char\<close> is signed: the comparisons are on \<open>sint\<close>.\<close>

definition String_isAlpha :: "u8 \<Rightarrow> bool" where
  "String_isAlpha c \<longleftrightarrow> (sint c \<ge> 0x41 \<and> sint c \<le> 0x5A) \<or> (sint c \<ge> 0x61 \<and> sint c \<le> 0x7A)"

definition upper_char :: "u8 \<Rightarrow> u8" where
  "upper_char c = (if String_isAlpha c then if sint c \<le> 0x5A then c else c - CASE_OFFSET else c)"

definition lower_char :: "u8 \<Rightarrow> u8" where
  "lower_char c = (if String_isAlpha c then if sint c \<ge> 0x61 then c else c + CASE_OFFSET else c)"

definition map_chars :: "(u8 \<Rightarrow> u8) \<Rightarrow> cstring \<Rightarrow> cstring" where
  "map_chars f s = s\<lparr>str_buffer := map f (take (unat (str_len s)) (str_buffer s)) @ drop (unat (str_len s)) (str_buffer s)\<rparr>"

definition String_toUpperCase :: "cstring \<Rightarrow> cstring outcome" where
  "String_toUpperCase s = andThen (String_copy s) (\<lambda>tmp. Inr (map_chars upper_char tmp))"

definition String_toLowerCase :: "cstring \<Rightarrow> cstring outcome" where
  "String_toLowerCase s = andThen (String_copy s) (\<lambda>tmp. Inr (map_chars lower_char tmp))"

definition is_blank :: "u8 \<Rightarrow> bool" where
  "is_blank c \<longleftrightarrow> c = 0x09 \<or> c = 0x20"

function strip_start :: "cstring \<Rightarrow> u32 \<Rightarrow> u32 outcome" where
  "strip_start s i =
     (if i < str_len s then
        andThen (readAt (str_buffer s) i) (\<lambda>c. if \<not> is_blank c then Inr i else strip_start s (i + 1))
      else Inr i)"
  by pat_completeness auto
termination
  by (relation "measure (\<lambda>(s, i). unat (str_len s) - unat i)") (auto simp: unat_Suc_u32 word_less_nat_alt)

function strip_end :: "cstring \<Rightarrow> u32 \<Rightarrow> u32 \<Rightarrow> u32 outcome" where
  "strip_end s startIndex i =
     (if i > startIndex then
        andThen (readAt (str_buffer s) i) (\<lambda>c. if \<not> is_blank c then Inr i else strip_end s startIndex (i - 1))
      else Inr i)"
  by pat_completeness auto
termination
  by (relation "measure (\<lambda>(s, _, i). unat i)") (auto simp: word_less_nat_alt unat_sub_u32)

declare strip_start.simps [simp del] strip_end.simps [simp del]

definition String_strip :: "cstring \<Rightarrow> cstring outcome" where
  "String_strip s =
     andThen (strip_start s 0) (\<lambda>startIndex.
     andThen (strip_end s startIndex (str_len s - 1)) (\<lambda>endIndex.
     if startIndex = endIndex then Inr String_empty else String_substring s startIndex (endIndex + 1)))"


section \<open>Strings as lists\<close>

definition str_wf :: "cstring \<Rightarrow> bool" where
  "str_wf s \<longleftrightarrow> length (str_buffer s) = Suc (unat (str_len s)) \<and> last (str_buffer s) = 0"

definition str_text :: "cstring \<Rightarrow> u8 list" where
  "str_text s = take (unat (str_len s)) (str_buffer s)"

lemma length_str_text: "str_wf s \<Longrightarrow> length (str_text s) = unat (str_len s)"
  by (simp add: str_wf_def str_text_def)

lemma str_buffer_eq: "str_wf s \<Longrightarrow> str_buffer s = str_text s @ [0]"
proof -
  assume "str_wf s"
  then have b: "length (str_buffer s) = Suc (unat (str_len s))" "last (str_buffer s) = 0" "str_buffer s \<noteq> []"
    by (auto simp: str_wf_def)
  then have "str_buffer s = butlast (str_buffer s) @ [0]" by (metis append_butlast_last_id)
  then show ?thesis using b by (simp add: str_text_def butlast_conv_take)
qed

lemma read_text: "str_wf s \<Longrightarrow> i < str_len s \<Longrightarrow> readAt (str_buffer s) i = Inr (str_text s ! unat i)"
  using length_str_text [of s] by (simp add: str_buffer_eq word_less_nat_alt nth_append)

lemma text_new [simp]:
  "length b = unat n \<Longrightarrow> str_text \<lparr>str_len = n, str_buffer = b @ [0]\<rparr> = b"
  "length b = unat n \<Longrightarrow> str_wf \<lparr>str_len = n, str_buffer = b @ [0]\<rparr>"
  by (simp_all add: str_text_def str_wf_def)

lemma text_empty [simp]: "str_text String_empty = []" "str_wf String_empty"
  by (simp_all add: str_text_def str_wf_def String_empty_def)

lemma isEmpty_text: "str_wf s \<Longrightarrow> String_isEmpty s \<longleftrightarrow> str_text s = []"
  using length_str_text [of s] by (auto simp: String_isEmpty_def unat_eq_0)

lemma substring_text:
  assumes "str_wf s"
  shows "\<exists>t. String_substring s b e = Inr t \<and> str_wf t
    \<and> str_text t = take (unat e - unat b) (drop (unat b) (str_text s))"
proof (cases "b > e \<or> b \<ge> str_len s")
  case True
  then have "take (unat e - unat b) (drop (unat b) (str_text s)) = []"
    using length_str_text [OF assms] by (auto simp: word_less_nat_alt word_le_nat_alt)
  then show ?thesis using True by (simp add: String_substring_def)
next
  case False
  let ?e = "if e > str_len s then str_len s else e"
  have e: "unat ?e = min (unat e) (unat (str_len s))" by (simp add: word_less_nat_alt min_def)
  have b: "unat b \<le> unat e" "unat b < unat (str_len s)" using False by (auto simp: word_less_nat_alt word_le_nat_alt)
  then have n: "unat (?e - b) = min (unat e) (unat (str_len s)) - unat b"
    using e unat_sub_u32 [of b ?e] by simp
  have len: "length (str_text s) = unat (str_len s)" using assms by (rule length_str_text)
  have "copy_bytes (str_buffer s) b (?e - b) = Inr (take (unat (?e - b)) (drop (unat b) (str_text s)))"
    using b n len by (simp add: copy_bytes_def str_buffer_eq [OF assms])
  moreover have "take (unat (?e - b)) (drop (unat b) (str_text s)) = take (unat e - unat b) (drop (unat b) (str_text s))"
    using n len by (simp add: min_def)
  moreover have "length (take (unat (?e - b)) (drop (unat b) (str_text s))) = unat (?e - b)"
    using n len by simp
  ultimately show ?thesis using False by (auto simp: String_substring_def Let_def)
qed

text \<open>The first position from \<open>i\<close> on at which \<open>d\<close> occurs in \<open>t\<close>.\<close>

definition next_occ :: "'a list \<Rightarrow> 'a list \<Rightarrow> nat \<Rightarrow> nat option" where
  "next_occ d t i = find (\<lambda>k. take (length d) (drop k t) = d) [i..<length t]"

lemma next_occ_step:
  "next_occ d t i = (if i < length t then if take (length d) (drop i t) = d then Some i else next_occ d t (Suc i)
                     else None)"
  by (simp add: next_occ_def upt_conv_Cons)

lemma next_occ_tail: "d \<noteq> [] \<Longrightarrow> length t < i + length d \<Longrightarrow> next_occ d t i = None"
  by (fastforce simp: next_occ_def find_None_iff dest: arg_cong [of _ _ length])

lemma indexOf_inner_text:
  assumes "str_wf s" "str_wf d" "unat (str_len s) + unat (str_len d) < 4294967296"
    and "i < str_len s" "j \<le> str_len d" "0 < j"
  shows "\<exists>r. indexOf_inner s d i j = Inr r
    \<and> (take (unat (str_len d) - unat j) (drop (unat i + unat j) (str_text s)) = drop (unat j) (str_text d)
         \<longrightarrow> r = Some (str_len d))
    \<and> (take (unat (str_len d) - unat j) (drop (unat i + unat j) (str_text s)) \<noteq> drop (unat j) (str_text d)
         \<longrightarrow> (case r of None \<Rightarrow> unat (str_len s) < unat i + unat (str_len d) | Some j' \<Rightarrow> j' < str_len d))"
  using assms(5,6)
proof (induction "unat (str_len d) - unat j" arbitrary: j rule: less_induct)
  case less
  let ?T = "str_text s" and ?D = "str_text d"
  have lT: "length ?T = unat (str_len s)" and lD: "length ?D = unat (str_len d)"
    using assms(1,2) by (simp_all add: length_str_text)
  show ?case
  proof (cases "j < str_len d")
    case False
    then have "j = str_len d" using less.prems(1) by simp
    then show ?thesis using lD by (subst indexOf_inner.simps) simp
  next
    case True
    have ij: "unat (i + j) = unat i + unat j"
      using assms(3,4) True by (intro unat_add_u32) (auto simp: word_less_nat_alt)
    have jD: "drop (unat j) ?D = ?D ! unat j # drop (Suc (unat j)) ?D"
      using True lD by (simp add: word_less_nat_alt Cons_nth_drop_Suc)
    have k: "unat (str_len d) - unat j = Suc (unat (str_len d) - Suc (unat j))"
      using True by (simp add: word_less_nat_alt Suc_diff_Suc)
    show ?thesis
    proof (cases "i + j \<ge> str_len s")
      case out: True
      then have "drop (unat i + unat j) ?T = []" using ij lT by (simp add: word_le_nat_alt)
      then show ?thesis using out True ij jD
        by (subst indexOf_inner.simps) (auto simp: word_le_nat_alt word_less_nat_alt)
    next
      case inside: False
      then have iT: "drop (unat i + unat j) ?T = ?T ! (unat i + unat j) # drop (Suc (unat i + unat j)) ?T"
        using ij lT by (simp add: word_le_nat_alt Cons_nth_drop_Suc)
      have reads: "readAt (str_buffer s) (i + j) = Inr (?T ! (unat i + unat j))"
        "readAt (str_buffer d) j = Inr (?D ! unat j)"
        using read_text [OF assms(1), of "i + j"] read_text [OF assms(2) True] inside ij by simp_all
      have suc: "unat (j + 1) = Suc (unat j)" using True unat_Suc_u32 by (auto simp: word_less_nat_alt)
      show ?thesis
      proof (cases "?T ! (unat i + unat j) = ?D ! unat j")
        case eq: True
        have "unat (str_len d) - unat (j + 1) < unat (str_len d) - unat j" "j + 1 \<le> str_len d" "0 < j + 1"
          using True suc by (simp_all add: word_less_nat_alt word_le_nat_alt)
        from less.hyps [OF this] show ?thesis
          using True inside reads eq by (subst indexOf_inner.simps) (simp add: k iT jD suc)
      next
        case False
        then show ?thesis
          using True inside reads by (subst indexOf_inner.simps) (simp add: k iT jD)
      qed
    qed
  qed
qed


definition occ_index :: "nat option \<Rightarrow> u32" where
  "occ_index r = (case r of None \<Rightarrow> UINT32_MAX | Some k \<Rightarrow> of_nat k)"

lemma indexOf_outer_text:
  assumes "str_wf s" "str_wf d" "unat (str_len s) + unat (str_len d) < 4294967296"
    and "str_text d \<noteq> []" "j < str_len d"
  shows "indexOf_outer s d i j = Inr (occ_index (next_occ (str_text d) (str_text s) (unat i)))"
  using assms(5)
proof (induction "unat (str_len s) - unat i" arbitrary: i j rule: less_induct)
  case less
  let ?T = "str_text s" and ?D = "str_text d"
  have lT: "length ?T = unat (str_len s)" and lD: "length ?D = unat (str_len d)"
    using assms(1,2) by (simp_all add: length_str_text)
  have d0: "0 < str_len d" using less.prems by (metis le_less_trans word_zero_le)
  show ?case
  proof (cases "i < str_len s")
    case False
    then show ?thesis
      by (subst indexOf_outer.simps, subst next_occ_step) (simp add: lT occ_index_def word_less_nat_alt)
  next
    case True
    have suc: "unat (i + 1) = Suc (unat i)" using True by (rule unat_Suc_u32)
    then have smaller: "unat (str_len s) - unat (i + 1) < unat (str_len s) - unat i"
      using True by (simp add: word_less_nat_alt)
    have iT: "drop (unat i) ?T = ?T ! unat i # drop (Suc (unat i)) ?T"
      using True lT by (simp add: word_less_nat_alt Cons_nth_drop_Suc)
    have "0 < unat (str_len d)" using d0 by (simp add: word_less_nat_alt)
    then have D0: "?D = ?D ! 0 # drop 1 ?D" and len: "length ?D = Suc (unat (str_len d) - 1)"
      using lD Cons_nth_drop_Suc [of 0 ?D] by simp_all
    let ?occ = "take (length ?D) (drop (unat i) ?T) = ?D"
    have occ: "?occ \<longleftrightarrow> ?T ! unat i = ?D ! 0 \<and> take (unat (str_len d) - 1) (drop (Suc (unat i)) ?T) = drop 1 ?D"
      by (subst D0, subst len, subst iT) simp
    have reads: "readAt (str_buffer s) i = Inr (?T ! unat i)" "readAt (str_buffer d) 0 = Inr (?D ! 0)"
      using read_text [OF assms(1) True] read_text [OF assms(2) d0] by simp_all
    have next': "next_occ ?D ?T (unat i) = (if ?occ then Some (unat i) else next_occ ?D ?T (unat (i + 1)))"
      using True lT suc by (subst next_occ_step) (simp add: word_less_nat_alt)
    show ?thesis
    proof (cases "?T ! unat i = ?D ! 0")
      case False
      then show ?thesis using True reads less.hyps [OF smaller less.prems] less.prems occ next'
        by (subst indexOf_outer.simps) auto
    next
      case eq: True
      have "(1 :: u32) \<le> str_len d" using d0 by (simp add: word_le_nat_alt word_less_nat_alt)
      then obtain r where r: "indexOf_inner s d i 1 = Inr r" "?occ \<Longrightarrow> r = Some (str_len d)"
          "\<not> ?occ \<Longrightarrow> case r of None \<Rightarrow> unat (str_len s) < unat i + unat (str_len d) | Some j' \<Rightarrow> j' < str_len d"
        using indexOf_inner_text [OF assms(1-3) True, of 1] occ eq by auto
      show ?thesis
      proof (cases ?occ)
        case o: True
        then show ?thesis using True reads eq r(1) r(2) [OF o] next'
          by (subst indexOf_outer.simps) (simp add: occ_index_def)
      next
        case no: False
        show ?thesis
        proof (cases r)
          case None
          then have "next_occ ?D ?T (unat i) = None"
            using r(3) [OF no] lT lD assms(4) by (intro next_occ_tail) simp_all
          then show ?thesis using True reads eq r(1) None
            by (subst indexOf_outer.simps) (simp add: occ_index_def)
        next
          case (Some j')
          then have "j' < str_len d" using r(3) [OF no] by simp
          then show ?thesis using True reads eq r(1) Some less.hyps [OF smaller] next' no
            by (subst indexOf_outer.simps) auto
        qed
      qed
    qed
  qed
qed

lemma indexOf_text:
  assumes "str_wf s" "str_wf d" "unat (str_len s) + unat (str_len d) < 4294967296" "str_text d \<noteq> []"
  shows "String_indexOf s d i = Inr (occ_index (next_occ (str_text d) (str_text s) (unat i)))"
proof -
  have "0 < length (str_text d)" using assms(4) by simp
  then have "0 < str_len d" using length_str_text [OF assms(2)] by (simp add: word_less_nat_alt)
  then show ?thesis using indexOf_outer_text [OF assms] by (simp add: String_indexOf_def)
qed

section \<open>Splitting\<close>

text \<open>The parts of \<open>t\<close> between the occurrences of \<open>d\<close>, found from the left.\<close>

function pieces :: "'a list \<Rightarrow> 'a list \<Rightarrow> 'a list list" where
  "pieces d t =
     (case next_occ d t 0 of None \<Rightarrow> [t]
      | Some k \<Rightarrow> take k t # (if d = [] then [] else pieces d (drop (k + length d) t)))"
  by pat_completeness auto
termination
proof (relation "measure (\<lambda>(d, t). length t)")
  fix d t :: "'a list" and k
  assume "next_occ d t 0 = Some k" "d \<noteq> []"
  then have "k < length t" "0 < length d" by (auto simp: next_occ_def find_Some_iff)
  then have "length t - (k + length d) < length t" by linarith
  then show "((d, drop (k + length d) t), d, t) \<in> measure (\<lambda>(d, t). length t)" by simp
qed simp

declare pieces.simps [simp del]

text \<open>Put together again with \<open>d\<close> in between, the parts are the whole.\<close>

fun glue :: "'a list \<Rightarrow> 'a list list \<Rightarrow> 'a list" where
  "glue d [] = []"
| "glue d [x] = x"
| "glue d (x # y # zs) = x @ d @ glue d (y # zs)"

lemma glue_pieces: "d \<noteq> [] \<Longrightarrow> glue d (pieces d t) = t"
proof (induction d t rule: pieces.induct)
  case (1 d t)
  show ?case
  proof (cases "next_occ d t 0")
    case None
    then show ?thesis by (simp add: pieces.simps)
  next
    case (Some k)
    then have "take (length d) (drop k t) = d" by (auto simp: next_occ_def find_Some_iff)
    then have t: "take k t @ d @ drop (k + length d) t = t"
      by (metis append_take_drop_id drop_drop add.commute)
    obtain y zs where "pieces d (drop (k + length d) t) = y # zs"
      using pieces.simps [of d "drop (k + length d) t"] by (auto split: option.splits)
    then show ?thesis using 1 Some t by (subst pieces.simps) simp
  qed
qed


lemma find_map: "find P (map f xs) = map_option f (find (\<lambda>x. P (f x)) xs)"
  by (induction xs) auto

lemma next_occ_shift: "next_occ d t i = map_option ((+) i) (next_occ d (drop i t) 0)"
proof -
  have "[i..<length t] = map ((+) i) [0..<length t - i]" by (auto intro: nth_equalityI)
  then show ?thesis by (simp add: next_occ_def find_map add.commute)
qed

lemma next_occ_Some:
  "next_occ d t i = Some k \<Longrightarrow> d \<noteq> [] \<Longrightarrow> i \<le> k \<and> k + length d \<le> length t"
proof -
  assume k: "next_occ d t i = Some k" and d: "d \<noteq> []"
  then have t: "i \<le> k" "k < length t" "take (length d) (drop k t) = d"
    by (auto simp: next_occ_def find_Some_iff)
  from t(3) have "length d \<le> length t - k" by (metis length_drop length_take min.cobounded1)
  then show ?thesis using t by simp
qed

lemma pieces_from:
  "d \<noteq> [] \<Longrightarrow> pieces d (drop i t) =
     (case next_occ d t i of None \<Rightarrow> [drop i t]
      | Some k \<Rightarrow> take (k - i) (drop i t) # pieces d (drop (k + length d) t))"
  using next_occ_shift [of d t i] pieces.simps [of d "drop i t"]
  by (auto simp: add.commute add.left_commute split: option.splits)

lemma split_loop_pieces:
  assumes "str_wf s" "str_wf d" "unat (str_len s) + unat (str_len d) < 4294967296" "str_text d \<noteq> []"
    and "unat start \<le> unat (str_len s)" "length res \<le> unat start"
  shows "\<exists>start' els. split_loop s d 0 start (occ_index (next_occ (str_text d) (str_text s) (unat start))) res
      = Some (Inr (start', res @ els)) \<and> (\<forall>e \<in> set els. str_wf e)
    \<and> filter (\<lambda>p. p \<noteq> []) (pieces (str_text d) (drop (unat start) (str_text s)))
      = map str_text els @ filter (\<lambda>p. p \<noteq> []) [drop (unat start') (str_text s)]"
  using assms(5,6)
proof (induction "unat (str_len s) - unat start" arbitrary: start res rule: less_induct)
  case less
  let ?T = "str_text s" and ?D = "str_text d"
  have lT: "length ?T = unat (str_len s)" and lD: "length ?D = unat (str_len d)"
    using assms(1,2) by (simp_all add: length_str_text)
  have d0: "0 < unat (str_len d)" using assms(4) lD by (metis length_greater_0_conv)
  show ?case
  proof (cases "next_occ ?D ?T (unat start)")
    case None
    then show ?thesis
      using pieces_from [OF assms(4), of "unat start" ?T]
      by (subst split_loop.simps) (auto simp: occ_index_def)
  next
    case (Some k)
    have k: "unat start \<le> k" "k + unat (str_len d) \<le> unat (str_len s)"
      using next_occ_Some [OF Some assms(4)] lT lD by simp_all
    have uk: "unat (of_nat k :: u32) = k" using k(2) assms(3) by (simp add: unat_of_nat)
    have ukd: "unat (of_nat k + str_len d) = k + unat (str_len d)"
      using uk k(2) assms(3) by (subst unat_add_u32) simp_all
    have kmax: "(of_nat k :: u32) \<noteq> UINT32_MAX" using uk k(2) d0 assms(3) by (auto simp: word_unat_eq_iff)
    have "unat (of_nat (length res) + 1 :: u32) = Suc (length res)"
      using less.prems k d0 assms(3) by (subst unat_add_u32) (simp_all add: unat_of_nat)
    then have lim: "(of_nat (length res) + 1 :: u32) \<noteq> 0" by (metis nat.distinct(1) unat_0)
    obtain e where e: "String_substring s start (of_nat k) = Inr e" "str_wf e"
        "str_text e = take (k - unat start) (drop (unat start) ?T)"
      using substring_text [OF assms(1), of start "of_nat k"] uk by auto
    let ?res = "if \<not> String_isEmpty e then res @ [e] else res" and ?start = "of_nat k + str_len d"
    have idx: "String_indexOf s d ?start = Inr (occ_index (next_occ ?D ?T (unat ?start)))"
      by (rule indexOf_text [OF assms(1-4)])
    have "unat (str_len s) - unat ?start < unat (str_len s) - unat start" "unat ?start \<le> unat (str_len s)"
      "length ?res \<le> unat ?start"
      using ukd k d0 less.prems by simp_all
    from less.hyps [OF this] obtain start' els where ih:
        "split_loop s d 0 ?start (occ_index (next_occ ?D ?T (unat ?start))) ?res = Some (Inr (start', ?res @ els))"
        "\<forall>e \<in> set els. str_wf e"
        "filter (\<lambda>p. p \<noteq> []) (pieces ?D (drop (unat ?start) ?T))
          = map str_text els @ filter (\<lambda>p. p \<noteq> []) [drop (unat start') ?T]"
      by blast
    have "split_loop s d 0 start (occ_index (next_occ ?D ?T (unat start))) res = Some (Inr (start', ?res @ els))"
      using Some kmax lim e(1) idx ih(1) by (subst split_loop.simps) (simp add: occ_index_def)
    moreover have "pieces ?D (drop (unat start) ?T) = str_text e # pieces ?D (drop (unat ?start) ?T)"
      using pieces_from [OF assms(4), of "unat start" ?T] Some e(3) lD ukd by simp
    ultimately show ?thesis
      using ih(2,3) e(2) isEmpty_text [OF e(2)]
      by (intro exI [of _ start'] exI [of _ "(if \<not> String_isEmpty e then [e] else []) @ els"]) auto
  qed
qed


section \<open>Blanks\<close>

lemma strip_start_blanks:
  assumes "str_wf s" "str_text s = bs @ c # cs" "\<forall>b \<in> set bs. is_blank b" "\<not> is_blank c"
  shows "unat i \<le> length bs \<Longrightarrow> strip_start s i = Inr (of_nat (length bs))"
proof (induction "length bs - unat i" arbitrary: i rule: less_induct)
  case less
  have len: "length bs < unat (str_len s)" using length_str_text [OF assms(1)] assms(2) by simp
  then have i: "i < str_len s" using less.prems by (simp add: word_less_nat_alt)
  have r: "readAt (str_buffer s) i = Inr ((bs @ c # cs) ! unat i)" using read_text [OF assms(1) i] assms(2) by simp
  show ?case
  proof (cases "unat i = length bs")
    case True
    then have "of_nat (length bs) = i" by (simp add: word_unat_eq_iff unat_of_nat flip: True)
    then show ?thesis using i r True assms(4) by (subst strip_start.simps) (simp add: nth_append)
  next
    case False
    then have lt: "unat i < length bs" using less.prems by simp
    then have "is_blank ((bs @ c # cs) ! unat i)" using assms(3) by (simp add: nth_append)
    moreover have "unat (i + 1) = Suc (unat i)" using i by (rule unat_Suc_u32)
    ultimately show ?thesis using i r lt less.hyps [of "i + 1"] by (subst strip_start.simps) simp
  qed
qed

section \<open>Properties\<close>

text \<open>C19. \<open>split\<close> cuts a string at the occurrences of a delimiter that is not empty, found from the left, and
  returns the parts that are not empty in order, when it is called without a limit. (With the delimiter in between, all parts together are
  the string again.) It returns, and no buffer is accessed out of bounds. (With an empty delimiter the loop of the code
  never ends.)\<close>

theorem String_split_pieces:
  assumes "str_wf s" "str_wf d" "unat (str_len s) + unat (str_len d) < 4294967296" "str_text d \<noteq> []"
  shows "\<exists>els. String_split s d 0 = Inr els \<and> (\<forall>e \<in> set els. str_wf e)
    \<and> map str_text els = filter (\<lambda>p. p \<noteq> []) (pieces (str_text d) (str_text s))
    \<and> glue (str_text d) (pieces (str_text d) (str_text s)) = str_text s"
proof (cases "str_len s = 0")
  case True
  then have "str_text s = []" using length_str_text [OF assms(1)] by simp
  moreover have "pieces (str_text d) [] = [[]]" by (subst pieces.simps) (simp add: next_occ_def)
  ultimately show ?thesis using True by (simp add: String_split_def)
next
  case False
  obtain start els where l: "split_loop s d 0 0 (occ_index (next_occ (str_text d) (str_text s) 0)) []
      = Some (Inr (start, els))" "\<forall>e \<in> set els. str_wf e"
      "filter (\<lambda>p. p \<noteq> []) (pieces (str_text d) (str_text s))
        = map str_text els @ filter (\<lambda>p. p \<noteq> []) [drop (unat start) (str_text s)]"
    using split_loop_pieces [OF assms, of 0 "[]"] by auto
  obtain e where e: "String_substring s start (str_len s) = Inr e" "str_wf e"
      "str_text e = drop (unat start) (str_text s)"
    using substring_text [OF assms(1), of start "str_len s"] length_str_text [OF assms(1)] by auto
  have "String_split s d 0 = Inr (if \<not> String_isEmpty e then els @ [e] else els)"
    using False l(1) e(1) indexOf_text [OF assms, of 0] by (simp add: String_split_def)
  then show ?thesis using l(2,3) e(2,3) isEmpty_text [OF e(2)] glue_pieces [OF assms(4)] by auto
qed

theorem String_split_pieces_witness:
  "\<exists>els. String_split \<lparr>str_len = 5, str_buffer = [0x61, 0x2F, 0x2F, 0x62, 0x63, 0]\<rparr>
            \<lparr>str_len = 1, str_buffer = [0x2F, 0]\<rparr> 0 = Inr els
     \<and> map str_text els = [[0x61], [0x62, 0x63]]"
proof -
  let ?s = "\<lparr>str_len = 5, str_buffer = [0x61, 0x2F, 0x2F, 0x62, 0x63, 0]\<rparr>"
  let ?d = "\<lparr>str_len = 1, str_buffer = [0x2F, 0]\<rparr>"
  have "str_text ?s = [0x61, 0x2F, 0x2F, 0x62, 0x63]" "str_text ?d = [0x2F]" "str_wf ?s" "str_wf ?d"
    by (simp_all add: str_text_def str_wf_def)
  moreover have "filter (\<lambda>p. p \<noteq> []) (pieces [0x2F] [0x61, 0x2F, 0x2F, 0x62, 0x63 :: u8]) = [[0x61], [0x62, 0x63]]"
    by (simp add: pieces.simps next_occ_def upt_rec)
  ultimately show ?thesis using String_split_pieces [of ?s ?d] by auto
qed

text \<open>\<open>strip\<close> loses the last character: a string of blanks followed by one other character, in particular
  every string of one character, is stripped to the empty string. For the empty string the search from
  the end starts at index -1 and leaves the buffer.\<close>

lemma String_strip_loses_character:
  assumes "str_wf s" "str_text s = bs @ [c]" "\<forall>b \<in> set bs. is_blank b" "\<not> is_blank c"
  shows "String_strip s = Inr String_empty \<and> String_strip String_empty = Inl BadAccess"
proof -
  have len: "unat (str_len s) = Suc (length bs)" using length_str_text [OF assms(1)] assms(2) by simp
  have "strip_start s 0 = Inr (of_nat (length bs))" using strip_start_blanks [OF assms] by simp
  moreover have "str_len s - 1 = of_nat (length bs)"
    using len unat_sub_u32 [of 1 "str_len s"] unat_u32_bound [of "str_len s"]
    by (simp add: word_unat_eq_iff unat_of_nat del: unat_u32_bound)
  moreover have "strip_end s i i = Inr i" for i by (subst strip_end.simps) simp
  ultimately have "String_strip s = Inr String_empty" by (simp add: String_strip_def)
  moreover have "String_strip String_empty = Inl BadAccess"
    by (simp add: String_strip_def strip_start.simps strip_end.simps String_empty_def readAt_def word_less_nat_alt)
  ultimately show ?thesis by simp
qed

lemma String_strip_loses_character_witness:
  "String_strip \<lparr>str_len = 2, str_buffer = [0x20, 0x61, 0]\<rparr> = Inr String_empty"
  using String_strip_loses_character [of "\<lparr>str_len = 2, str_buffer = [0x20, 0x61, 0]\<rparr>" "[0x20]" "0x61"]
  by (simp add: str_wf_def str_text_def is_blank_def)

end
