(* ===== verification/Clocks.thy ===== *)
theory Clocks
  imports Queues Spinlocks
begin

text \<open>The clocks: \<open>TimeProvider\<close> (\<open>lib/time\<close>), the interval timer \<open>Pit\<close> and the real time clock \<open>Rtc\<close>
  (\<open>device/time\<close>) with the CMOS registers behind it (\<open>device/misc/Cmos.cpp\<close>). The registers of the CMOS
  chip are a map from register numbers to bytes; bytes written to the ports of the timer are returned.
  Registering a handler and unmasking an interrupt belong to \<open>plugin\<close> and are not modelled here.\<close>

unbundle bit_operations_syntax

section \<open>TimeProvider\<close>

record time =
  seconds :: u32
  fraction :: u32

definition Time_addNanos :: "time \<Rightarrow> u32 \<Rightarrow> time" where
  "Time_addNanos t value =
     (let t1 = t\<lparr>fraction := fraction t + value\<rparr>
      in if fraction t1 \<ge> 1000000000
         then t1\<lparr>fraction := fraction t1 - 1000000000, seconds := seconds t1 + 1\<rparr> else t1)"

text \<open>The argument is not used: the seconds are added to themselves.\<close>

definition Time_addSeconds :: "time \<Rightarrow> u32 \<Rightarrow> time" where
  "Time_addSeconds t value = t\<lparr>seconds := seconds t + seconds t\<rparr>"

definition Time_greater :: "time \<Rightarrow> time \<Rightarrow> bool" where
  "Time_greater t other \<longleftrightarrow> (if seconds t > seconds other then True
     else seconds t = seconds other \<and> fraction t > fraction other)"

definition Time_greater_eq :: "time \<Rightarrow> time \<Rightarrow> bool" where
  "Time_greater_eq t other \<longleftrightarrow> (if seconds t > seconds other then True
     else seconds t = seconds other \<and> fraction t \<ge> fraction other)"

definition Time_less :: "time \<Rightarrow> time \<Rightarrow> bool" where
  "Time_less t other \<longleftrightarrow> (if seconds t < seconds other then True
     else seconds t = seconds other \<and> fraction t < fraction other)"

definition Time_less_eq :: "time \<Rightarrow> time \<Rightarrow> bool" where
  "Time_less_eq t other \<longleftrightarrow> (if seconds t < seconds other then True
     else seconds t = seconds other \<and> fraction t \<le> fraction other)"

definition Time_toNanos :: "time \<Rightarrow> u32" where
  "Time_toNanos t = seconds t * 1000000000 + fraction t"

definition Time_toMicros :: "time \<Rightarrow> u32" where
  "Time_toMicros t = seconds t * 1000000 + fraction t div 1000"

definition Time_toMillis :: "time \<Rightarrow> u32" where
  "Time_toMillis t = seconds t * 1000 + fraction t div 1000000"

definition Time_toMinutes :: "time \<Rightarrow> u32" where
  "Time_toMinutes t = seconds t div 60"

definition Time_toHours :: "time \<Rightarrow> u32" where
  "Time_toHours t = seconds t div 3600"

definition Time_toDays :: "time \<Rightarrow> u32" where
  "Time_toDays t = seconds t div 86400"

definition Time_toYears :: "time \<Rightarrow> u32" where
  "Time_toYears t = seconds t div 31536000"

definition conversionMap :: "u32 list list" where
  "conversionMap =
     [[1, 1000, 1000000, 1000000000, 1, 1, 1, 1],
      [1000, 1, 1000, 1000000, 60000000, 3600000000, 1, 1],
      [1000000, 1000, 1, 1000, 60000, 3600000, 86400000, 1],
      [1000000000, 1000000, 1000, 1, 60, 3600, 864000, 31536000],
      [1, 60000000, 60000, 60, 1, 60, 1440, 525600],
      [1, 3600000000, 3600000, 3600, 60, 1, 24, 8760],
      [1, 1, 86400000, 864000, 1440, 24, 1, 365],
      [1, 1, 1, 31536000, 525600, 8760, 365, 1]]"

datatype time_unit = NANO | MICRO | MILLI | SECONDS | MINUTES | HOURS | DAYS | YEARS

fun unit_value :: "time_unit \<Rightarrow> u32" where
  "unit_value NANO = 1" | "unit_value MICRO = 2" | "unit_value MILLI = 3" | "unit_value SECONDS = 4"
| "unit_value MINUTES = 5" | "unit_value HOURS = 6" | "unit_value DAYS = 7" | "unit_value YEARS = 8"

text \<open>The units count from 1, the rows and columns of the table from 0.\<close>

definition TimeProvider_convert :: "u32 \<Rightarrow> time_unit \<Rightarrow> time_unit \<Rightarrow> u32 outcome" where
  "TimeProvider_convert value from to =
     (if from = to then Inr value
      else andThen (readAt conversionMap (unit_value from)) (\<lambda>row.
           andThen (readAt row (unit_value to)) (\<lambda>factor.
           Inr (if unit_value from > unit_value to then factor * value else value div factor))))"

section \<open>Pit\<close>

record pit =
  timerInterval :: u32
  pit_time :: time

abbreviation TIME_BASE :: u32 where "TIME_BASE \<equiv> 838"
abbreviation DEFAULT_TIMER_INTERVAL :: u32 where "DEFAULT_TIMER_INTERVAL \<equiv> 1000000"
abbreviation DEFAULT_YIELD_INTERVAL :: u32 where "DEFAULT_YIELD_INTERVAL \<equiv> 5000000"

definition Pit_new :: "u32 \<Rightarrow> pit" where
  "Pit_new interval = \<lparr>timerInterval = interval, pit_time = \<lparr>seconds = 0, fraction = 0\<rparr>\<rparr>"

text \<open>The second component lists the ports written with their values.\<close>

definition Pit_setInterval :: "pit \<Rightarrow> u32 \<Rightarrow> pit \<times> (u16 \<times> u8) list" where
  "Pit_setInterval p ns =
     (let divisor = ns div TIME_BASE
      in (p\<lparr>timerInterval := ns\<rparr>,
          [(0x43, 0x36), (0x40, ucast (divisor AND 0xff)), (0x40, ucast (drop_bit 8 divisor))]))"

definition Pit_getInterval :: "pit \<Rightarrow> u32" where
  "Pit_getInterval p = timerInterval p"

text \<open>The second component says whether the interrupt makes the running thread yield.\<close>

definition Pit_trigger :: "pit \<Rightarrow> pit \<times> bool" where
  "Pit_trigger p =
     (let p1 = p\<lparr>pit_time := Time_addNanos (pit_time p) (timerInterval p)\<rparr>
      in (p1, fraction (pit_time p1) mod DEFAULT_YIELD_INTERVAL = 0))"

section \<open>Cmos\<close>

type_synonym cmos = "u8 \<Rightarrow> u8"

definition Cmos_readRegister :: "cmos \<Rightarrow> u8 \<Rightarrow> u8" where
  "Cmos_readRegister c regNumber = c (regNumber AND 0x7f)"

definition Cmos_writeRegister :: "cmos \<Rightarrow> u8 \<Rightarrow> u8 \<Rightarrow> cmos" where
  "Cmos_writeRegister c regNumber value = c(regNumber AND 0x7f := value)"

definition Cmos_checkAvailability :: "cmos \<Rightarrow> cmos \<times> bool" where
  "Cmos_checkAvailability c =
     (let statusB = Cmos_readRegister c 0x0b XOR 0x03;
          c1 = Cmos_writeRegister c 0x0b statusB
      in if statusB = Cmos_readRegister c1 0x0b
         then (Cmos_writeRegister c1 0x0b (statusB XOR 0x03), True) else (c1, False))"

section \<open>Rtc\<close>

record date =
  date_seconds :: u8
  date_minutes :: u8
  date_hours :: u8
  date_dayOfMonth :: u8
  date_month :: u8
  date_year :: u16

record rtc_data =
  rd_seconds :: u8
  rd_minutes :: u8
  rd_hours :: u8
  rd_dayOfMonth :: u8
  rd_month :: u8
  rd_year :: u8
  rd_century :: u8

record rtc =
  rtc_date :: date
  rtc_lock :: u8
  rtc_buffer :: "rtc_data ring_buffer"
  useBcd :: bool
  useTwelveHours :: bool

abbreviation SECONDS_REGISTER :: u8 where "SECONDS_REGISTER \<equiv> 0x00"
abbreviation MINUTES_REGISTER :: u8 where "MINUTES_REGISTER \<equiv> 0x02"
abbreviation HOURS_REGISTER :: u8 where "HOURS_REGISTER \<equiv> 0x04"
abbreviation DAY_OF_MONTH_REGISTER :: u8 where "DAY_OF_MONTH_REGISTER \<equiv> 0x07"
abbreviation MONTH_REGISTER :: u8 where "MONTH_REGISTER \<equiv> 0x08"
abbreviation YEAR_REGISTER :: u8 where "YEAR_REGISTER \<equiv> 0x09"
abbreviation CENTURY_REGISTER :: u8 where "CENTURY_REGISTER \<equiv> 0x32"
abbreviation STATUS_REGISTER_A :: u8 where "STATUS_REGISTER_A \<equiv> 0x0A"
abbreviation STATUS_REGISTER_B :: u8 where "STATUS_REGISTER_B \<equiv> 0x0B"
abbreviation STATUS_REGISTER_C :: u8 where "STATUS_REGISTER_C \<equiv> 0x0C"
abbreviation CURRENT_CENTURY :: u8 where "CURRENT_CENTURY \<equiv> 20"

definition Rtc_new :: "cmos \<Rightarrow> date \<Rightarrow> rtc_data \<Rightarrow> rtc outcome" where
  "Rtc_new c d dflt =
     andThen (RingBuffer_new dflt 1024) (\<lambda>b.
     Inr \<lparr>rtc_date = d, rtc_lock = Spinlock_new, rtc_buffer = b,
          useBcd = (Cmos_readRegister c STATUS_REGISTER_B AND 0x04 = 0),
          useTwelveHours = (Cmos_readRegister c STATUS_REGISTER_B AND 0x02 = 0)\<rparr>)"

definition bcdToBinary :: "u8 \<Rightarrow> u8" where
  "bcdToBinary bcd = (bcd AND 0x0F) + (bcd div 16) * 10"

definition binaryToBcd :: "u8 \<Rightarrow> u8" where
  "binaryToBcd binary = (binary mod 10) + push_bit 4 (binary div 10)"

definition Rtc_trigger :: "rtc \<Rightarrow> cmos \<Rightarrow> rtc outcome" where
  "Rtc_trigger s c =
     (if Cmos_readRegister c STATUS_REGISTER_C AND 0x10 \<noteq> 0x10 then Inr s
      else andThen (RingBuffer_push (rtc_buffer s)
             \<lparr>rd_seconds = Cmos_readRegister c SECONDS_REGISTER, rd_minutes = Cmos_readRegister c MINUTES_REGISTER,
              rd_hours = Cmos_readRegister c HOURS_REGISTER, rd_dayOfMonth = Cmos_readRegister c DAY_OF_MONTH_REGISTER,
              rd_month = Cmos_readRegister c MONTH_REGISTER, rd_year = Cmos_readRegister c YEAR_REGISTER,
              rd_century = Cmos_readRegister c CENTURY_REGISTER\<rparr>) (\<lambda>b.
           Inr (s\<lparr>rtc_buffer := b\<rparr>)))"

definition Rtc_hasInterruptData :: "rtc \<Rightarrow> bool" where
  "Rtc_hasInterruptData s \<longleftrightarrow> \<not> RingBuffer_isEmpty (rtc_buffer s)"

text \<open>The date in one sample of the registers.\<close>

definition decode_date :: "bool \<Rightarrow> bool \<Rightarrow> rtc_data \<Rightarrow> date" where
  "decode_date bcd twelve d =
     (let century = (if rd_century d = 0 then CURRENT_CENTURY else rd_century d);
          dt = \<lparr>date_seconds = rd_seconds d, date_minutes = rd_minutes d, date_hours = rd_hours d,
                date_dayOfMonth = rd_dayOfMonth d, date_month = rd_month d, date_year = ucast (rd_year d)\<rparr>;
          dt1 = (if bcd then
                   \<lparr>date_seconds = bcdToBinary (date_seconds dt), date_minutes = bcdToBinary (date_minutes dt),
                    date_hours = bcdToBinary (date_hours dt) OR (date_hours dt AND 0x80),
                    date_dayOfMonth = bcdToBinary (date_dayOfMonth dt), date_month = bcdToBinary (date_month dt),
                    date_year = ucast (bcdToBinary (ucast (date_year dt)))\<rparr>
                 else dt);
          century1 = (if bcd then bcdToBinary century else century);
          dt2 = dt1\<lparr>date_year := date_year dt1 + ucast century1 * 100\<rparr>
      in if twelve \<and> date_hours dt2 AND 0x80 \<noteq> 0
         then dt2\<lparr>date_hours := ((date_hours dt2 AND 0x7F) + 12) mod 24\<rparr> else dt2)"

definition Rtc_parseInterruptData :: "rtc \<Rightarrow> rtc outcome" where
  "Rtc_parseInterruptData s =
     andThen (RingBuffer_pop (rtc_buffer s)) (\<lambda>(b, d).
     andThen (Spinlock_acquire (rtc_lock s)) (\<lambda>l.
     Inr (s\<lparr>rtc_buffer := b, rtc_date := decode_date (useBcd s) (useTwelveHours s) d,
            rtc_lock := Spinlock_release l\<rparr>)))"

definition Rtc_isUpdating :: "cmos \<Rightarrow> bool" where
  "Rtc_isUpdating c \<longleftrightarrow> Cmos_readRegister c STATUS_REGISTER_A AND 0x80 = 0x80"

definition Rtc_getCurrentDate :: "rtc \<Rightarrow> date" where
  "Rtc_getCurrentDate s = rtc_date s"

definition encode_date :: "bool \<Rightarrow> bool \<Rightarrow> date \<Rightarrow> rtc_data" where
  "encode_date bcd twelve date =
     (let century = (if date_year date < 100 then CURRENT_CENTURY else ucast (date_year date div 100));
          year = (if date_year date < 100 then date_year date else date_year date mod 100);
          hours = (if twelve then date_hours date mod 12 else date_hours date)
      in if bcd then
           \<lparr>rd_seconds = binaryToBcd (date_seconds date), rd_minutes = binaryToBcd (date_minutes date),
            rd_hours = binaryToBcd hours, rd_dayOfMonth = binaryToBcd (date_dayOfMonth date),
            rd_month = binaryToBcd (date_month date), rd_year = binaryToBcd (ucast year),
            rd_century = binaryToBcd century\<rparr>
         else
           \<lparr>rd_seconds = date_seconds date, rd_minutes = date_minutes date, rd_hours = hours,
            rd_dayOfMonth = date_dayOfMonth date, rd_month = date_month date, rd_year = ucast year,
            rd_century = century\<rparr>)"

definition Rtc_setHardwareDate :: "rtc \<Rightarrow> cmos \<Rightarrow> date \<Rightarrow> (rtc \<times> cmos) outcome" where
  "Rtc_setHardwareDate s c date =
     (let d = encode_date (useBcd s) (useTwelveHours s) date
      in andThen (Spinlock_acquire (rtc_lock s)) (\<lambda>l.
         if Rtc_isUpdating c then Inl Spins
         else let c1 = Cmos_writeRegister c SECONDS_REGISTER (rd_seconds d);
                  c2 = Cmos_writeRegister c1 MINUTES_REGISTER (rd_minutes d);
                  c3 = Cmos_writeRegister c2 HOURS_REGISTER (rd_hours d);
                  c4 = Cmos_writeRegister c3 DAY_OF_MONTH_REGISTER (rd_dayOfMonth d);
                  c5 = Cmos_writeRegister c4 MONTH_REGISTER (rd_month d);
                  c6 = Cmos_writeRegister c5 YEAR_REGISTER (rd_year d);
                  c7 = Cmos_writeRegister c6 CENTURY_REGISTER (rd_century d)
              in Inr (s\<lparr>rtc_lock := Spinlock_release l\<rparr>, c7)))"


section \<open>What the timer counts\<close>

definition time_ns :: "time \<Rightarrow> nat" where
  "time_ns t = unat (seconds t) * 1000000000 + unat (fraction t)"

lemma fraction_ns: "unat (fraction t) < 1000000000 \<Longrightarrow> unat (fraction t) = time_ns t mod 1000000000"
  by (simp add: time_ns_def)

lemma addNanos_ns:
  assumes "unat (fraction t) < 1000000000" "unat value \<le> 1000000000" "unat (seconds t) < 4294967295"
  shows "time_ns (Time_addNanos t value) = time_ns t + unat value"
    "unat (fraction (Time_addNanos t value)) < 1000000000"
proof -
  have f: "unat (fraction t + value) = unat (fraction t) + unat value" using assms by (intro unat_add_u32) simp
  have s: "unat (seconds t + 1) = Suc (unat (seconds t))" using assms(3) unat_add_u32 [of "seconds t" 1] by simp
  have g: "unat (fraction t + value - 1000000000) = unat (fraction t) + unat value - 1000000000"
    if "1000000000 \<le> fraction t + value"
    using that f unat_sub_u32 [of 1000000000 "fraction t + value"] by (simp add: word_le_nat_alt)
  show "time_ns (Time_addNanos t value) = time_ns t + unat value"
    "unat (fraction (Time_addNanos t value)) < 1000000000"
    using assms f s g by (auto simp: Time_addNanos_def Let_def time_ns_def word_le_nat_alt)
qed

primrec pit_ticks :: "nat \<Rightarrow> pit \<Rightarrow> pit \<times> bool" where
  "pit_ticks 0 p = (p, False)"
| "pit_ticks (Suc n) p = Pit_trigger (fst (pit_ticks n p))"

text \<open>With the default interval the clock is right for as long as 32 bits can count the seconds, and every
  fifth interrupt ends the time slice of the running thread.\<close>

lemma pit_ticks_time:
  assumes "n < 4294967295000"
  shows "timerInterval (fst (pit_ticks n (Pit_new DEFAULT_TIMER_INTERVAL))) = DEFAULT_TIMER_INTERVAL
    \<and> time_ns (pit_time (fst (pit_ticks n (Pit_new DEFAULT_TIMER_INTERVAL)))) = n * 1000000
    \<and> unat (fraction (pit_time (fst (pit_ticks n (Pit_new DEFAULT_TIMER_INTERVAL))))) < 1000000000"
  using assms
proof (induction n)
  case 0
  show ?case by (simp add: Pit_new_def time_ns_def)
next
  case (Suc n)
  let ?p = "fst (pit_ticks n (Pit_new DEFAULT_TIMER_INTERVAL))"
  have ih: "timerInterval ?p = DEFAULT_TIMER_INTERVAL" "time_ns (pit_time ?p) = n * 1000000"
    "unat (fraction (pit_time ?p)) < 1000000000" using Suc by simp_all
  then have "unat (seconds (pit_time ?p)) * 1000000000 \<le> n * 1000000" by (simp add: time_ns_def)
  then have "unat (seconds (pit_time ?p)) < 4294967295" using Suc.prems by simp
  then show ?case
    using addNanos_ns [OF ih(3), of DEFAULT_TIMER_INTERVAL] ih by (simp add: Pit_trigger_def Let_def)
qed

lemma pit_yields:
  assumes "0 < n" "n < 4294967295000"
  shows "snd (pit_ticks n (Pit_new DEFAULT_TIMER_INTERVAL)) \<longleftrightarrow> n mod 5 = 0"
proof -
  let ?t = "pit_time (fst (pit_ticks n (Pit_new DEFAULT_TIMER_INTERVAL)))"
  have f: "unat (fraction ?t) = (n * 1000000) mod 1000000000"
    using pit_ticks_time [OF assms(2)] fraction_ns by metis
  have "(n * 1000000) mod 1000000000 mod 5000000 = (n * 1000000) mod 5000000"
    by (simp add: mod_mod_cancel)
  also have "\<dots> = (n mod 5) * 1000000" using mult_mod_left [of n 5 1000000] by simp
  finally have "fraction ?t mod DEFAULT_YIELD_INTERVAL = 0 \<longleftrightarrow> n mod 5 = 0"
    using f by (simp add: word_unat_eq_iff unat_mod)
  then show ?thesis using assms(1) by (cases n) (simp_all add: Pit_trigger_def Let_def)
qed

section \<open>Dates\<close>

lemma bcd_small: "list_all (\<lambda>n. bcdToBinary (binaryToBcd (of_nat n)) = of_nat n) [0..<100]"
  by code_simp

lemma bcd_roundtrip: "b < 100 \<Longrightarrow> bcdToBinary (binaryToBcd b) = b"
proof -
  assume "b < 100"
  then have "unat b \<in> set [0..<100]" by (simp add: word_less_nat_alt)
  then have "bcdToBinary (binaryToBcd (of_nat (unat b))) = of_nat (unat b)" using bcd_small by (simp only: list_all_iff)
  then show ?thesis by simp
qed


definition date_ok :: "date \<Rightarrow> bool" where
  "date_ok d \<longleftrightarrow> date_seconds d < 60 \<and> date_minutes d < 60 \<and> date_hours d < 24
     \<and> date_dayOfMonth d < 32 \<and> date_month d < 13 \<and> 100 \<le> date_year d \<and> date_year d < 10000"

lemma year_parts:
  fixes y :: u16
  assumes "100 \<le> y" "y < 10000"
  shows "(ucast (y div 100) :: u8) < 100" "(ucast (y div 100) :: u8) \<noteq> 0" "(ucast (y mod 100) :: u8) < 100"
    "(ucast (ucast (y mod 100) :: u8) :: u16) + ucast (ucast (y div 100) :: u8) * 100 = y"
proof -
  have y: "100 \<le> unat y" "unat y < 10000" using assms by (simp_all add: word_le_nat_alt word_less_nat_alt)
  have q: "unat (ucast (y div 100) :: u8) = unat y div 100"
    using y by (simp add: unsigned_ucast_eq unat_div take_bit_nat_eq_self)
  have r: "unat (ucast (y mod 100) :: u8) = unat y mod 100"
    by (simp add: unsigned_ucast_eq unat_mod take_bit_nat_eq_self)
  show "(ucast (y div 100) :: u8) < 100" "(ucast (y div 100) :: u8) \<noteq> 0" "(ucast (y mod 100) :: u8) < 100"
    using q r y by (simp_all add: word_less_nat_alt word_unat_eq_iff)
  show "(ucast (ucast (y mod 100) :: u8) :: u16) + ucast (ucast (y div 100) :: u8) * 100 = y"
    using q r y by (simp add: word_unat_eq_iff unat_word_ariths unsigned_ucast_eq take_bit_eq_mod)
qed


lemma bcd_hours_small: "list_all (\<lambda>n. binaryToBcd (of_nat n) AND 0x80 = 0) [0..<24]"
  by code_simp

lemma bcd_hours: "h < 24 \<Longrightarrow> binaryToBcd h AND 0x80 = 0"
proof -
  assume "h < 24"
  then have "unat h \<in> set [0..<24]" by (simp add: word_less_nat_alt)
  then have "binaryToBcd (of_nat (unat h)) AND 0x80 = 0" using bcd_hours_small by (simp only: list_all_iff)
  then show ?thesis by simp
qed

lemma ucast_u8_u16: "(ucast (ucast (x :: u8) :: u16) :: u8) = x"
  by (rule bit_word_eqI) (simp add: bit_simps)

lemma decode_encode:
  assumes "date_ok d"
  shows "decode_date bcd False (encode_date bcd False d) = d"
proof -
  have y: "100 \<le> date_year d" "date_year d < 10000" using assms by (simp_all add: date_ok_def)
  note yp = year_parts [OF y]
  let ?c = "ucast (date_year d div 100) :: u8" and ?y = "ucast (date_year d mod 100) :: u8"
  have c: "binaryToBcd ?c \<noteq> 0"
  proof
    assume "binaryToBcd ?c = 0"
    then have "?c = bcdToBinary 0" using bcd_roundtrip [OF yp(1)] by simp
    then show False using yp(2) by (simp add: bcdToBinary_def)
  qed
  have small: "date_seconds d < 100" "date_minutes d < 100" "date_hours d < 100" "date_dayOfMonth d < 100"
    "date_month d < 100" "date_hours d < 24"
    using assms by (auto simp: date_ok_def word_less_nat_alt)
  have ny: "\<not> date_year d < 100" using y(1) by simp
  show ?thesis
  proof (cases bcd)
    case True
    then show ?thesis
      using small yp c ny by (simp add: decode_date_def encode_date_def Let_def bcd_roundtrip bcd_hours ucast_u8_u16)
  next
    case False
    then show ?thesis using yp ny by (simp add: decode_date_def encode_date_def Let_def)
  qed
qed

text \<open>In 12-hour mode with BCD numbers the flag of the afternoon is decoded as part of the hours: 1 p.m.
  becomes 21 o'clock.\<close>

lemma afternoon_wrong:
  "date_hours (decode_date True True \<lparr>rd_seconds = 0, rd_minutes = 0, rd_hours = 0x81, rd_dayOfMonth = 1,
     rd_month = 1, rd_year = 0x24, rd_century = 0x20\<rparr>) = 21"
  by code_simp

text \<open>Without a century register the default century 20 is taken for a BCD number, and the year is 1424.\<close>

lemma default_century_wrong:
  "date_year (decode_date True False \<lparr>rd_seconds = 0, rd_minutes = 0, rd_hours = 0, rd_dayOfMonth = 1,
     rd_month = 1, rd_year = 0x24, rd_century = 0\<rparr>) = 1424"
  by code_simp

text \<open>A second is converted to 60 milliseconds, and nothing can be converted from or to years.\<close>

lemma convert_off_by_one:
  "TimeProvider_convert 1 SECONDS MILLI = Inr 60" "TimeProvider_convert 1 YEARS DAYS = Inl BadAccess"
  "TimeProvider_convert 365 DAYS YEARS = Inl BadAccess"
  by code_simp+

section \<open>Properties\<close>

text \<open>C24. Setting the hardware date and reading it back on the next update interrupt gives the same date,
  with BCD and with binary registers, in 24-hour mode and for years from 100 to 9999; the lock is
  free again afterwards.\<close>

theorem rtc_date_roundtrip:
  assumes "date_ok d" "\<not> useTwelveHours s" "rtc_lock s = Spinlock_new" "rb_inv 1024 (rtc_buffer s)"
    and "rb_abs (rtc_buffer s) = []" "\<not> Rtc_isUpdating c" "Cmos_readRegister c STATUS_REGISTER_C AND 0x10 = 0x10"
  shows "\<exists>s1 c1 s2 s3. Rtc_setHardwareDate s c d = Inr (s1, c1) \<and> Rtc_trigger s1 c1 = Inr s2
    \<and> Rtc_hasInterruptData s2 \<and> Rtc_parseInterruptData s2 = Inr s3 \<and> Rtc_getCurrentDate s3 = d
    \<and> rtc_lock s3 = Spinlock_new \<and> rb_abs (rtc_buffer s3) = []"
proof -
  let ?d = "encode_date (useBcd s) False d"
  have set_date: "\<exists>c1. Rtc_setHardwareDate s c d = Inr (s, c1) \<and> Cmos_readRegister c1 STATUS_REGISTER_C AND 0x10 = 0x10
    \<and> \<lparr>rd_seconds = Cmos_readRegister c1 SECONDS_REGISTER, rd_minutes = Cmos_readRegister c1 MINUTES_REGISTER,
       rd_hours = Cmos_readRegister c1 HOURS_REGISTER, rd_dayOfMonth = Cmos_readRegister c1 DAY_OF_MONTH_REGISTER,
       rd_month = Cmos_readRegister c1 MONTH_REGISTER, rd_year = Cmos_readRegister c1 YEAR_REGISTER,
       rd_century = Cmos_readRegister c1 CENTURY_REGISTER\<rparr> = ?d"
    using assms by (simp add: Rtc_setHardwareDate_def Let_def acquire_release atomic_defs Cmos_writeRegister_def
        Cmos_readRegister_def)
  then obtain c1 where c1: "Rtc_setHardwareDate s c d = Inr (s, c1)" by blast
  obtain b where b: "RingBuffer_push (rtc_buffer s) ?d = Inr b" "rb_inv 1024 b" "rb_abs b = [?d]"
    using RingBuffer_push_abs [OF assms(4), of ?d] assms(5) by auto
  obtain b' where b': "RingBuffer_pop b = Inr (b', ?d)" "rb_abs b' = []"
    using RingBuffer_pop_abs [OF b(2)] b(3) by auto
  have t: "Rtc_trigger s c1 = Inr (s\<lparr>rtc_buffer := b\<rparr>)"
    using set_date c1 b(1) by (auto simp: Rtc_trigger_def)
  have "rb_size b \<noteq> 0" using b(3) by (auto simp: rb_abs_def)
  then have h: "Rtc_hasInterruptData (s\<lparr>rtc_buffer := b\<rparr>)" by (simp add: Rtc_hasInterruptData_def RingBuffer_isEmpty_def)
  have "Rtc_parseInterruptData (s\<lparr>rtc_buffer := b\<rparr>) =
      Inr (s\<lparr>rtc_buffer := b', rtc_date := d, rtc_lock := Spinlock_new\<rparr>)"
    using b' assms(2,3) decode_encode [OF assms(1)]
    by (simp add: Rtc_parseInterruptData_def acquire_release)
  then show ?thesis using c1 t h b'(2) by (auto simp: Rtc_getCurrentDate_def)
qed


definition demo_rtc :: "rtc" where
  "demo_rtc = \<lparr>rtc_date = \<lparr>date_seconds = 0, date_minutes = 0, date_hours = 0, date_dayOfMonth = 0, date_month = 0,
       date_year = 0\<rparr>, rtc_lock = Spinlock_new,
     rtc_buffer = \<lparr>rb_buffer = Array_new \<lparr>rd_seconds = 0, rd_minutes = 0, rd_hours = 0, rd_dayOfMonth = 0,
       rd_month = 0, rd_year = 0, rd_century = 0\<rparr> 1024, rb_capacity = 1024, rb_readIndex = 0,
       rb_writeIndex = 0, rb_size = 0\<rparr>, useBcd = True, useTwelveHours = False\<rparr>"

theorem rtc_date_roundtrip_witness:
  "\<exists>s1 c1 s2 s3. Rtc_setHardwareDate demo_rtc (\<lambda>r. if r = STATUS_REGISTER_C then 0x10 else 0)
      \<lparr>date_seconds = 59, date_minutes = 30, date_hours = 23, date_dayOfMonth = 31, date_month = 12, date_year = 1999\<rparr>
      = Inr (s1, c1)
    \<and> Rtc_trigger s1 c1 = Inr s2 \<and> Rtc_parseInterruptData s2 = Inr s3
    \<and> Rtc_getCurrentDate s3 = \<lparr>date_seconds = 59, date_minutes = 30, date_hours = 23, date_dayOfMonth = 31,
        date_month = 12, date_year = 1999\<rparr>"
proof -
  let ?d = "\<lparr>date_seconds = 59, date_minutes = 30, date_hours = 23, date_dayOfMonth = 31, date_month = 12, date_year = 1999\<rparr>"
  let ?c = "\<lambda>r :: u8. if r = STATUS_REGISTER_C then 0x10 else (0 :: u8)"
  have "date_ok ?d" by (simp add: date_ok_def word_less_nat_alt word_le_nat_alt)
  moreover have "rb_inv 1024 (rtc_buffer demo_rtc)" "rb_abs (rtc_buffer demo_rtc) = []" "\<not> useTwelveHours demo_rtc"
    "rtc_lock demo_rtc = Spinlock_new"
    by (simp_all add: demo_rtc_def rb_inv_def rb_abs_def Array_new_def array_wf_def)
  moreover have "\<not> Rtc_isUpdating ?c" "Cmos_readRegister ?c STATUS_REGISTER_C AND 0x10 = 0x10"
    by (simp_all add: Rtc_isUpdating_def Cmos_readRegister_def)
  ultimately show ?thesis using rtc_date_roundtrip [of ?d demo_rtc ?c] by metis
qed

end
