(* ===== verification/Listener_Lists.thy ===== *)
theory Listener_Lists
  imports Hash_Maps
begin

text \<open>A \<open>HashMap\<close> from keys to pointers to \<open>ArrayList\<close>s, as \<open>InterruptDispatcher\<close> keeps its handlers and
  \<open>EventBus\<close> its publishers. \<open>new\<close> takes an address that was never used; an access through a pointer that
  is not in the store is \<open>BadAccess\<close>.\<close>

section \<open>State and operations\<close>

record ('k, 'a) list_map =
  lm_map :: "('k, nat) hash_map"
  lm_store :: "nat \<rightharpoonup> 'a array_list"
  lm_next :: nat

definition ListMap_new :: "('k, 'a) list_map" where
  "ListMap_new = \<lparr>lm_map = HashMap_default, lm_store = Map.empty, lm_next = 0\<rparr>"

definition list_at :: "('k, 'a) list_map \<Rightarrow> nat \<Rightarrow> 'a array_list outcome" where
  "list_at m p = (case lm_store m p of None \<Rightarrow> Inl BadAccess | Some l \<Rightarrow> Inr l)"

text \<open>The list of a key, put into the map if it is not there yet.\<close>

definition ListMap_ensure :: "('k \<Rightarrow> u32) \<Rightarrow> ('k, 'a) list_map \<Rightarrow> 'k \<Rightarrow> ('k, 'a) list_map outcome" where
  "ListMap_ensure hash m key =
     andThen (HashMap_containsKey hash (lm_map m) key) (\<lambda>found.
     if found then Inr m
     else andThen (HashMap_put hash (lm_map m) key (lm_next m)) (\<lambda>t.
          Inr (m\<lparr>lm_map := t, lm_store := (lm_store m)(lm_next m \<mapsto> ArrayList_empty), lm_next := lm_next m + 1\<rparr>)))"

definition ListMap_add :: "('k \<Rightarrow> u32) \<Rightarrow> 'a \<Rightarrow> ('k, 'a) list_map \<Rightarrow> 'k \<Rightarrow> 'a \<Rightarrow> ('k, 'a) list_map outcome" where
  "ListMap_add hash dflt m key x =
     andThen (ListMap_ensure hash m key) (\<lambda>m.
     andThen (HashMap_get hash (lm_map m) key) (\<lambda>(t, p).
     andThen (list_at m p) (\<lambda>l.
     andThen (ArrayList_add dflt l x) (\<lambda>l'.
     Inr (m\<lparr>lm_map := t, lm_store := (lm_store m)(p \<mapsto> l')\<rparr>)))))"

definition ListMap_find :: "('k \<Rightarrow> u32) \<Rightarrow> ('k, 'a) list_map \<Rightarrow> 'k \<Rightarrow> (('k, 'a) list_map \<times> nat option) outcome" where
  "ListMap_find hash m key =
     andThen (HashMap_containsKey hash (lm_map m) key) (\<lambda>found.
     if \<not> found then Inr (m, None)
     else andThen (HashMap_get hash (lm_map m) key) (\<lambda>(t, p). Inr (m\<lparr>lm_map := t\<rparr>, Some p)))"

text \<open>Remove an element from the list of a key and drop an empty list from the map; the list object itself is not deleted.\<close>

definition ListMap_remove :: "('k \<Rightarrow> u32) \<Rightarrow> ('k, 'a) list_map \<Rightarrow> 'k \<Rightarrow> 'a \<Rightarrow> ('k, 'a) list_map outcome" where
  "ListMap_remove hash m key x =
     andThen (HashMap_get hash (lm_map m) key) (\<lambda>(t, p).
     andThen (list_at m p) (\<lambda>l.
     andThen (ArrayList_remove l x) (\<lambda>(l', removed).
     let m1 = m\<lparr>lm_map := t, lm_store := (lm_store m)(p \<mapsto> l')\<rparr>
     in andThen (HashMap_get hash (lm_map m1) key) (\<lambda>(t1, p1).
        andThen (list_at m1 p1) (\<lambda>l1.
        if ArrayList_isEmpty l1
        then andThen (HashMap_remove hash t1 key) (\<lambda>(t2, v). Inr (m1\<lparr>lm_map := t2\<rparr>))
        else Inr (m1\<lparr>lm_map := t1\<rparr>))))))"

section \<open>The lists a state stands for\<close>

definition lm_abs :: "('k \<Rightarrow> u32) \<Rightarrow> ('k, 'a) list_map \<Rightarrow> 'k \<Rightarrow> 'a list" where
  "lm_abs hash m k =
     (case hm_abs hash (lm_map m) k of None \<Rightarrow> []
      | Some p \<Rightarrow> (case lm_store m p of None \<Rightarrow> [] | Some l \<Rightarrow> al_abs l))"

text \<open>Every key has a list of its own, and a key in the map has at least one element.\<close>

definition lm_inv :: "('k \<Rightarrow> u32) \<Rightarrow> ('k, 'a) list_map \<Rightarrow> bool" where
  "lm_inv hash m \<longleftrightarrow> hm_inv hash (lm_map m) \<and> inj_on (hm_abs hash (lm_map m)) (dom (hm_abs hash (lm_map m)))
     \<and> (\<forall>k p. hm_abs hash (lm_map m) k = Some p \<longrightarrow>
          p < lm_next m \<and> (\<exists>l. lm_store m p = Some l \<and> al_wf l \<and> al_abs l \<noteq> []))"

lemma lm_inv_new [simp]: "lm_inv hash ListMap_new" "lm_abs hash ListMap_new = (\<lambda>k. [])"
  by (simp_all add: lm_inv_def lm_abs_def ListMap_new_def HashMap_default_def hm_inv_new fun_eq_iff)

lemma lm_inv_cases:
  assumes "lm_inv hash m"
  obtains (absent) "hm_abs hash (lm_map m) k = None" "lm_abs hash m k = []"
  | (present) p l where "hm_abs hash (lm_map m) k = Some p" "lm_store m p = Some l" "al_wf l" "p < lm_next m"
      "al_abs l \<noteq> []" "lm_abs hash m k = al_abs l"
  using assms by (cases "hm_abs hash (lm_map m) k") (fastforce simp: lm_inv_def lm_abs_def)+

text \<open>Writing the list behind a pointer changes the list of that key only.\<close>

lemma lm_write:
  assumes I: "hm_inv hash t" "inj_on (hm_abs hash t) (dom (hm_abs hash t))"
    and P: "\<And>j q. hm_abs hash t j = Some q \<Longrightarrow> j \<noteq> k
              \<Longrightarrow> q < n \<and> (\<exists>l. s q = Some l \<and> al_wf l \<and> al_abs l \<noteq> [])"
    and k: "hm_abs hash t k = Some p" "p < n" and l: "al_wf l" "al_abs l \<noteq> []"
  shows "lm_inv hash \<lparr>lm_map = t, lm_store = s(p \<mapsto> l), lm_next = n\<rparr>" (is "lm_inv hash ?m")
    and "lm_abs hash \<lparr>lm_map = t, lm_store = s(p \<mapsto> l), lm_next = n\<rparr> =
           (lm_abs hash \<lparr>lm_map = t, lm_store = s, lm_next = n\<rparr>)(k := al_abs l)"
proof -
  have other: "q \<noteq> p" if "hm_abs hash t j = Some q" "j \<noteq> k" for j q
    using that k I(2) by (auto simp: inj_on_def dom_def)
  show "lm_inv hash ?m" unfolding lm_inv_def
  proof (intro conjI allI impI)
    fix j q assume a: "hm_abs hash (lm_map ?m) j = Some q"
    have "q < n \<and> (\<exists>l'. (s(p \<mapsto> l)) q = Some l' \<and> al_wf l' \<and> al_abs l' \<noteq> [])"
    proof (cases "j = k")
      case True then show ?thesis using a k l by auto
    next
      case False then show ?thesis using a P [of j q] other [of j q] by auto
    qed
    then show "q < lm_next ?m" "\<exists>l'. lm_store ?m q = Some l' \<and> al_wf l' \<and> al_abs l' \<noteq> []" by auto
  qed (use I in simp_all)
  show "lm_abs hash \<lparr>lm_map = t, lm_store = s(p \<mapsto> l), lm_next = n\<rparr> =
           (lm_abs hash \<lparr>lm_map = t, lm_store = s, lm_next = n\<rparr>)(k := al_abs l)"
  proof (rule ext)
    fix j
    show "lm_abs hash \<lparr>lm_map = t, lm_store = s(p \<mapsto> l), lm_next = n\<rparr> j =
           ((lm_abs hash \<lparr>lm_map = t, lm_store = s, lm_next = n\<rparr>)(k := al_abs l)) j"
      using k other by (cases "hm_abs hash t j") (auto simp: lm_abs_def)
  qed
qed

text \<open>Adding appends to the list of the key and leaves every other list alone.\<close>

lemma ListMap_add_abs:
  assumes I: "lm_inv hash m" and len: "length (lm_abs hash m key) < 2147483648"
  shows "\<exists>m'. ListMap_add hash dflt m key x = Inr m' \<and> lm_inv hash m'
           \<and> lm_abs hash m' = (lm_abs hash m)(key := lm_abs hash m key @ [x])"
proof -
  have h: "hm_inv hash (lm_map m)" using I by (simp add: lm_inv_def)
  obtain m1 p l where m1: "ListMap_ensure hash m key = Inr m1" "hm_inv hash (lm_map m1)"
      "inj_on (hm_abs hash (lm_map m1)) (dom (hm_abs hash (lm_map m1)))"
      "\<And>j q. hm_abs hash (lm_map m1) j = Some q \<Longrightarrow> j \<noteq> key
          \<Longrightarrow> q < lm_next m1 \<and> (\<exists>l. lm_store m1 q = Some l \<and> al_wf l \<and> al_abs l \<noteq> [])"
      "hm_abs hash (lm_map m1) key = Some p" "p < lm_next m1" "lm_store m1 p = Some l" "al_wf l"
      "al_abs l = lm_abs hash m key" "lm_abs hash m1 = lm_abs hash m"
    using I
  proof (cases rule: lm_inv_cases [of hash m key])
    case (present p l)
    then show ?thesis using that [of m p l] I h hmap.contains_lookup [OF h, of key]
      by (auto simp: ListMap_ensure_def lm_inv_def)
  next
    case absent
    obtain t where t: "HashMap_put hash (lm_map m) key (lm_next m) = Inr t" "hm_inv hash t"
        "hm_abs hash t = (hm_abs hash (lm_map m))(key \<mapsto> lm_next m)"
      using hmap.put_lookup [OF h] by blast
    let ?m = "m\<lparr>lm_map := t, lm_store := (lm_store m)(lm_next m \<mapsto> ArrayList_empty), lm_next := lm_next m + 1\<rparr>"
    have old: "q < lm_next m" "\<exists>l. lm_store m q = Some l \<and> al_wf l \<and> al_abs l \<noteq> []"
      if "hm_abs hash (lm_map m) j = Some q" for j q using that I by (auto simp: lm_inv_def)
    have "inj_on (hm_abs hash t) (dom (hm_abs hash t))"
    proof (rule inj_onI)
      fix i j assume "i \<in> dom (hm_abs hash t)" "j \<in> dom (hm_abs hash t)" "hm_abs hash t i = hm_abs hash t j"
      then show "i = j" using t(3) I old(1) by (auto simp: lm_inv_def inj_on_def dom_def split: if_splits)
    qed
    moreover have "q < lm_next m + 1 \<and> (\<exists>l. ((lm_store m)(lm_next m \<mapsto> ArrayList_empty)) q = Some l \<and> al_wf l \<and> al_abs l \<noteq> [])"
      if "hm_abs hash t j = Some q" "j \<noteq> key" for j q using that t(3) old [of j q] by auto
    moreover have "lm_abs hash ?m j = lm_abs hash m j" for j
    proof (cases "j = key")
      case True then show ?thesis using t(3) absent by (simp add: lm_abs_def)
    next
      case False then show ?thesis using t(3) old(1) [of j]
        by (cases "hm_abs hash (lm_map m) j") (auto simp: lm_abs_def)
    qed
    moreover have "ListMap_ensure hash m key = Inr ?m"
      using t(1) hmap.contains_lookup [OF h, of key] absent by (simp add: ListMap_ensure_def)
    ultimately show ?thesis using that [of ?m "lm_next m" ArrayList_empty] t absent by (simp add: fun_eq_iff)
  qed
  obtain t where t: "HashMap_get hash (lm_map m1) key = Inr (t, p)" "hm_inv hash t"
      "hm_abs hash t = hm_abs hash (lm_map m1)"
    using hmap.get_lookup [OF m1(2,5)] by blast
  obtain l' where l': "ArrayList_add dflt l x = Inr l'" "al_wf l'" "al_abs l' = al_abs l @ [x]"
    using ArrayList_add_abs [OF m1(8)] len m1(9) by metis
  let ?m = "m1\<lparr>lm_map := t, lm_store := (lm_store m1)(p \<mapsto> l')\<rparr>"
  have eq: "?m = \<lparr>lm_map = t, lm_store = (lm_store m1)(p \<mapsto> l'), lm_next = lm_next m1\<rparr>" by simp
  have "lm_abs hash \<lparr>lm_map = t, lm_store = lm_store m1, lm_next = lm_next m1\<rparr> = lm_abs hash m1"
    by (rule ext) (simp add: lm_abs_def t(3) cong: option.case_cong)
  moreover note lm_write [of hash t key "lm_next m1" "lm_store m1" p l'] t m1 l'
  ultimately have "lm_inv hash ?m" "lm_abs hash ?m = (lm_abs hash m)(key := lm_abs hash m key @ [x])"
    unfolding eq by simp_all
  moreover have "ListMap_add hash dflt m key x = Inr ?m"
    using m1(1,7) t(1) l'(1) by (simp add: ListMap_add_def list_at_def)
  ultimately show ?thesis by blast
qed

text \<open>\<open>ListMap_find\<close> yields a pointer to the list of a key, or none when the list is empty.\<close>

lemma ListMap_find_abs:
  assumes "lm_inv hash m"
  shows "\<exists>t. hm_abs hash t = hm_abs hash (lm_map m) \<and> lm_inv hash (m\<lparr>lm_map := t\<rparr>)
    \<and> lm_abs hash (m\<lparr>lm_map := t\<rparr>) = lm_abs hash m
    \<and> (if lm_abs hash m key = [] then ListMap_find hash m key = Inr (m\<lparr>lm_map := t\<rparr>, None)
       else \<exists>p l. ListMap_find hash m key = Inr (m\<lparr>lm_map := t\<rparr>, Some p)
              \<and> list_at (m\<lparr>lm_map := t\<rparr>) p = Inr l \<and> al_wf l \<and> al_abs l = lm_abs hash m key)"
proof -
  have h: "hm_inv hash (lm_map m)" using assms by (simp add: lm_inv_def)
  have c: "HashMap_containsKey hash (lm_map m) key = Inr (hm_abs hash (lm_map m) key \<noteq> None)"
    using hmap.contains_lookup [OF h] .
  show ?thesis using assms
  proof (cases rule: lm_inv_cases [of hash m key])
    case absent
    then show ?thesis using c assms by (intro exI [of _ "lm_map m"]) (simp add: ListMap_find_def)
  next
    case (present p l)
    obtain t where t: "HashMap_get hash (lm_map m) key = Inr (t, p)" "hm_inv hash t"
        "hm_abs hash t = hm_abs hash (lm_map m)"
      using hmap.get_lookup [OF h present(1)] by blast
    moreover have "lm_inv hash (m\<lparr>lm_map := t\<rparr>)" using assms t by (simp add: lm_inv_def)
    moreover have "lm_abs hash (m\<lparr>lm_map := t\<rparr>) = lm_abs hash m"
      by (rule ext) (simp add: lm_abs_def t(3) cong: option.case_cong)
    ultimately show ?thesis using c present by (intro exI [of _ t]) (simp add: ListMap_find_def list_at_def)
  qed
qed

text \<open>Removing a member takes it out of the list of its key.\<close>

lemma ListMap_remove_abs:
  assumes I: "lm_inv hash m" and x: "x \<in> set (lm_abs hash m key)"
  shows "\<exists>m'. ListMap_remove hash m key x = Inr m' \<and> lm_inv hash m'
           \<and> lm_abs hash m' = (lm_abs hash m)(key := remove1 x (lm_abs hash m key))"
proof -
  have h: "hm_inv hash (lm_map m)" "inj_on (hm_abs hash (lm_map m)) (dom (hm_abs hash (lm_map m)))"
    and old: "\<And>j q. hm_abs hash (lm_map m) j = Some q
      \<Longrightarrow> q < lm_next m \<and> (\<exists>l. lm_store m q = Some l \<and> al_wf l \<and> al_abs l \<noteq> [])"
    using I by (auto simp: lm_inv_def)
  from I x obtain p l where l: "hm_abs hash (lm_map m) key = Some p" "lm_store m p = Some l" "al_wf l"
      "p < lm_next m" "lm_abs hash m key = al_abs l"
    by (cases rule: lm_inv_cases [of hash m key]) auto
  obtain t where t: "HashMap_get hash (lm_map m) key = Inr (t, p)" "hm_inv hash t"
      "hm_abs hash t = hm_abs hash (lm_map m)"
    using hmap.get_lookup [OF h(1) l(1)] by blast
  then obtain t1 where t1: "HashMap_get hash t key = Inr (t1, p)" "hm_inv hash t1"
      "hm_abs hash t1 = hm_abs hash (lm_map m)"
    using hmap.get_lookup [OF t(2), of key p] l(1) by auto
  obtain l' where l': "ArrayList_remove l x = Inr (l', True)" "al_wf l'" "al_abs l' = remove1 x (al_abs l)"
    using ArrayList_remove_member [OF l(3)] x l(5) by auto
  have empty: "ArrayList_isEmpty l' \<longleftrightarrow> remove1 x (al_abs l) = []"
    using l'(3) length_al_abs [OF l'(2)] by (simp add: ArrayList_isEmpty_def u32_eq_iff flip: length_0_conv)
  show ?thesis
  proof (cases "remove1 x (al_abs l) = []")
    case False
    let ?m = "\<lparr>lm_map = t1, lm_store = (lm_store m)(p \<mapsto> l'), lm_next = lm_next m\<rparr>"
    have "lm_abs hash \<lparr>lm_map = t1, lm_store = lm_store m, lm_next = lm_next m\<rparr> = lm_abs hash m"
      by (rule ext) (simp add: lm_abs_def t1(3) cong: option.case_cong)
    moreover note lm_write [of hash t1 key "lm_next m" "lm_store m" p l'] t1 h old l l' False
    ultimately have "lm_inv hash ?m" "lm_abs hash ?m = (lm_abs hash m)(key := remove1 x (lm_abs hash m key))"
      by simp_all
    moreover have "ListMap_remove hash m key x = Inr ?m"
      using t(1) t1(1) l(2) l'(1) empty False by (simp add: ListMap_remove_def list_at_def Let_def)
    ultimately show ?thesis by blast
  next
    case True
    obtain t2 where t2: "HashMap_remove hash t1 key = Inr (t2, p)" "hm_inv hash t2"
        "hm_abs hash t2 = (hm_abs hash (lm_map m))(key := None)"
      using hmap.remove_lookup [OF t1(2), of key p] t1(3) l(1) by auto
    let ?m = "\<lparr>lm_map = t2, lm_store = (lm_store m)(p \<mapsto> l'), lm_next = lm_next m\<rparr>"
    have other: "q \<noteq> p" if "hm_abs hash (lm_map m) j = Some q" "j \<noteq> key" for j q
      using that l(1) h(2) by (auto simp: inj_on_def dom_def)
    have "inj_on (hm_abs hash t2) (dom (hm_abs hash t2))" using h(2) by (auto simp: t2(3) inj_on_def dom_def)
    then have "lm_inv hash ?m" using t2(2,3) old other by (auto simp: lm_inv_def split: if_splits)
    moreover have "lm_abs hash ?m j = ((lm_abs hash m)(key := remove1 x (lm_abs hash m key))) j" for j
      using other [of j] True l(5) t2(3) by (cases "hm_abs hash (lm_map m) j") (auto simp: lm_abs_def)
    moreover have "ListMap_remove hash m key x = Inr ?m"
      using t(1) t1(1) t2(1) l(2) l'(1) empty True by (simp add: ListMap_remove_def list_at_def Let_def)
    ultimately show ?thesis by (intro exI [of _ ?m]) (simp add: fun_eq_iff)
  qed
qed

end
