(* ===== verification/Keyboards.thy ===== *)
theory Keyboards
  imports Queues
begin

text \<open>The keyboard driver (\<open>device/input/Keyboard.cpp\<close>) and \<open>Key\<close>: scan codes from the interrupt handler
  go through a ring buffer and are decoded into key events. What the controller answers is an argument:
  \<open>control\<close> and \<open>data\<close> are the bytes read from its ports, \<open>acks\<close> says whether it acknowledges the command for
  the lights. Waiting for the controller always ends. Tables are accessed with their bounds.\<close>

unbundle bit_operations_syntax

section \<open>Key\<close>

record key =
  asc :: u8
  scan :: u8
  modi :: u8
  pressed :: bool

definition Key_new :: key where
  "Key_new = \<lparr>asc = 0, scan = 0, modi = 0, pressed = False\<rparr>"

definition Key_valid :: "key \<Rightarrow> bool" where
  "Key_valid k \<longleftrightarrow> scan k \<noteq> 0"

definition Key_isPressed :: "key \<Rightarrow> bool" where
  "Key_isPressed k = pressed k"

definition Key_setPressed :: "key \<Rightarrow> bool \<Rightarrow> key" where
  "Key_setPressed k value = k\<lparr>pressed := value\<rparr>"

definition Key_invalidate :: "key \<Rightarrow> key" where
  "Key_invalidate k = k\<lparr>scan := 0\<rparr>"

definition Key_set_ascii :: "key \<Rightarrow> u8 \<Rightarrow> key" where
  "Key_set_ascii k a = k\<lparr>asc := a\<rparr>"

definition Key_set_scancode :: "key \<Rightarrow> u8 \<Rightarrow> key" where
  "Key_set_scancode k s = k\<lparr>scan := s\<rparr>"

definition Key_ascii :: "key \<Rightarrow> u8" where
  "Key_ascii k = asc k"

definition Key_scancode :: "key \<Rightarrow> u8" where
  "Key_scancode k = scan k"

datatype modifier = SHIFT | ALT_LEFT | ALT_RIGHT | CTRL_LEFT | CTRL_RIGHT | CAPS_LOCK | NUM_LOCK | SCROLL_LOCK

fun mbit :: "modifier \<Rightarrow> u8" where
  "mbit SHIFT = 1" | "mbit ALT_LEFT = 2" | "mbit ALT_RIGHT = 4" | "mbit CTRL_LEFT = 8"
| "mbit CTRL_RIGHT = 16" | "mbit CAPS_LOCK = 32" | "mbit NUM_LOCK = 64" | "mbit SCROLL_LOCK = 128"

text \<open>The eight setters and the eight getters.\<close>

definition Key_set_modifier :: "modifier \<Rightarrow> key \<Rightarrow> bool \<Rightarrow> key" where
  "Key_set_modifier m k p = k\<lparr>modi := (if p then modi k OR mbit m else modi k AND NOT (mbit m))\<rparr>"

definition Key_modifier :: "modifier \<Rightarrow> key \<Rightarrow> bool" where
  "Key_modifier m k \<longleftrightarrow> modi k AND mbit m \<noteq> 0"

definition Key_alt :: "key \<Rightarrow> bool" where
  "Key_alt k \<longleftrightarrow> Key_modifier ALT_LEFT k \<or> Key_modifier ALT_RIGHT k"

definition Key_ctrl :: "key \<Rightarrow> bool" where
  "Key_ctrl k \<longleftrightarrow> Key_modifier CTRL_LEFT k \<or> Key_modifier CTRL_RIGHT k"

section \<open>Tables\<close>

definition normal_tab :: "u8 list" where
  "normal_tab =
    [0, 0, 0x31, 0x32, 0x33, 0x34, 0x35, 0x36, 0x37, 0x38, 0x39, 0x30, 225, 39, 0x08,
     0, 0x71, 0x77, 0x65, 0x72, 0x74, 0x7A, 0x75, 0x69, 0x6F, 0x70, 129, 0x2B, 0x0A,
     0, 0x61, 0x73, 0x64, 0x66, 0x67, 0x68, 0x6A, 0x6B, 0x6C, 148, 132, 0x5E, 0, 0x23,
     0x79, 0x78, 0x63, 0x76, 0x62, 0x6E, 0x6D, 0x2C, 0x2E, 0x2D, 0,
     0x2A, 0, 0x20, 0, 0, 0, 0, 0, 0, 0, 0, 0, 0, 0, 0, 0, 0, 0, 0, 0x2D,
     0, 0, 0, 0x2B, 0, 0, 0, 0, 0, 0, 0, 0x3C, 0, 0]"

definition shift_tab :: "u8 list" where
  "shift_tab =
    [0, 0, 0x21, 0x22, 21, 0x24, 0x25, 0x26, 0x2F, 0x28, 0x29, 0x3D, 0x3F, 96, 0,
     0, 0x51, 0x57, 0x45, 0x52, 0x54, 0x5A, 0x55, 0x49, 0x4F, 0x50, 154, 0x2A, 0,
     0, 0x41, 0x53, 0x44, 0x46, 0x47, 0x48, 0x4A, 0x4B, 0x4C, 153, 142, 248, 0, 39,
     0x59, 0x58, 0x43, 0x56, 0x42, 0x4E, 0x4D, 0x3B, 0x3A, 0x5F, 0,
     0, 0, 0x20, 0, 0, 0, 0, 0, 0, 0, 0, 0, 0, 0, 0, 0, 0, 0, 0, 0,
     0, 0, 0, 0, 0, 0, 0, 0, 0, 0, 0, 0x3E, 0, 0]"

definition alt_tab :: "u8 list" where
  "alt_tab =
    [0, 0, 0, 253, 0, 0, 0, 0, 0x7B, 0x5B, 0x5D, 0x7D, 0x5C, 0, 0,
     0, 0x40, 0, 0, 0, 0, 0, 0, 0, 0, 0, 0, 0x7E, 0,
     0, 0, 0, 0, 0, 0, 0, 0, 0, 0, 0, 0, 0, 0, 0,
     0, 0, 0, 0, 0, 0, 230, 0, 0, 0, 0,
     0, 0, 0, 0, 0, 0, 0, 0, 0, 0, 0, 0, 0, 0, 0, 0, 0, 0, 0, 0,
     0, 0, 0, 0, 0, 0, 0, 0, 0, 0, 0, 0x7C, 0, 0]"

definition asc_num_tab :: "u8 list" where
  "asc_num_tab = [0x37, 0x38, 0x39, 0x2D, 0x34, 0x35, 0x36, 0x2B, 0x31, 0x32, 0x33, 0x30, 0x2C]"

definition scan_num_tab :: "u8 list" where
  "scan_num_tab = [8, 9, 10, 53, 5, 6, 7, 27, 2, 3, 4, 11, 51]"

section \<open>Keyboard\<close>

record keyboard =
  prefix_code :: u8
  gather :: key
  leds :: u8
  keysPressed :: u32
  kb_buffer :: "u32 list"
  interruptDataBuffer :: "u8 ring_buffer"

abbreviation break_bit :: u8 where "break_bit \<equiv> 0x80"
abbreviation prefix1 :: u8 where "prefix1 \<equiv> 0xe0"
abbreviation prefix2 :: u8 where "prefix2 \<equiv> 0xe1"

definition Keyboard_getKeysPressed :: "keyboard \<Rightarrow> u32" where
  "Keyboard_getKeysPressed k = keysPressed k"

definition Keyboard_isKeyPressed :: "keyboard \<Rightarrow> u32 \<Rightarrow> bool" where
  "Keyboard_isKeyPressed k scancode = list_ex (\<lambda>i. i = scancode) (kb_buffer k)"

text \<open>Overwrite the first entry with the value \<open>x\<close>, if there is one.\<close>

fun replace_first :: "u32 \<Rightarrow> u32 \<Rightarrow> u32 list \<Rightarrow> u32 list \<times> bool" where
  "replace_first x y [] = ([], False)"
| "replace_first x y (i # is) =
     (if i = x then (y # is, True) else let (is', found) = replace_first x y is in (i # is', found))"

definition Keyboard_addToBuffer :: "keyboard \<Rightarrow> u32 \<Rightarrow> keyboard" where
  "Keyboard_addToBuffer k scancode =
     (if Keyboard_isKeyPressed k scancode then k
      else let (b, found) = replace_first 0 scancode (kb_buffer k)
           in k\<lparr>kb_buffer := b, keysPressed := (if found then keysPressed k + 1 else keysPressed k)\<rparr>)"

definition Keyboard_removeFromBuffer :: "keyboard \<Rightarrow> u32 \<Rightarrow> keyboard" where
  "Keyboard_removeFromBuffer k scancode =
     (let (b, found) = replace_first scancode 0 (kb_buffer k)
      in k\<lparr>kb_buffer := b, keysPressed := (if found then keysPressed k - 1 else keysPressed k)\<rparr>)"

definition Keyboard_setLed :: "bool \<Rightarrow> keyboard \<Rightarrow> u8 \<Rightarrow> bool \<Rightarrow> keyboard" where
  "Keyboard_setLed acks k led on =
     (if acks then k\<lparr>leds := (if on then leds k OR led else leds k AND NOT led)\<rparr> else k)"

definition set_mod :: "keyboard \<Rightarrow> modifier \<Rightarrow> bool \<Rightarrow> keyboard" where
  "set_mod k m p = k\<lparr>gather := Key_set_modifier m (gather k) p\<rparr>"

text \<open>\<open>gather.ascii(tab[index]); gather.scancode(code);\<close>\<close>

definition gather_from :: "keyboard \<Rightarrow> u8 list \<Rightarrow> u8 \<Rightarrow> u8 \<Rightarrow> keyboard outcome" where
  "gather_from k tab index code =
     andThen (readAt tab (ucast index)) (\<lambda>a.
     Inr (k\<lparr>gather := Key_set_scancode (Key_set_ascii (gather k) a) code\<rparr>))"

definition Keyboard_getAsciiCode :: "keyboard \<Rightarrow> u8 \<Rightarrow> keyboard outcome" where
  "Keyboard_getAsciiCode k code =
     (if code = 53 \<and> prefix_code k = prefix1
      then Inr (k\<lparr>gather := Key_set_scancode (Key_set_ascii (gather k) 0x2F) 8\<rparr>)
      else if Key_modifier NUM_LOCK (gather k) \<and> prefix_code k = 0 \<and> code \<ge> 71 \<and> code \<le> 83
      then andThen (readAt scan_num_tab (ucast (code - 71))) (\<lambda>s. gather_from k asc_num_tab (code - 71) s)
      else if Key_modifier ALT_RIGHT (gather k) then gather_from k alt_tab code code
      else if Key_modifier SHIFT (gather k) then gather_from k shift_tab code code
      else if Key_modifier CAPS_LOCK (gather k)
      then if (code \<ge> 16 \<and> code \<le> 26) \<or> (code \<ge> 30 \<and> code \<le> 40) \<or> (code \<ge> 44 \<and> code \<le> 50)
           then gather_from k shift_tab code code else gather_from k normal_tab code code
      else gather_from k normal_tab code code)"

text \<open>A key is released. The default case returns before the prefix is cleared.\<close>

definition decode_break :: "keyboard \<Rightarrow> u8 \<Rightarrow> keyboard" where
  "decode_break k code =
     (if code = 42 \<or> code = 54 then (set_mod k SHIFT False)\<lparr>prefix_code := 0\<rparr>
      else if code = 56
      then (set_mod k (if prefix_code k = prefix1 then ALT_RIGHT else ALT_LEFT) False)\<lparr>prefix_code := 0\<rparr>
      else if code = 29
      then (set_mod k (if prefix_code k = prefix1 then CTRL_RIGHT else CTRL_LEFT) False)\<lparr>prefix_code := 0\<rparr>
      else k)"

definition toggle_lock :: "bool \<Rightarrow> keyboard \<Rightarrow> modifier \<Rightarrow> u8 \<Rightarrow> keyboard" where
  "toggle_lock acks k m led =
     (let k1 = set_mod k m (\<not> Key_modifier m (gather k))
      in Keyboard_setLed acks k1 led (Key_modifier m (gather k1)))"

text \<open>A key is pressed: the second component says whether a key is complete.\<close>

definition decode_make :: "bool \<Rightarrow> keyboard \<Rightarrow> u8 \<Rightarrow> (keyboard \<times> bool) outcome" where
  "decode_make acks k code =
     (if code = 42 \<or> code = 54 then Inr (set_mod k SHIFT True, False)
      else if code = 56 then Inr (set_mod k (if prefix_code k = prefix1 then ALT_RIGHT else ALT_LEFT) True, False)
      else if code = 29 then Inr (set_mod k (if prefix_code k = prefix1 then CTRL_RIGHT else CTRL_LEFT) True, False)
      else if code = 58 then Inr (toggle_lock acks k CAPS_LOCK 4, False)
      else if code = 70 then Inr (toggle_lock acks k SCROLL_LOCK 1, False)
      else if code = 69 \<and> \<not> Key_modifier CTRL_LEFT (gather k) then Inr (toggle_lock acks k NUM_LOCK 2, False)
      else andThen (Keyboard_getAsciiCode k code) (\<lambda>k'. Inr (k', True)))"

definition Keyboard_decodeKey :: "bool \<Rightarrow> keyboard \<Rightarrow> u8 \<Rightarrow> (keyboard \<times> bool) outcome" where
  "Keyboard_decodeKey acks k0 code =
     (let scancode = ucast (code AND NOT break_bit);
          k = (if code AND break_bit \<noteq> 0
               then (let k1 = Keyboard_removeFromBuffer k0 scancode in k1\<lparr>gather := Key_setPressed (gather k1) False\<rparr>)
               else (let k1 = Keyboard_addToBuffer k0 scancode in k1\<lparr>gather := Key_setPressed (gather k1) True\<rparr>))
      in if code = prefix1 \<or> code = prefix2 then Inr (k\<lparr>prefix_code := code\<rparr>, False)
         else if code AND break_bit \<noteq> 0 then Inr (decode_break k (code AND NOT break_bit), False)
         else andThen (decode_make acks k code) (\<lambda>(k', complete). Inr (k'\<lparr>prefix_code := 0\<rparr>, complete)))"

definition Keyboard_plugin :: "keyboard \<Rightarrow> keyboard" where
  "Keyboard_plugin k = k\<lparr>kb_buffer := replicate 4 0\<rparr>"

definition Keyboard_trigger :: "keyboard \<Rightarrow> u8 \<Rightarrow> u8 \<Rightarrow> keyboard outcome" where
  "Keyboard_trigger k control data =
     (if control AND 0x1 \<noteq> 0x1 then Inr k
      else if control AND 0x20 \<noteq> 0 then Inr k
      else andThen (RingBuffer_push (interruptDataBuffer k) data) (\<lambda>b. Inr (k\<lparr>interruptDataBuffer := b\<rparr>)))"

definition Keyboard_hasInterruptData :: "keyboard \<Rightarrow> bool" where
  "Keyboard_hasInterruptData k \<longleftrightarrow> \<not> RingBuffer_isEmpty (interruptDataBuffer k)"

datatype keyboard_action = Reboot | Publish key

definition Keyboard_parseInterruptData :: "bool \<Rightarrow> keyboard \<Rightarrow> (keyboard \<times> keyboard_action list) outcome" where
  "Keyboard_parseInterruptData acks k =
     andThen (RingBuffer_pop (interruptDataBuffer k)) (\<lambda>(b, data).
     andThen (Keyboard_decodeKey acks (k\<lparr>interruptDataBuffer := b\<rparr>) data) (\<lambda>(k', complete).
     if complete
     then let key = gather k'
          in if Key_ctrl key \<and> Key_alt key \<and> Key_scancode key = 0x53 then Inr (k', [Reboot, Publish key])
             else Inr (k', [Publish key])
     else Inr (k', [])))"


section \<open>Modifiers are independent\<close>

fun mnum :: "modifier \<Rightarrow> nat" where
  "mnum SHIFT = 0" | "mnum ALT_LEFT = 1" | "mnum ALT_RIGHT = 2" | "mnum CTRL_LEFT = 3"
| "mnum CTRL_RIGHT = 4" | "mnum CAPS_LOCK = 5" | "mnum NUM_LOCK = 6" | "mnum SCROLL_LOCK = 7"

lemma mbit_eq: "mbit m = 2 ^ mnum m"
  by (cases m) simp_all

lemma mnum_less: "mnum m < 8"
  by (cases m) simp_all

lemma mnum_inj: "mnum m = mnum m' \<longleftrightarrow> m = m'"
  by (cases m; cases m') simp_all

lemma modifier_bit: "Key_modifier m k \<longleftrightarrow> bit (modi k) (mnum m)"
  by (simp add: Key_modifier_def mbit_eq and_exp_eq_0_iff_not_bit)

lemma modifier_set [simp]:
  "Key_modifier m (Key_set_modifier m' k p) \<longleftrightarrow> (if m = m' then p else Key_modifier m k)"
  using mnum_less [of m] mnum_less [of m'] mnum_inj [of m' m] mnum_inj [of m m']
  by (auto simp: modifier_bit Key_set_modifier_def mbit_eq bit_simps)

lemma modifier_other [simp]:
  "Key_modifier m (Key_setPressed k b) = Key_modifier m k" "Key_modifier m (Key_set_ascii k a) = Key_modifier m k"
  "Key_modifier m (Key_set_scancode k a) = Key_modifier m k"
  by (simp_all add: Key_modifier_def Key_setPressed_def Key_set_ascii_def Key_set_scancode_def)

section \<open>Decoding stays inside the tables\<close>

lemma tab_lengths: "length normal_tab = 89" "length shift_tab = 89" "length alt_tab = 89"
  "length asc_num_tab = 13" "length scan_num_tab = 13"
  by (simp_all add: normal_tab_def shift_tab_def alt_tab_def asc_num_tab_def scan_num_tab_def)

lemma unat_ucast_code: "unat (ucast (c :: u8) :: u32) = unat c"
proof -
  have "unat c < 2 ^ 32" using unat_u8_bound [of c] by (simp del: unat_u8_bound)
  then have "take_bit 32 (unat c) = unat c" by (rule take_bit_nat_eq_self)
  then show ?thesis by (simp add: unsigned_ucast_eq)
qed

lemma gather_from_ok:
  "unat index < length tab \<Longrightarrow> \<exists>a. gather_from k tab index code =
     Inr (k\<lparr>gather := Key_set_scancode (Key_set_ascii (gather k) a) code\<rparr>)"
  by (auto simp: gather_from_def unat_ucast_code)

lemma getAsciiCode_ok:
  assumes "code < 89"
  shows "\<exists>a s. Keyboard_getAsciiCode k code = Inr (k\<lparr>gather := Key_set_scancode (Key_set_ascii (gather k) a) s\<rparr>)"
proof -
  have c: "unat code < 89" using assms by (simp add: word_less_nat_alt)
  have num: "\<exists>a s. andThen (readAt scan_num_tab (ucast (code - 71))) (\<lambda>s. gather_from k asc_num_tab (code - 71) s)
      = Inr (k\<lparr>gather := Key_set_scancode (Key_set_ascii (gather k) a) s\<rparr>)" if "code \<ge> 71" "code \<le> 83"
  proof -
    have "unat (code - 71) = unat code - 71" using that(1) by (simp add: unat_sub word_le_nat_alt)
    then have "unat (code - 71) < 13" using that by (simp add: word_le_nat_alt)
    then show ?thesis
      using gather_from_ok [of "code - 71" asc_num_tab k "scan_num_tab ! unat (code - 71)"]
      by (auto simp: unat_ucast_code tab_lengths)
  qed
  show ?thesis
    unfolding Keyboard_getAsciiCode_def
    using num gather_from_ok [of code alt_tab k code] gather_from_ok [of code shift_tab k code]
      gather_from_ok [of code normal_tab k code] c
    by (auto simp: tab_lengths)
qed


section \<open>Runs of the decoder\<close>

text \<open>The codes of the keys in the tables, pressed or released, and the two prefixes.\<close>

definition known_code :: "u8 \<Rightarrow> bool" where
  "known_code c \<longleftrightarrow> c = prefix1 \<or> c = prefix2 \<or> (c AND NOT break_bit < 89 \<and> c AND NOT break_bit \<noteq> 0)"

text \<open>The list of keys held down has four entries, its entries other than 0 are distinct and counted.\<close>

definition held_ok :: "keyboard \<Rightarrow> bool" where
  "held_ok k \<longleftrightarrow> length (kb_buffer k) = 4 \<and> distinct (filter (\<lambda>i. i \<noteq> 0) (kb_buffer k))
     \<and> unat (keysPressed k) = length (filter (\<lambda>i. i \<noteq> 0) (kb_buffer k))"

lemma replace_first_miss: "x \<notin> set b \<Longrightarrow> replace_first x y b = (b, False)"
  by (induction b) auto

lemma replace_first_hit:
  "x \<in> set b \<Longrightarrow> \<exists>us vs. b = us @ x # vs \<and> replace_first x y b = (us @ y # vs, True)"
proof (induction b)
  case (Cons i b)
  show ?case
  proof (cases "i = x")
    case True
    then have "i # b = [] @ x # b \<and> replace_first x y (i # b) = ([] @ y # b, True)" by simp
    then show ?thesis by blast
  next
    case False
    then obtain us vs where "b = us @ x # vs" "replace_first x y b = (us @ y # vs, True)" using Cons by auto
    then have "i # b = (i # us) @ x # vs \<and> replace_first x y (i # b) = ((i # us) @ y # vs, True)" using False by simp
    then show ?thesis by blast
  qed
qed simp

lemma add_held:
  assumes "held_ok k"
  shows "held_ok (Keyboard_addToBuffer k c)" "gather (Keyboard_addToBuffer k c) = gather k"
    "prefix_code (Keyboard_addToBuffer k c) = prefix_code k"
proof -
  show "held_ok (Keyboard_addToBuffer k c)"
  proof (cases "c \<notin> set (kb_buffer k) \<and> 0 \<in> set (kb_buffer k)")
    case True
    then have c: "c \<noteq> 0" "\<not> Keyboard_isKeyPressed k c" by (auto simp: Keyboard_isKeyPressed_def list_ex_iff)
    obtain us vs where b: "kb_buffer k = us @ 0 # vs" "replace_first 0 c (kb_buffer k) = (us @ c # vs, True)"
      using replace_first_hit [of 0 "kb_buffer k" c] True by blast
    have "unat (keysPressed k) \<le> 4"
      using assms by (metis held_ok_def length_filter_le)
    then have "unat (keysPressed k + 1) = Suc (unat (keysPressed k))"
      using unat_add_u32 [of "keysPressed k" 1] by simp
    then show ?thesis using assms b c True by (auto simp: held_ok_def Keyboard_addToBuffer_def)
  next
    case False
    then have "Keyboard_addToBuffer k c = k"
      using replace_first_miss [of 0 "kb_buffer k" c]
      by (auto simp: Keyboard_addToBuffer_def Keyboard_isKeyPressed_def list_ex_iff)
    then show ?thesis using assms by simp
  qed
qed (simp_all add: Keyboard_addToBuffer_def split_beta)

lemma remove_held:
  assumes "held_ok k" "c \<noteq> 0"
  shows "held_ok (Keyboard_removeFromBuffer k c)" "gather (Keyboard_removeFromBuffer k c) = gather k"
    "prefix_code (Keyboard_removeFromBuffer k c) = prefix_code k"
proof -
  show "held_ok (Keyboard_removeFromBuffer k c)"
  proof (cases "c \<in> set (kb_buffer k)")
    case True
    then obtain us vs where b: "kb_buffer k = us @ c # vs" "replace_first c 0 (kb_buffer k) = (us @ 0 # vs, True)"
      using replace_first_hit by blast
    then have "unat (keysPressed k) = Suc (length (filter (\<lambda>i. i \<noteq> 0) (us @ vs)))"
      using assms by (simp add: held_ok_def)
    then have "unat (keysPressed k - 1) = length (filter (\<lambda>i. i \<noteq> 0) (us @ vs))"
      using unat_sub_u32 [of 1 "keysPressed k"] by simp
    then show ?thesis using assms b by (simp add: held_ok_def Keyboard_removeFromBuffer_def)
  next
    case False
    then show ?thesis
      using assms replace_first_miss [of c "kb_buffer k" 0] by (simp add: held_ok_def Keyboard_removeFromBuffer_def)
  qed
qed (simp_all add: Keyboard_removeFromBuffer_def split_beta)


lemma break_cases:
  fixes c :: u8
  shows "c AND break_bit = 0 \<Longrightarrow> c AND NOT break_bit = c"
    and "c AND break_bit \<noteq> 0 \<Longrightarrow> c = (c AND NOT break_bit) OR break_bit"
proof -
  have bits: "bit break_bit n \<longleftrightarrow> n = 7" for n using bit_exp_iff [where 'a = u8, of 7 n] by auto
  have top: "c AND break_bit = 0 \<longleftrightarrow> \<not> bit c 7" using and_exp_eq_0_iff_not_bit [of c 7] by simp
  show "c AND NOT break_bit = c" if "c AND break_bit = 0"
    using that top by (intro bit_word_eqI, unfold bit_and_iff bit_not_iff bits) auto
  show "c = (c AND NOT break_bit) OR break_bit" if "c AND break_bit \<noteq> 0"
    using that top by (intro bit_word_eqI, unfold bit_and_iff bit_or_iff bit_not_iff bits) auto
qed

text \<open>What a code does to the state of the shift keys and of caps lock.\<close>

definition shift_step :: "bool \<Rightarrow> u8 \<Rightarrow> bool" where
  "shift_step s c = (if c = 42 \<or> c = 54 then True else if c = 0xAA \<or> c = 0xB6 then False else s)"

definition caps_step :: "bool \<Rightarrow> u8 \<Rightarrow> bool" where
  "caps_step s c = (if c = 58 then \<not> s else s)"

lemma setLed_gather [simp]:
  "gather (Keyboard_setLed acks k led on) = gather k" "kb_buffer (Keyboard_setLed acks k led on) = kb_buffer k"
  "keysPressed (Keyboard_setLed acks k led on) = keysPressed k"
  by (simp_all add: Keyboard_setLed_def)

lemma set_mod_simps [simp]:
  "gather (set_mod k m p) = Key_set_modifier m (gather k) p" "kb_buffer (set_mod k m p) = kb_buffer k"
  "keysPressed (set_mod k m p) = keysPressed k" "prefix_code (set_mod k m p) = prefix_code k"
  by (simp_all add: set_mod_def)

lemma decode_make_ok:
  assumes "held_ok k" "code < 89"
  shows "\<exists>k' complete. decode_make acks k code = Inr (k', complete) \<and> held_ok k'
    \<and> Key_modifier SHIFT (gather k') = (code = 42 \<or> code = 54 \<or> Key_modifier SHIFT (gather k))
    \<and> Key_modifier CAPS_LOCK (gather k') = caps_step (Key_modifier CAPS_LOCK (gather k)) code"
  using getAsciiCode_ok [OF assms(2), of k] assms(1)
  by (auto simp: decode_make_def toggle_lock_def Let_def held_ok_def caps_step_def)

lemma decode_break_ok:
  assumes "held_ok k"
  shows "held_ok (decode_break k code)
    \<and> Key_modifier SHIFT (gather (decode_break k code)) = (code \<noteq> 42 \<and> code \<noteq> 54 \<and> Key_modifier SHIFT (gather k))
    \<and> Key_modifier CAPS_LOCK (gather (decode_break k code)) = Key_modifier CAPS_LOCK (gather k)"
  using assms by (auto simp: decode_break_def held_ok_def)

lemma decodeKey_ok:
  assumes "held_ok k" "known_code c"
  shows "\<exists>k' complete. Keyboard_decodeKey acks k c = Inr (k', complete) \<and> held_ok k'
    \<and> Key_modifier SHIFT (gather k') = shift_step (Key_modifier SHIFT (gather k)) c
    \<and> Key_modifier CAPS_LOCK (gather k') = caps_step (Key_modifier CAPS_LOCK (gather k)) c"
proof (cases "c AND break_bit = 0")
  case True
  then have n: "c AND NOT break_bit = c" by (rule break_cases)
  have pre: "c \<noteq> prefix1" "c \<noteq> prefix2" using True by auto
  then have c: "c < 89" "c \<noteq> 0" using assms(2) n by (auto simp: known_code_def)
  let ?k = "(Keyboard_addToBuffer k (ucast c))\<lparr>gather := Key_setPressed (gather (Keyboard_addToBuffer k (ucast c))) True\<rparr>"
  have k: "held_ok ?k" "Key_modifier m (gather ?k) = Key_modifier m (gather k)" for m
    using add_held [OF assms(1), of "ucast c"] by (simp_all add: held_ok_def)
  have "c \<noteq> 0xAA" "c \<noteq> 0xB6" using True by auto
  then show ?thesis
    using decode_make_ok [OF k(1) c(1), of acks] True pre n k(2)
    by (auto simp: Keyboard_decodeKey_def Let_def shift_step_def held_ok_def)
next
  case False
  let ?code = "c AND NOT break_bit"
  have c: "c = ?code OR break_bit" using False by (rule break_cases)
  have nz: "(ucast ?code :: u32) \<noteq> 0"
  proof
    assume "(ucast ?code :: u32) = 0"
    then have "unat ?code = 0" using unat_ucast_code [of ?code] by (metis unat_0)
    then have "?code = 0" by (simp add: unat_eq_0)
    then show False using assms(2) by (auto simp: known_code_def)
  qed
  let ?k = "(Keyboard_removeFromBuffer k (ucast ?code))\<lparr>gather := Key_setPressed (gather (Keyboard_removeFromBuffer k (ucast ?code))) False\<rparr>"
  have k: "held_ok ?k" "Key_modifier m (gather ?k) = Key_modifier m (gather k)" for m
    using remove_held [OF assms(1) nz] by (simp_all add: held_ok_def)
  have codes: "?code = 42 \<longleftrightarrow> c = 0xAA" "?code = 54 \<longleftrightarrow> c = 0xB6" using c by auto
  have "c \<noteq> 42" "c \<noteq> 54" "c \<noteq> 58" using False by auto
  then show ?thesis
    using decode_break_ok [OF k(1), of ?code] False k codes
    by (auto simp: Keyboard_decodeKey_def Let_def shift_step_def caps_step_def held_ok_def)
qed


primrec decode_all :: "bool \<Rightarrow> u8 list \<Rightarrow> keyboard \<Rightarrow> keyboard outcome" where
  "decode_all acks [] k = Inr k"
| "decode_all acks (c # cs) k = andThen (Keyboard_decodeKey acks k c) (\<lambda>(k', complete). decode_all acks cs k')"

section \<open>What goes wrong\<close>

definition demo_keyboard :: keyboard where
  "demo_keyboard = \<lparr>prefix_code = 0, gather = Key_new, leds = 0, keysPressed = 0, kb_buffer = [0, 0, 0, 0],
     interruptDataBuffer = \<lparr>rb_buffer = Array_new 0 4, rb_capacity = 4, rb_readIndex = 0, rb_writeIndex = 0, rb_size = 0\<rparr>\<rparr>"

text \<open>The left Windows key (E0 5B) is read behind the end of the table.\<close>

lemma windows_key_faults: "decode_all True [0xE0, 0x5B] demo_keyboard = Inl BadAccess"
  by code_simp

text \<open>Releasing an extended key such as an arrow leaves the prefix set, and the next press of the minus key
  is decoded as the division key of the number pad.\<close>

lemma stale_prefix:
  "case decode_all True [0xE0, 0x48, 0xE0, 0xC8, 53] demo_keyboard of Inl e \<Rightarrow> False
   | Inr k \<Rightarrow> Key_ascii (gather k) = 0x2F \<and> Key_scancode (gather k) = 8"
  "case decode_all True [53] demo_keyboard of Inl e \<Rightarrow> False | Inr k \<Rightarrow> Key_ascii (gather k) = 0x2D"
  by code_simp+

section \<open>Properties\<close>

text \<open>C22. For every sequence of codes of the keys in the tables the decoder stays inside its tables and keeps
  the list of held keys consistent (at most four, each once, counted by \<open>keysPressed\<close>). Shift is on
  exactly if the last code of a shift key was a press, and caps lock has changed with every press of
  its key, whatever codes come in between.\<close>

theorem keyboard_decodes:
  assumes "held_ok k" "\<forall>c \<in> set codes. known_code c"
  shows "\<exists>k'. decode_all acks codes k = Inr k' \<and> held_ok k'
    \<and> Key_modifier SHIFT (gather k') = foldl shift_step (Key_modifier SHIFT (gather k)) codes
    \<and> Key_modifier CAPS_LOCK (gather k') = foldl caps_step (Key_modifier CAPS_LOCK (gather k)) codes"
  using assms
proof (induction codes arbitrary: k)
  case (Cons c cs)
  obtain k1 complete where k1: "Keyboard_decodeKey acks k c = Inr (k1, complete)" "held_ok k1"
    "Key_modifier SHIFT (gather k1) = shift_step (Key_modifier SHIFT (gather k)) c"
    "Key_modifier CAPS_LOCK (gather k1) = caps_step (Key_modifier CAPS_LOCK (gather k)) c"
    using decodeKey_ok [OF Cons.prems(1), of c acks] Cons.prems(2) by auto
  then show ?case using Cons.IH [OF k1(2)] Cons.prems(2) by simp
qed simp

theorem keyboard_decodes_witness:
  "\<exists>k'. decode_all True [42, 30, 0xE0, 0xAA, 58] demo_keyboard = Inr k' \<and> held_ok k'
     \<and> \<not> Key_modifier SHIFT (gather k') \<and> Key_modifier CAPS_LOCK (gather k')"
proof -
  have "held_ok demo_keyboard" by (simp add: held_ok_def demo_keyboard_def)
  moreover have "known_code 42" "known_code 30" "known_code 0xE0" "known_code 0xAA" "known_code 58"
    by (simp_all add: known_code_def word_less_nat_alt)
  moreover have "\<not> Key_modifier SHIFT (gather demo_keyboard)" "\<not> Key_modifier CAPS_LOCK (gather demo_keyboard)"
    by (simp_all add: demo_keyboard_def Key_modifier_def Key_new_def)
  ultimately show ?thesis
    using keyboard_decodes [of demo_keyboard "[42, 30, 0xE0, 0xAA, 58]" True]
    by (simp add: shift_step_def caps_step_def)
qed

end
