(* ===== verification/Interrupts.thy ===== *)
theory Interrupts
  imports Listener_Lists Spinlocks Keyboards
begin

text \<open>Interrupt handling: the interrupt controllers (\<open>device/misc/Pic.cpp\<close>), the dispatcher, the thread that polls
  the devices for deferred work (both in \<open>kernel/interrupt\<close>) and the table of system calls
  (\<open>kernel/core/SystemCall.cpp\<close>).

  A data port of a controller reads back the mask that was last written to it; for the command ports the bytes written
  are kept in order. The handlers are the implementations of \<open>InterruptHandler\<close>: \<open>trigger\<close> is an argument that
  changes the state of the devices. A handler does not register further handlers while it is triggered.\<close>

unbundle bit_operations_syntax

section \<open>The interrupt controllers\<close>

record pic =
  pic1_data :: u8
  pic2_data :: u8
  pic1_command :: "u8 list"
  pic2_command :: "u8 list"

abbreviation (input) PIC_RTC :: u8 where "PIC_RTC \<equiv> 8"
abbreviation (input) PIC_EOI :: u8 where "PIC_EOI \<equiv> 0x20"
abbreviation (input) PIC_READ_ISR :: u8 where "PIC_READ_ISR \<equiv> 0x0B"
abbreviation (input) PIC_SPURIOUS_INTERRUPT :: u8 where "PIC_SPURIOUS_INTERRUPT \<equiv> 0x80"

datatype pic_port = PIC1_DATA | PIC2_DATA | PIC1_COMMAND | PIC2_COMMAND

text \<open>Reading is modelled for the data ports only; what a command port answers is an argument of the one operation that
  reads it.\<close>

definition port_inb :: "pic \<Rightarrow> pic_port \<Rightarrow> u8" where
  "port_inb c port = (if port = PIC2_DATA then pic2_data c else pic1_data c)"

fun port_outb :: "pic \<Rightarrow> pic_port \<Rightarrow> u8 \<Rightarrow> pic" where
  "port_outb c PIC1_DATA v = c\<lparr>pic1_data := v\<rparr>"
| "port_outb c PIC2_DATA v = c\<lparr>pic2_data := v\<rparr>"
| "port_outb c PIC1_COMMAND v = c\<lparr>pic1_command := pic1_command c @ [v]\<rparr>"
| "port_outb c PIC2_COMMAND v = c\<lparr>pic2_command := pic2_command c @ [v]\<rparr>"

definition Pic_getDataPort :: "u8 \<Rightarrow> pic_port" where
  "Pic_getDataPort i = (if i \<ge> PIC_RTC then PIC2_DATA else PIC1_DATA)"

definition Pic_getCommandPort :: "u8 \<Rightarrow> pic_port" where
  "Pic_getCommandPort i = (if i \<ge> PIC_RTC then PIC2_COMMAND else PIC1_COMMAND)"

definition Pic_getMask :: "u8 \<Rightarrow> u8" where
  "Pic_getMask i = (if i \<ge> PIC_RTC then push_bit (unat (i - 8)) 1 else push_bit (unat i) 1)"

definition Pic_allow :: "pic \<Rightarrow> u8 \<Rightarrow> pic" where
  "Pic_allow c i =
     (let port = Pic_getDataPort i; mask = Pic_getMask i in port_outb c port (port_inb c port AND NOT mask))"

definition Pic_forbid :: "pic \<Rightarrow> u8 \<Rightarrow> pic" where
  "Pic_forbid c i =
     (let port = Pic_getDataPort i; mask = Pic_getMask i in port_outb c port (port_inb c port OR mask))"

definition Pic_status :: "pic \<Rightarrow> u8 \<Rightarrow> bool" where
  "Pic_status c i =
     (let port = Pic_getDataPort i; mask = Pic_getMask i in port_inb c port AND mask \<noteq> 0)"

definition Pic_sendEOI :: "pic \<Rightarrow> u8 \<Rightarrow> pic" where
  "Pic_sendEOI c i =
     (let c1 = (if i \<ge> PIC_RTC then port_outb c PIC2_COMMAND PIC_EOI else c)
      in port_outb c1 PIC1_COMMAND PIC_EOI)"

text \<open>\<open>isr\<close> is the in-service register, which the controller answers to \<open>READ_ISR\<close>.\<close>

definition Pic_isSpurious :: "u8 \<Rightarrow> pic \<Rightarrow> pic \<times> bool" where
  "Pic_isSpurious isr c =
     (port_outb c PIC1_COMMAND PIC_READ_ISR, isr AND PIC_SPURIOUS_INTERRUPT = 0)"

section \<open>The dispatcher\<close>

record interrupt_frame =
  fr_ebx :: u32
  fr_ecx :: u32
  fr_eax :: u32
  fr_interrupt :: u32

record ('h, 'f) dispatcher =
  debugHandlers :: "(u8, 'f) hash_map"
  handlers :: "(u8, 'h) list_map"

abbreviation (input) SOFTWARE_EXCEPTIONS_START :: u8 where "SOFTWARE_EXCEPTIONS_START \<equiv> 200"
abbreviation (input) PAGE_FAULT :: u8 where "PAGE_FAULT \<equiv> 14"

abbreviation (input) byte_hash :: "u8 \<Rightarrow> u32" where "byte_hash \<equiv> ucast"

text \<open>\<open>System::panic\<close> shows the blue screen and does not return.\<close>

datatype 'a dispatched = Panicked | Handled 'a

definition InterruptDispatcher_assign :: "'h \<Rightarrow> ('h, 'f) dispatcher \<Rightarrow> u8 \<Rightarrow> 'h \<Rightarrow> ('h, 'f) dispatcher outcome" where
  "InterruptDispatcher_assign nil d nr isr =
     andThen (ListMap_add byte_hash nil (handlers d) nr isr) (\<lambda>m. Inr (d\<lparr>handlers := m\<rparr>))"

definition InterruptDispatcher_new :: "'h \<Rightarrow> 'h \<Rightarrow> ('h, 'f) dispatcher outcome" where
  "InterruptDispatcher_new nil systemCall =
     InterruptDispatcher_assign nil \<lparr>debugHandlers = HashMap_default, handlers = ListMap_new\<rparr> 0x80 systemCall"

definition InterruptDispatcher_report ::
  "('h, 'f) dispatcher \<Rightarrow> u8 \<Rightarrow> (('h, 'f) dispatcher \<times> nat option) outcome" where
  "InterruptDispatcher_report d nr =
     andThen (ListMap_find byte_hash (handlers d) nr) (\<lambda>(m, p). Inr (d\<lparr>handlers := m\<rparr>, p))"

definition InterruptDispatcher_sendEoi :: "pic \<Rightarrow> u32 \<Rightarrow> pic" where
  "InterruptDispatcher_sendEoi c nr = (if nr > 32 then Pic_sendEOI c (ucast (nr - 32)) else c)"

definition InterruptDispatcher_assignDebug ::
  "('h, 'f) dispatcher \<Rightarrow> u8 \<Rightarrow> 'f \<Rightarrow> ('h, 'f) dispatcher outcome" where
  "InterruptDispatcher_assignDebug d nr debugHandler =
     andThen (HashMap_put byte_hash (debugHandlers d) nr debugHandler) (\<lambda>m. Inr (d\<lparr>debugHandlers := m\<rparr>))"

definition InterruptDispatcher_reportDebug ::
  "('h, 'f) dispatcher \<Rightarrow> u8 \<Rightarrow> (('h, 'f) dispatcher \<times> 'f option) outcome" where
  "InterruptDispatcher_reportDebug d nr =
     andThen (HashMap_containsKey byte_hash (debugHandlers d) nr) (\<lambda>found.
     if \<not> found then Inr (d, None)
     else andThen (HashMap_get byte_hash (debugHandlers d) nr) (\<lambda>(m, f). Inr (d\<lparr>debugHandlers := m\<rparr>, Some f)))"

text \<open>The loop over the handlers of an interrupt; the number of rounds is the size of the list before the loop.\<close>

fun trigger_loop :: "('h \<Rightarrow> 'w \<Rightarrow> 'w outcome) \<Rightarrow> 'h array_list \<Rightarrow> nat \<Rightarrow> u32 \<Rightarrow> 'w \<Rightarrow> 'w outcome" where
  "trigger_loop trigger l 0 i w = Inr w"
| "trigger_loop trigger l (Suc n) i w =
     andThen (ArrayList_get l i) (\<lambda>h. andThen (trigger h w) (trigger_loop trigger l n (i + 1)))"

text \<open>\<open>gdb\<close> says whether the debugger is initialised, \<open>gdbHandle\<close> is what it does with the frame.\<close>

definition InterruptDispatcher_dispatch ::
  "('h \<Rightarrow> interrupt_frame \<Rightarrow> 'w \<Rightarrow> 'w outcome) \<Rightarrow> bool \<Rightarrow> (interrupt_frame \<Rightarrow> 'w \<Rightarrow> 'w) \<Rightarrow> u8
     \<Rightarrow> ('h, 'f) dispatcher \<Rightarrow> pic \<Rightarrow> 'w \<Rightarrow> interrupt_frame
     \<Rightarrow> (('h, 'f) dispatcher \<times> pic \<times> 'w) dispatched outcome" where
  "InterruptDispatcher_dispatch trigger gdb gdbHandle isr d c w frame =
     (let nr = ucast (fr_interrupt frame) :: u8
      in if nr < 32 \<and> \<not> gdb \<and> nr \<noteq> PAGE_FAULT then Inr Panicked
         else if nr \<ge> SOFTWARE_EXCEPTIONS_START then Inr Panicked
         else let (c1, spurious) = (if nr = 39 then Pic_isSpurious isr c else (c, False))
         in if spurious then Inr (Handled (d, c1, w))
         else if HashMap_size (lm_map (handlers d)) = 0
         then Inr (Handled (d, InterruptDispatcher_sendEoi c1 (ucast nr), w))
         else andThen (InterruptDispatcher_report d nr) (\<lambda>(d1, list).
              if list = None \<and> nr \<ge> 32 then Inl (Thrown ILLEGAL_STATE)
              else andThen (case list of None \<Rightarrow> Inr w
                            | Some p \<Rightarrow> andThen (list_at (handlers d1) p) (\<lambda>l.
                                trigger_loop (\<lambda>h. trigger h frame) l (unat (ArrayList_size l)) 0 w)) (\<lambda>w1.
              let w2 = (if nr < 32 \<and> gdb \<and> nr \<noteq> 14 then gdbHandle frame w1 else w1)
              in Inr (Handled (d1, InterruptDispatcher_sendEoi c1 (ucast nr), w2)))))"

section \<open>System calls\<close>

definition SystemCall_registerSystemCall :: "'f option list \<Rightarrow> u32 \<Rightarrow> 'f \<Rightarrow> 'f option list outcome" where
  "SystemCall_registerSystemCall calls code func = writeAt calls code (Some func)"

text \<open>The call gets the number of parameters, the parameters and the address for the result.\<close>

definition SystemCall_trigger ::
  "('f \<Rightarrow> u32 \<Rightarrow> u32 \<Rightarrow> u32 \<Rightarrow> 'w \<Rightarrow> 'w outcome) \<Rightarrow> 'f option list \<Rightarrow> interrupt_frame \<Rightarrow> 'w \<Rightarrow> 'w outcome" where
  "SystemCall_trigger call calls frame w =
     andThen (readAt calls (fr_eax frame AND 0xFFFF)) (\<lambda>func.
     case func of None \<Rightarrow> Inl BadAccess
     | Some f \<Rightarrow> call f (drop_bit 16 (fr_eax frame)) (fr_ebx frame) (fr_ecx frame) w)"

section \<open>The polling thread\<close>

record 'h interrupt_manager =
  interruptHandler :: "'h array_list"
  im_lock :: u8

definition InterruptManager_new :: "'h interrupt_manager" where
  "InterruptManager_new = \<lparr>interruptHandler = ArrayList_empty, im_lock = Spinlock_new\<rparr>"

definition InterruptManager_registerInterruptHandler ::
  "'h \<Rightarrow> 'h interrupt_manager \<Rightarrow> 'h \<Rightarrow> 'h interrupt_manager outcome" where
  "InterruptManager_registerInterruptHandler nil m device =
     andThen (Spinlock_acquire (im_lock m)) (\<lambda>l.
     andThen (ArrayList_add nil (interruptHandler m) device) (\<lambda>hs.
     Inr (m\<lparr>interruptHandler := hs, im_lock := Spinlock_release l\<rparr>)))"

definition InterruptManager_deregisterInterruptHandler ::
  "'h interrupt_manager \<Rightarrow> 'h \<Rightarrow> 'h interrupt_manager outcome" where
  "InterruptManager_deregisterInterruptHandler m device =
     andThen (Spinlock_acquire (im_lock m)) (\<lambda>l.
     andThen (ArrayList_remove (interruptHandler m) device) (\<lambda>(hs, removed).
     Inr (m\<lparr>interruptHandler := hs, im_lock := Spinlock_release l\<rparr>)))"

text \<open>One pass of the inner loop of \<open>run\<close>; the result says whether the thread yields. The first argument of \<open>poll_pass\<close>
  counts the handlers that are left.\<close>

fun poll_pass :: "nat \<Rightarrow> ('h \<Rightarrow> 'w \<Rightarrow> bool) \<Rightarrow> ('h \<Rightarrow> 'w \<Rightarrow> 'w outcome) \<Rightarrow> 'h array_list \<Rightarrow> u32 \<Rightarrow> bool \<Rightarrow> 'w
    \<Rightarrow> ('w \<times> bool) outcome" where
  "poll_pass 0 hasData parse hs i doYield w = Inr (w, doYield)"
| "poll_pass (Suc n) hasData parse hs i doYield w =
     andThen (ArrayList_get hs i) (\<lambda>h.
     if hasData h w
     then andThen (ArrayList_get hs i) (\<lambda>h'. andThen (parse h' w) (poll_pass n hasData parse hs (i + 1) False))
     else poll_pass n hasData parse hs (i + 1) doYield w)"

text \<open>The loop up to the next \<open>yield\<close>: \<open>None\<close> if it never ends. No interrupt adds data while it runs.\<close>

partial_function (option) InterruptManager_poll ::
  "('h \<Rightarrow> 'w \<Rightarrow> bool) \<Rightarrow> ('h \<Rightarrow> 'w \<Rightarrow> 'w outcome) \<Rightarrow> 'h interrupt_manager \<Rightarrow> 'w
     \<Rightarrow> ('h interrupt_manager \<times> 'w) outcome option" where
  "InterruptManager_poll hasData parse m w =
     (case Spinlock_acquire (im_lock m) of
        Inl e \<Rightarrow> Some (Inl e)
      | Inr l \<Rightarrow>
          (case poll_pass (unat (ArrayList_size (interruptHandler m))) hasData parse (interruptHandler m) 0 True w of
             Inl e \<Rightarrow> Some (Inl e)
           | Inr (w', doYield) \<Rightarrow>
               (let m' = m\<lparr>im_lock := Spinlock_release l\<rparr>
                in if doYield then Some (Inr (m', w')) else InterruptManager_poll hasData parse m' w')))"

declare InterruptManager_poll.simps [code]

definition InterruptManager_handleDisabledInterrupts ::
  "('h \<Rightarrow> 'w \<Rightarrow> 'w outcome) \<Rightarrow> 'h interrupt_manager \<Rightarrow> 'w \<Rightarrow> 'w outcome" where
  "InterruptManager_handleDisabledInterrupts trigger m w =
     trigger_loop trigger (interruptHandler m) (unat (ArrayList_size (interruptHandler m))) 0 w"

section \<open>Lemmas on the controllers\<close>

lemma bit_mask_i: "bit (2 ^ n :: u8) m \<longleftrightarrow> n = m \<and> m < 8"
  by (auto simp: bit_exp_iff)

lemma and_push_bit_1: "n < 8 \<Longrightarrow> (x :: u8) AND 2 ^ n \<noteq> 0 \<longleftrightarrow> bit x n"
proof
  assume "n < 8" "x AND 2 ^ n \<noteq> 0"
  then obtain m where "bit (x AND 2 ^ n) m" by (metis bit_word_eqI bit_0_eq bot_apply bot_bool_def)
  then show "bit x n" by (simp add: bit_and_iff bit_mask_i)
next
  assume "n < 8" "bit x n"
  then have "bit (x AND 2 ^ n) n" by (simp add: bit_and_iff bit_mask_i)
  then show "x AND 2 ^ n \<noteq> 0" by auto
qed

lemma Pic_getMask_bit: "i < 16 \<Longrightarrow> Pic_getMask i = 2 ^ (unat i mod 8)"
  by (auto simp: Pic_getMask_def word_le_nat_alt word_less_nat_alt unat_sub mod_nat_eqI le_mod_geq)

text \<open>Masking an interrupt is visible for it and for no other.\<close>

lemma Pic_status_forbid_allow:
  assumes "i < 16" "j < 16"
  shows "Pic_status (Pic_forbid c i) j \<longleftrightarrow> j = i \<or> Pic_status c j"
    "Pic_status (Pic_allow c i) j \<longleftrightarrow> j \<noteq> i \<and> Pic_status c j"
proof -
  have eq: "i = j \<longleftrightarrow> (i \<ge> 8 \<longleftrightarrow> j \<ge> 8) \<and> unat i mod 8 = unat j mod 8"
    using assms by (auto simp: word_le_nat_alt word_less_nat_alt word_unat_eq_iff le_mod_geq)
  show "Pic_status (Pic_forbid c i) j \<longleftrightarrow> j = i \<or> Pic_status c j"
    "Pic_status (Pic_allow c i) j \<longleftrightarrow> j \<noteq> i \<and> Pic_status c j"
    using assms eq
    by (auto simp: Pic_status_def Pic_forbid_def Pic_allow_def Let_def Pic_getMask_bit Pic_getDataPort_def port_inb_def
        and_push_bit_1 bit_or_iff bit_and_iff bit_not_iff bit_mask_i)
qed

lemma sendEoi_eq:
  assumes "32 \<le> (nr :: u8)"
  shows "InterruptDispatcher_sendEoi c (ucast nr) =
    c\<lparr>pic1_command := pic1_command c @ (if nr > 32 then [0x20] else []),
      pic2_command := pic2_command c @ (if nr \<ge> 40 then [0x20] else [])\<rparr>"
proof -
  have "unat (ucast (ucast nr - 32 :: u32) :: u8) = unat nr - 32"
    using assms unat_u8_bound [of nr] by (simp add: unsigned_ucast_eq unat_sub word_le_nat_alt take_bit_eq_mod del: unat_u8_bound)
  then show ?thesis using assms
    by (auto simp: InterruptDispatcher_sendEoi_def Pic_sendEOI_def Let_def word_le_nat_alt word_less_nat_alt unsigned_ucast_eq take_bit_eq_mod)
qed

section \<open>Handlers run in the order of their registration\<close>

primrec run_all :: "('h \<Rightarrow> 'w \<Rightarrow> 'w outcome) \<Rightarrow> 'h list \<Rightarrow> 'w \<Rightarrow> 'w outcome" where
  "run_all t [] w = Inr w"
| "run_all t (h # hs) w = andThen (t h w) (run_all t hs)"

lemma trigger_loop_run:
  "al_wf l \<Longrightarrow> unat i + n = length (al_abs l) \<Longrightarrow> trigger_loop t l n i w = run_all t (drop (unat i) (al_abs l)) w"
proof (induction t l n i w rule: trigger_loop.induct)
  case (2 t l n i w)
  have i: "unat i < length (al_abs l)" using 2 by simp
  then have "i < al_length l" using length_al_abs [OF 2(2)] by (simp add: word_less_nat_alt)
  then have "unat (i + 1) = Suc (unat i)" by (rule unat_Suc_u32)
  moreover have "drop (unat i) (al_abs l) = al_abs l ! unat i # drop (Suc (unat i)) (al_abs l)"
    using i by (simp add: Cons_nth_drop_Suc)
  ultimately have "trigger_loop t l n (i + 1) = run_all t (drop (Suc (unat i)) (al_abs l))"
    using 2 i by (auto simp: ArrayList_get_abs fun_eq_iff)
  then show ?case using i 2(2) \<open>drop (unat i) _ = _\<close> by (simp add: ArrayList_get_abs)
qed simp

primrec assign_all :: "'h \<Rightarrow> ('h, 'f) dispatcher \<Rightarrow> (u8 \<times> 'h) list \<Rightarrow> ('h, 'f) dispatcher outcome" where
  "assign_all nil d [] = Inr d"
| "assign_all nil d (r # rs) =
     andThen (InterruptDispatcher_assign nil d (fst r) (snd r)) (\<lambda>d'. assign_all nil d' rs)"

text \<open>The handlers that a list of registrations names for an interrupt.\<close>

definition registered :: "u8 \<Rightarrow> (u8 \<times> 'h) list \<Rightarrow> 'h list" where
  "registered nr regs = map snd (filter (\<lambda>r. fst r = nr) regs)"

lemma registered_length: "length (registered nr regs) \<le> length regs"
  by (simp add: registered_def)

lemma assign_all_abs:
  assumes "lm_inv byte_hash (handlers d)" "\<And>k. length (lm_abs byte_hash (handlers d) k) + length regs \<le> 2147483648"
  shows "\<exists>d'. assign_all nil d regs = Inr d' \<and> lm_inv byte_hash (handlers d')
    \<and> lm_abs byte_hash (handlers d') = (\<lambda>k. lm_abs byte_hash (handlers d) k @ registered k regs)"
  using assms
proof (induction regs arbitrary: d)
  case (Cons r rs)
  obtain m where m: "ListMap_add byte_hash nil (handlers d) (fst r) (snd r) = Inr m" "lm_inv byte_hash m"
      "lm_abs byte_hash m = (lm_abs byte_hash (handlers d))(fst r := lm_abs byte_hash (handlers d) (fst r) @ [snd r])"
    using ListMap_add_abs [OF Cons.prems(1), of "fst r" nil "snd r"] Cons.prems(2) [of "fst r"] by auto
  have "length (lm_abs byte_hash m k) + length rs \<le> 2147483648" for k
    using Cons.prems(2) [of k] m(3) by auto
  then obtain d' where "assign_all nil (d\<lparr>handlers := m\<rparr>) rs = Inr d'" "lm_inv byte_hash (handlers d')"
      "lm_abs byte_hash (handlers d') = (\<lambda>k. lm_abs byte_hash m k @ registered k rs)"
    using Cons.IH [of "d\<lparr>handlers := m\<rparr>"] m(2) by auto
  then show ?case using m by (auto simp: InterruptDispatcher_assign_def registered_def fun_eq_iff)
qed (simp add: registered_def)

lemma InterruptDispatcher_new_abs:
  "\<exists>d. InterruptDispatcher_new nil systemCall = Inr d \<and> lm_inv byte_hash (handlers d)
     \<and> lm_abs byte_hash (handlers d) = (\<lambda>k. registered k [(0x80, systemCall)])"
  using ListMap_add_abs [OF lm_inv_new(1), of byte_hash "0x80" nil systemCall]
  by (auto simp: InterruptDispatcher_new_def InterruptDispatcher_assign_def registered_def fun_eq_iff)

text \<open>The map of a dispatcher with a handler is not empty; it has at most 256 keys, so its counter does not wrap.\<close>

lemma handlers_size:
  assumes "lm_inv byte_hash m" "lm_abs byte_hash m k \<noteq> []"
  shows "HashMap_size (lm_map m) \<noteq> 0"
proof -
  let ?D = "dom (hm_abs byte_hash (lm_map m))"
  have h: "hm_inv byte_hash (lm_map m)" using assms(1) by (simp add: lm_inv_def)
  have "card ?D \<le> CARD(8 word)" by (rule card_mono) auto
  moreover have "k \<in> ?D" using assms(2) by (auto simp: lm_abs_def split: option.splits)
  then have "0 < card ?D" using hmap.count_lookup [OF h] by (auto simp: card_gt_0_iff)
  ultimately show ?thesis using hmap.count_lookup [OF h] by (auto simp: u32_eq_iff card_word)
qed

lemma dispatch_eq:
  assumes I: "lm_inv byte_hash (handlers d)" and some: "lm_abs byte_hash (handlers d) k \<noteq> []"
    and nr: "ucast (fr_interrupt frame) = nr" "32 \<le> nr" "nr < 200" and isr: "nr \<noteq> 39 \<or> isr AND 0x80 \<noteq> 0"
  shows "\<exists>d1. lm_inv byte_hash (handlers d1) \<and> lm_abs byte_hash (handlers d1) = lm_abs byte_hash (handlers d)
    \<and> InterruptDispatcher_dispatch trigger gdb gdbHandle isr d c w frame =
        (if lm_abs byte_hash (handlers d) nr = [] then Inl (Thrown ILLEGAL_STATE)
         else andThen (run_all (\<lambda>h. trigger h frame) (lm_abs byte_hash (handlers d) nr) w) (\<lambda>w'.
              Inr (Handled (d1, c\<lparr>pic1_command := pic1_command c @ (if nr = 39 then [0x0B] else []) @ (if nr > 32 then [0x20] else []),
                     pic2_command := pic2_command c @ (if nr \<ge> 40 then [0x20] else [])\<rparr>, w'))))"
proof -
  have size: "HashMap_size (lm_map (handlers d)) \<noteq> 0" using handlers_size [OF I some] .
  have g: "\<not> nr < 32" "\<not> nr \<ge> 200" using nr by auto
  let ?c = "if nr = 39 then port_outb c PIC1_COMMAND 0x0B else c"
  obtain t where t: "lm_inv byte_hash (handlers d\<lparr>lm_map := t\<rparr>)"
      "lm_abs byte_hash (handlers d\<lparr>lm_map := t\<rparr>) = lm_abs byte_hash (handlers d)"
      and f: "if lm_abs byte_hash (handlers d) nr = []
       then ListMap_find byte_hash (handlers d) nr = Inr (handlers d\<lparr>lm_map := t\<rparr>, None)
       else \<exists>p l. ListMap_find byte_hash (handlers d) nr = Inr (handlers d\<lparr>lm_map := t\<rparr>, Some p)
              \<and> list_at (handlers d\<lparr>lm_map := t\<rparr>) p = Inr l \<and> al_wf l \<and> al_abs l = lm_abs byte_hash (handlers d) nr"
    using ListMap_find_abs [OF I, of nr] by blast
  let ?d = "d\<lparr>handlers := handlers d\<lparr>lm_map := t\<rparr>\<rparr>"
  have D: "InterruptDispatcher_dispatch trigger gdb gdbHandle isr d c w frame =
      andThen (InterruptDispatcher_report d nr) (\<lambda>(d1, list).
        if list = None \<and> nr \<ge> 32 then Inl (Thrown ILLEGAL_STATE)
        else andThen (case list of None \<Rightarrow> Inr w
                      | Some p \<Rightarrow> andThen (list_at (handlers d1) p) (\<lambda>l.
                          trigger_loop (\<lambda>h. trigger h frame) l (unat (ArrayList_size l)) 0 w)) (\<lambda>w1.
             Inr (Handled (d1, InterruptDispatcher_sendEoi ?c (ucast nr), w1))))"
    using isr by (auto simp: InterruptDispatcher_dispatch_def Pic_isSpurious_def Let_def nr(1) g size cong: if_cong)
  have eoi: "InterruptDispatcher_sendEoi ?c (ucast nr) =
     c\<lparr>pic1_command := pic1_command c @ (if nr = 39 then [0x0B] else []) @ (if nr > 32 then [0x20] else []),
       pic2_command := pic2_command c @ (if nr \<ge> 40 then [0x20] else [])\<rparr>"
    using sendEoi_eq [OF nr(2)] by simp
  show ?thesis
  proof (intro exI conjI)
    show "lm_inv byte_hash (handlers ?d)" "lm_abs byte_hash (handlers ?d) = lm_abs byte_hash (handlers d)" using t by simp_all
    show "InterruptDispatcher_dispatch trigger gdb gdbHandle isr d c w frame =
        (if lm_abs byte_hash (handlers d) nr = [] then Inl (Thrown ILLEGAL_STATE)
         else andThen (run_all (\<lambda>h. trigger h frame) (lm_abs byte_hash (handlers d) nr) w) (\<lambda>w'.
              Inr (Handled (?d, c\<lparr>pic1_command := pic1_command c @ (if nr = 39 then [0x0B] else []) @ (if nr > 32 then [0x20] else []),
                     pic2_command := pic2_command c @ (if nr \<ge> 40 then [0x20] else [])\<rparr>, w'))))"
    proof (cases "lm_abs byte_hash (handlers d) nr = []")
      case True
      then show ?thesis using f nr by (simp add: D InterruptDispatcher_report_def)
    next
      case False
      then obtain p l where l: "ListMap_find byte_hash (handlers d) nr = Inr (handlers d\<lparr>lm_map := t\<rparr>, Some p)"
          "list_at (handlers d\<lparr>lm_map := t\<rparr>) p = Inr l" "al_wf l" "al_abs l = lm_abs byte_hash (handlers d) nr"
        using f by auto
      then have "trigger_loop (\<lambda>h. trigger h frame) l (unat (ArrayList_size l)) 0 w =
          run_all (\<lambda>h. trigger h frame) (lm_abs byte_hash (handlers d) nr) w"
        using trigger_loop_run [of l 0 "unat (ArrayList_size l)"] length_al_abs [OF l(3)] by (simp add: ArrayList_size_def)
      then show ?thesis using False l unfolding D eoi by (simp add: InterruptDispatcher_report_def)
    qed
  qed
qed

section \<open>The polling thread\<close>

text \<open>The contract of devices with deferred work: as long as one has data something is pending at it, handling it
  makes that less and does not touch the other devices. \<open>ok\<close> is the invariant under which handling does not fault.\<close>

locale interrupt_source =
  fixes ok :: "'w \<Rightarrow> bool"
    and hasData :: "'h \<Rightarrow> 'w \<Rightarrow> bool"
    and parse :: "'h \<Rightarrow> 'w \<Rightarrow> 'w outcome"
    and pending :: "'h \<Rightarrow> 'w \<Rightarrow> nat"
  assumes parse_step: "ok w \<Longrightarrow> hasData h w
      \<Longrightarrow> \<exists>w'. parse h w = Inr w' \<and> ok w' \<and> pending h w' < pending h w \<and> (\<forall>g. g \<noteq> h \<longrightarrow> pending g w' = pending g w)"
begin

text \<open>A pass either finds nothing to do or reduces the amount of pending data.\<close>

lemma poll_pass_progress:
  assumes wf: "al_wf hs" and "ok w" "unat i + n = length (al_abs hs)"
  shows "\<exists>w' y'. poll_pass n hasData parse hs i y w = Inr (w', y') \<and> ok w'
    \<and> (w' = w \<and> y' = y \<and> (\<forall>h \<in> set (drop (unat i) (al_abs hs)). \<not> hasData h w)
       \<or> \<not> y' \<and> (\<Sum>g\<in>set (al_abs hs). pending g w') < (\<Sum>g\<in>set (al_abs hs). pending g w))"
  using assms(2,3)
proof (induction n arbitrary: i y w)
  case (Suc n)
  have i: "unat i < length (al_abs hs)" using Suc.prems by simp
  then have "i < al_length hs" using length_al_abs [OF wf] by (simp add: word_less_nat_alt)
  then have i1: "unat (i + 1) = Suc (unat i)" by (rule unat_Suc_u32)
  have d: "drop (unat i) (al_abs hs) = al_abs hs ! unat i # drop (Suc (unat i)) (al_abs hs)"
    using i by (simp add: Cons_nth_drop_Suc)
  let ?h = "al_abs hs ! unat i" and ?total = "\<lambda>w. \<Sum>g\<in>set (al_abs hs). pending g w"
  have get: "ArrayList_get hs i = Inr ?h" using i wf by (simp add: ArrayList_get_abs)
  show ?case
  proof (cases "hasData ?h w")
    case True
    then obtain w1 where w1: "parse ?h w = Inr w1" "ok w1" "pending ?h w1 < pending ?h w"
        "\<And>g. g \<noteq> ?h \<Longrightarrow> pending g w1 = pending g w" using parse_step [OF Suc.prems(1)] by blast
    have "?total w1 < ?total w"
    proof (rule sum_strict_mono_ex1)
      show "\<forall>g\<in>set (al_abs hs). pending g w1 \<le> pending g w" using w1(3,4) by (metis eq_iff less_imp_le)
      show "\<exists>g\<in>set (al_abs hs). pending g w1 < pending g w" using w1(3) nth_mem [OF i] by blast
    qed simp
    moreover obtain w' y' where "poll_pass n hasData parse hs (i + 1) False w1 = Inr (w', y')" "ok w'"
        "w' = w1 \<and> \<not> y' \<or> \<not> y' \<and> ?total w' < ?total w1"
      using Suc.IH [OF w1(2), of "i + 1" False] Suc.prems(2) i1 by auto
    ultimately show ?thesis using True get w1(1) by auto
  next
    case False
    then show ?thesis using Suc.IH [OF Suc.prems(1), of "i + 1" y] Suc.prems(2) i1 d get by auto
  qed
qed simp

text \<open>So the loop ends, and then no device has data left.\<close>

lemma poll_ends:
  assumes "al_wf (interruptHandler m)" "im_lock m = Spinlock_new" "ok w"
  shows "\<exists>w'. InterruptManager_poll hasData parse m w = Some (Inr (m, w')) \<and> ok w'
    \<and> (\<forall>h \<in> set (al_abs (interruptHandler m)). \<not> hasData h w')"
  using assms(3)
proof (induction "\<Sum>g\<in>set (al_abs (interruptHandler m)). pending g w" arbitrary: w rule: less_induct)
  case less
  let ?hs = "interruptHandler m"
  have n: "unat 0 + unat (ArrayList_size ?hs) = length (al_abs ?hs)"
    using length_al_abs [OF assms(1)] by (simp add: ArrayList_size_def)
  have lock: "Spinlock_acquire (im_lock m) = Inr SPINLOCK_LOCK" "m\<lparr>im_lock := Spinlock_release SPINLOCK_LOCK\<rparr> = m"
    using assms(2) acquire_release by simp_all
  obtain w' y where r: "poll_pass (unat (ArrayList_size ?hs)) hasData parse ?hs 0 True w = Inr (w', y)" "ok w'"
      "w' = w \<and> y \<and> (\<forall>h \<in> set (al_abs ?hs). \<not> hasData h w)
       \<or> \<not> y \<and> (\<Sum>g\<in>set (al_abs ?hs). pending g w') < (\<Sum>g\<in>set (al_abs ?hs). pending g w)"
    using poll_pass_progress [OF assms(1) less.prems n, of True] by auto
  have "InterruptManager_poll hasData parse m w =
      (if y then Some (Inr (m, w')) else InterruptManager_poll hasData parse m w')"
    using lock r(1) by (subst InterruptManager_poll.simps) (simp add: Let_def)
  then show ?case using r(2,3) less.hyps [of w'] by auto
qed

end

section \<open>Keyboards as interrupt sources\<close>

lemma keyboard_buffer [simp]:
  "interruptDataBuffer (Keyboard_setLed acks k led on) = interruptDataBuffer k"
  "interruptDataBuffer (set_mod k m p) = interruptDataBuffer k"
  "interruptDataBuffer (Keyboard_removeFromBuffer k sc) = interruptDataBuffer k"
  "interruptDataBuffer (Keyboard_addToBuffer k sc) = interruptDataBuffer k"
  "interruptDataBuffer (decode_break k code) = interruptDataBuffer k"
  by (simp_all add: Keyboard_setLed_def set_mod_def Keyboard_removeFromBuffer_def Keyboard_addToBuffer_def
      decode_break_def Let_def split_beta)

lemma getAsciiCode_buffer:
  "Keyboard_getAsciiCode k code = Inr k' \<Longrightarrow> interruptDataBuffer k' = interruptDataBuffer k"
  by (auto simp: Keyboard_getAsciiCode_def gather_from_def andThen_Inr_iff split: if_splits)

lemma decode_make_buffer:
  "decode_make acks k code = Inr (k', b) \<Longrightarrow> interruptDataBuffer k' = interruptDataBuffer k"
  by (auto simp: decode_make_def toggle_lock_def Let_def andThen_Inr_iff getAsciiCode_buffer split: if_splits)

lemma decodeKey_buffer:
  assumes "Keyboard_decodeKey acks k code = Inr (k', b)"
  shows "interruptDataBuffer k' = interruptDataBuffer k"
proof -
  define k1 where "k1 = (if code AND break_bit \<noteq> 0
      then (let k1 = Keyboard_removeFromBuffer k (ucast (code AND NOT break_bit))
            in k1\<lparr>gather := Key_setPressed (gather k1) False\<rparr>)
      else (let k1 = Keyboard_addToBuffer k (ucast (code AND NOT break_bit))
            in k1\<lparr>gather := Key_setPressed (gather k1) True\<rparr>))"
  have "interruptDataBuffer k1 = interruptDataBuffer k" by (simp add: k1_def Let_def)
  then show ?thesis
    using assms unfolding Keyboard_decodeKey_def Let_def [of "ucast _"] k1_def [symmetric] Let_def [of k1]
    by (auto simp: andThen_Inr_iff decode_make_buffer split: if_splits)
qed

text \<open>A keyboard whose buffer holds codes of keys in the tables only. The driver does not check this: \<open>trigger\<close> pushes any
  byte.\<close>

definition keyboard_ok :: "keyboard \<Rightarrow> bool" where
  "keyboard_ok k \<longleftrightarrow> held_ok k \<and> rb_inv (unat (rb_capacity (interruptDataBuffer k))) (interruptDataBuffer k)
     \<and> list_all known_code (rb_abs (interruptDataBuffer k))"

lemma rb_size_abs: "length (rb_abs r) = unat (rb_size r)"
  by (simp add: rb_abs_def)

lemma parse_ok:
  assumes "keyboard_ok k" "Keyboard_hasInterruptData k"
  shows "\<exists>k' out. Keyboard_parseInterruptData acks k = Inr (k', out) \<and> keyboard_ok k'
    \<and> Suc (unat (rb_size (interruptDataBuffer k'))) = unat (rb_size (interruptDataBuffer k))"
proof -
  let ?b = "interruptDataBuffer k"
  have "rb_abs ?b \<noteq> []" using assms(2) rb_size_abs [of ?b]
    by (auto simp: Keyboard_hasInterruptData_def RingBuffer_isEmpty_def u32_eq_iff)
  then obtain c cs where c: "rb_abs ?b = c # cs" by (cases "rb_abs ?b") auto
  obtain b where b: "RingBuffer_pop ?b = Inr (b, c)" "rb_inv (unat (rb_capacity ?b)) b" "rb_abs b = cs"
    using RingBuffer_pop_abs [OF _ c] assms(1) by (auto simp: keyboard_ok_def)
  have "held_ok (k\<lparr>interruptDataBuffer := b\<rparr>)" using assms(1) by (simp add: keyboard_ok_def held_ok_def)
  moreover have "known_code c" using assms(1) c by (simp add: keyboard_ok_def)
  ultimately obtain k' complete where k': "Keyboard_decodeKey acks (k\<lparr>interruptDataBuffer := b\<rparr>) c = Inr (k', complete)"
      "held_ok k'" using decodeKey_ok by blast
  then have buf: "interruptDataBuffer k' = b" using decodeKey_buffer by fastforce
  then have "keyboard_ok k'" using b k'(2) assms(1) c by (simp add: keyboard_ok_def rb_inv_def)
  moreover have "\<exists>out. Keyboard_parseInterruptData acks k = Inr (k', out)"
    using b(1) k'(1) by (simp add: Keyboard_parseInterruptData_def Let_def)
  ultimately show ?thesis using rb_size_abs [of ?b] rb_size_abs [of b] b(3) c buf by auto
qed

text \<open>Keyboards at their addresses, with the key events and reboots they ask for.\<close>

type_synonym keyboards = "(u32 \<Rightarrow> keyboard) \<times> keyboard_action list"

definition keyboards_hasData :: "u32 \<Rightarrow> keyboards \<Rightarrow> bool" where
  "keyboards_hasData h w = Keyboard_hasInterruptData (fst w h)"

definition keyboards_parse :: "bool \<Rightarrow> u32 \<Rightarrow> keyboards \<Rightarrow> keyboards outcome" where
  "keyboards_parse acks h w =
     andThen (Keyboard_parseInterruptData acks (fst w h)) (\<lambda>(k, out). Inr ((fst w)(h := k), snd w @ out))"

interpretation kbd: interrupt_source "\<lambda>w. \<forall>h. keyboard_ok (fst w h)" keyboards_hasData "keyboards_parse acks"
    "\<lambda>h w. unat (rb_size (interruptDataBuffer (fst w h)))" for acks
proof unfold_locales
  fix h :: u32 and w :: keyboards
  assume w: "\<forall>h. keyboard_ok (fst w h)" "keyboards_hasData h w"
  then obtain k out where k: "Keyboard_parseInterruptData acks (fst w h) = Inr (k, out)" "keyboard_ok k"
      "Suc (unat (rb_size (interruptDataBuffer k))) = unat (rb_size (interruptDataBuffer (fst w h)))"
    using parse_ok [of "fst w h" acks] by (auto simp: keyboards_hasData_def)
  define w' where "w' = ((fst w)(h := k), snd w @ out)"
  have "keyboards_parse acks h w = Inr w'" using k(1) by (simp add: keyboards_parse_def w'_def)
  moreover have "\<forall>h. keyboard_ok (fst w' h)" using w(1) k(2) by (simp add: w'_def)
  moreover have "unat (rb_size (interruptDataBuffer (fst w' h))) < unat (rb_size (interruptDataBuffer (fst w h)))"
    using k(3) by (simp add: w'_def)
  moreover have "\<forall>g. g \<noteq> h \<longrightarrow> unat (rb_size (interruptDataBuffer (fst w' g))) = unat (rb_size (interruptDataBuffer (fst w g)))"
    by (simp add: w'_def)
  ultimately show "\<exists>w'. keyboards_parse acks h w = Inr w' \<and> (\<forall>h. keyboard_ok (fst w' h))
      \<and> unat (rb_size (interruptDataBuffer (fst w' h))) < unat (rb_size (interruptDataBuffer (fst w h)))
      \<and> (\<forall>g. g \<noteq> h \<longrightarrow> unat (rb_size (interruptDataBuffer (fst w' g))) = unat (rb_size (interruptDataBuffer (fst w g))))"
    by blast
qed

section \<open>Properties\<close>

text \<open>C16. Whatever devices register, an interrupt of a device or a system call (numbers 32 to 199) runs the handlers
  registered for it, each one as often and in the order it was registered, and no other; the first fault of a handler
  ends it. Without a handler the dispatcher raises an exception. Afterwards every number above 32 is acknowledged at
  the first controller and the numbers from 40 also at the second, system calls included; the timer (32) is not
  acknowledged; the masks of the controllers stay as they are. Number 39 is meant with its bit set in the in-service
  register, otherwise it is spurious.\<close>

theorem dispatch_runs_handlers:
  assumes "length regs < 2147483648"
    and "ucast (fr_interrupt frame) = nr" "32 \<le> nr" "nr < 200" "nr \<noteq> 39 \<or> isr AND 0x80 \<noteq> 0"
  shows "\<exists>(d :: ('h, 'f) dispatcher) d1.
    andThen (InterruptDispatcher_new nil systemCall) (\<lambda>d. assign_all nil d regs) = Inr d
    \<and> (let hs = registered nr ((0x80, systemCall) # regs)
       in InterruptDispatcher_dispatch trigger gdb gdbHandle isr d c w frame =
            (if hs = [] then Inl (Thrown ILLEGAL_STATE)
             else andThen (run_all (\<lambda>h. trigger h frame) hs w) (\<lambda>w'.
                  Inr (Handled (d1, c\<lparr>pic1_command := pic1_command c @ (if nr = 39 then [0x0B] else []) @ (if nr > 32 then [0x20] else []),
                         pic2_command := pic2_command c @ (if nr \<ge> 40 then [0x20] else [])\<rparr>, w'))))
          \<and> lm_abs ucast (handlers d1) = lm_abs ucast (handlers d))"
proof -
  obtain d0 :: "('h, 'f) dispatcher" where d0: "InterruptDispatcher_new nil systemCall = Inr d0" "lm_inv ucast (handlers d0)"
      "lm_abs ucast (handlers d0) = (\<lambda>k. registered k [(0x80, systemCall)])"
    using InterruptDispatcher_new_abs [of nil systemCall] by (elim exE conjE)
  have len: "length (lm_abs ucast (handlers d0) k) + length regs \<le> 2147483648" for k
  proof -
    have "length (lm_abs ucast (handlers d0) k) \<le> 1"
      unfolding d0(3) using registered_length [of k "[(0x80, systemCall)]"] by simp
    then show ?thesis using assms(1) by linarith
  qed
  have reg: "registered k [(0x80, systemCall)] @ registered k regs = registered k ((0x80, systemCall) # regs)" for k
    by (simp add: registered_def)
  obtain d where d: "assign_all nil d0 regs = Inr d" "lm_inv ucast (handlers d)"
      "lm_abs ucast (handlers d) = (\<lambda>k. registered k ((0x80, systemCall) # regs))"
    using assign_all_abs [OF d0(2) len, of nil] unfolding d0(3) reg by blast
  have "lm_abs ucast (handlers d) 0x80 \<noteq> []" using d(3) by (simp add: registered_def)
  from dispatch_eq [OF d(2) this assms(2-5), of trigger gdb gdbHandle c w] obtain d1
    where d1: "lm_abs ucast (handlers d1) = lm_abs ucast (handlers d)"
      "InterruptDispatcher_dispatch trigger gdb gdbHandle isr d c w frame =
        (if registered nr ((0x80, systemCall) # regs) = [] then Inl (Thrown ILLEGAL_STATE)
         else andThen (run_all (\<lambda>h. trigger h frame) (registered nr ((0x80, systemCall) # regs)) w) (\<lambda>w'.
              Inr (Handled (d1, c\<lparr>pic1_command := pic1_command c @ (if nr = 39 then [0x0B] else []) @ (if nr > 32 then [0x20] else []),
                     pic2_command := pic2_command c @ (if nr \<ge> 40 then [0x20] else [])\<rparr>, w'))))"
    unfolding d(3) by blast
  have "andThen (InterruptDispatcher_new nil systemCall) (\<lambda>d. assign_all nil d regs) = Inr d"
    using d0(1) d(1) by simp
  then show ?thesis unfolding Let_def using d1 by blast
qed

text \<open>Keyboard (33) with two handlers, real-time clock (40) with one; the world is the list of the handlers that ran.\<close>

theorem dispatch_runs_handlers_witness:
  "\<exists>(d :: (nat, unit) dispatcher) d1.
     andThen (InterruptDispatcher_new 0 1) (\<lambda>d. assign_all 0 d [(33, 5), (40, 6), (33, 7)]) = Inr d
     \<and> InterruptDispatcher_dispatch (\<lambda>h frame w. Inr (w @ [h])) False (\<lambda>frame w. w) 0 d
         \<lparr>pic1_data = 0xFB, pic2_data = 0xFF, pic1_command = [], pic2_command = []\<rparr> []
         \<lparr>fr_ebx = 0, fr_ecx = 0, fr_eax = 0, fr_interrupt = 33\<rparr> =
        Inr (Handled (d1, \<lparr>pic1_data = 0xFB, pic2_data = 0xFF, pic1_command = [0x20], pic2_command = []\<rparr>, [5, 7]))"
proof -
  let ?frame = "\<lparr>fr_ebx = 0, fr_ecx = 0, fr_eax = 0, fr_interrupt = 33\<rparr>"
  let ?c = "\<lparr>pic1_data = 0xFB, pic2_data = 0xFF, pic1_command = [], pic2_command = []\<rparr>"
  have nr: "ucast (fr_interrupt ?frame) = (33 :: u8)" "(32 :: u8) \<le> 33" "(33 :: u8) < 200"
    "(33 :: u8) \<noteq> 39 \<or> (0 :: u8) AND 0x80 \<noteq> 0"
    by simp_all
  have hs: "registered 33 ((0x80, 1) # [(33, 5), (40, 6), (33, 7)]) = [5, 7 :: nat]" by (simp add: registered_def)
  have len: "length [(33 :: u8, 5 :: nat), (40, 6), (33, 7)] < 2147483648" by simp
  from dispatch_runs_handlers [where 'f = unit, OF len nr, of 0 1 "\<lambda>h frame w. Inr (w @ [h])" False "\<lambda>frame w. w" ?c "[]"]
  obtain d d1 :: "(nat, unit) dispatcher" where
    "andThen (InterruptDispatcher_new 0 1) (\<lambda>d. assign_all 0 d [(33, 5), (40, 6), (33, 7)]) = Inr d"
    "InterruptDispatcher_dispatch (\<lambda>h frame w. Inr (w @ [h])) False (\<lambda>frame w. w) 0 d ?c [] ?frame =
       Inr (Handled (d1, \<lparr>pic1_data = 0xFB, pic2_data = 0xFF, pic1_command = [0x20], pic2_command = []\<rparr>, [5, 7]))"
    unfolding hs by (elim exE) (simp add: Let_def)
  then show ?thesis by (intro exI conjI)
qed

text \<open>C17. The thread that polls the devices comes to its \<open>yield\<close>: for any number of keyboards, if only scan codes of
  keys in the tables wait in their buffers, however many, and no new ones arrive meanwhile, its loop ends without
  a fault, with its lock free and no code left in a buffer. (A code behind the tables makes the decoder fault.)\<close>

theorem poll_drains_keyboards:
  assumes "al_wf (interruptHandler m)" "im_lock m = Spinlock_new" "\<forall>h. keyboard_ok (fst w h)"
  shows "\<exists>w'. InterruptManager_poll keyboards_hasData (keyboards_parse acks) m w = Some (Inr (m, w'))
    \<and> (\<forall>h. keyboard_ok (fst w' h))
    \<and> list_all (\<lambda>h. \<not> Keyboard_hasInterruptData (fst w' h)) (al_abs (interruptHandler m))"
  using kbd.poll_ends [OF assms, of acks] by (auto simp: keyboards_hasData_def list_all_iff)

text \<open>Two codes wait in the buffer of every keyboard, and the one at 0x1000 is registered.\<close>

definition waiting_keyboard :: keyboard where
  "waiting_keyboard = demo_keyboard\<lparr>interruptDataBuffer :=
     \<lparr>rb_buffer = \<lparr>arr_array = [30, 0x9E, 0, 0], arr_capacity = 4\<rparr>, rb_capacity = 4, rb_readIndex = 0, rb_writeIndex = 2, rb_size = 2\<rparr>\<rparr>"

definition demo_manager :: "u32 interrupt_manager" where
  "demo_manager = \<lparr>interruptHandler = \<lparr>al_elements = [0x1000], al_capacity = 1, al_length = 1\<rparr>, im_lock = Spinlock_new\<rparr>"

theorem poll_drains_keyboards_witness:
  "Keyboard_hasInterruptData waiting_keyboard
   \<and> (\<exists>w'. InterruptManager_poll keyboards_hasData (keyboards_parse True) demo_manager (\<lambda>h. waiting_keyboard, []) =
             Some (Inr (demo_manager, w')) \<and> \<not> Keyboard_hasInterruptData (fst w' 0x1000))"
proof -
  have abs: "rb_abs (interruptDataBuffer waiting_keyboard) = [30, 0x9E]"
    by (simp add: rb_abs_def waiting_keyboard_def upt_rec)
  have "known_code 30" "known_code 0x9E" by (simp_all add: known_code_def word_less_nat_alt)
  then have "list_all known_code (rb_abs (interruptDataBuffer waiting_keyboard))" by (simp add: abs)
  moreover have "held_ok waiting_keyboard" by (simp add: held_ok_def waiting_keyboard_def demo_keyboard_def)
  moreover have "rb_inv (unat (rb_capacity (interruptDataBuffer waiting_keyboard))) (interruptDataBuffer waiting_keyboard)"
    by (simp add: rb_inv_def array_wf_def waiting_keyboard_def)
  ultimately have "\<forall>h. keyboard_ok (fst (\<lambda>h :: u32. waiting_keyboard, [] :: keyboard_action list) h)"
    by (simp add: keyboard_ok_def)
  moreover have "al_wf (interruptHandler demo_manager)" "im_lock demo_manager = Spinlock_new"
    "al_abs (interruptHandler demo_manager) = [0x1000]"
    by (simp_all add: demo_manager_def al_wf_def al_abs_def)
  moreover have "Keyboard_hasInterruptData waiting_keyboard"
    by (simp add: Keyboard_hasInterruptData_def RingBuffer_isEmpty_def waiting_keyboard_def)
  ultimately show ?thesis
    using poll_drains_keyboards [of demo_manager "(\<lambda>h. waiting_keyboard, [])" True] by auto
qed

end
