(* ===== verification/Storage_Devices.thy ===== *)
theory Storage_Devices
  imports Spinlocks C_Strings
begin

text \<open>Block devices (\<open>device/storage/device\<close>): the virtual interface of \<open>StorageDevice\<close>, the RAM disk \<open>VirtualDiskDrive\<close>, and
  \<open>Partition\<close>, a device inside another one. A buffer is the list of its bytes. \<open>read\<close> returns \<open>None\<close> where the
  code returns \<open>false\<close>, \<open>write\<close> likewise.\<close>

unbundle bit_operations_syntax

section \<open>The virtual interface\<close>

record 'd device_ops =
  getSectorSize :: "'d \<Rightarrow> u32"
  dev_read :: "'d \<Rightarrow> u32 \<Rightarrow> u32 \<Rightarrow> u8 list option outcome"
  dev_write :: "'d \<Rightarrow> u8 list \<Rightarrow> u32 \<Rightarrow> u32 \<Rightarrow> 'd option outcome"

text \<open>A copy of \<open>n\<close> bytes out of and into a buffer, from offset \<open>i\<close> on.\<close>

definition bytes_from :: "u8 list \<Rightarrow> nat \<Rightarrow> nat \<Rightarrow> u8 list outcome" where
  "bytes_from bs i n = (if i + n \<le> length bs then Inr (take n (drop i bs)) else Inl BadAccess)"

definition bytes_into :: "u8 list \<Rightarrow> nat \<Rightarrow> u8 list \<Rightarrow> u8 list outcome" where
  "bytes_into bs i xs =
     (if i + length xs \<le> length bs then Inr (take i bs @ xs @ drop (i + length xs) bs) else Inl BadAccess)"

lemma slice_same:
  "i + length xs \<le> length bs \<Longrightarrow> take (length xs) (drop i (take i bs @ xs @ drop (i + length xs) bs)) = xs"
  by simp

lemma slice_other:
  assumes "i + length xs \<le> length bs" "j + n \<le> i \<or> i + length xs \<le> j"
  shows "take n (drop j (take i bs @ xs @ drop (i + length xs) bs)) = take n (drop j bs)"
proof -
  have "drop j (take i bs @ xs @ drop (i + length xs) bs) = drop j bs" if "i + length xs \<le> j"
  proof -
    have "drop (j - (i + length xs)) (drop (i + length xs) bs) = drop j bs" using that by simp
    then show ?thesis using that assms(1) by (simp add: drop_append)
  qed
  moreover have "take n (drop j (take i bs @ r)) = take n (drop j bs)" if "j + n \<le> i" for r
    using that assms(1) by (intro nth_equalityI) (auto simp: nth_append)
  ultimately show ?thesis using assms(2) by metis
qed

section \<open>VirtualDiskDrive\<close>

record virtual_disk =
  vdd_sectorSize :: u32
  vdd_sectorCount :: u32
  vdd_buffer :: "u8 list"

text \<open>The constructor corrects its parameter, not the member. \<open>fill\<close> is the content of fresh memory.\<close>

definition VirtualDiskDrive_new :: "u8 \<Rightarrow> u32 \<Rightarrow> u32 \<Rightarrow> virtual_disk" where
  "VirtualDiskDrive_new fill sectorSize sectorCount =
     (let size' = (if sectorSize < 512 then 512 else sectorSize)
      in \<lparr>vdd_sectorSize = sectorSize, vdd_sectorCount = sectorCount,
          vdd_buffer = replicate (unat (sectorCount * size')) fill\<rparr>)"

definition VirtualDiskDrive_getSectorSize :: "virtual_disk \<Rightarrow> u32" where
  "VirtualDiskDrive_getSectorSize d = vdd_sectorSize d"

definition VirtualDiskDrive_getSectorCount :: "virtual_disk \<Rightarrow> u64" where
  "VirtualDiskDrive_getSectorCount d = ucast (vdd_sectorCount d)"

definition VirtualDiskDrive_read :: "virtual_disk \<Rightarrow> u32 \<Rightarrow> u32 \<Rightarrow> u8 list option outcome" where
  "VirtualDiskDrive_read d sector count =
     (if sector + count > vdd_sectorCount d then Inr None
      else andThen (bytes_from (vdd_buffer d) (unat (sector * vdd_sectorSize d)) (unat (count * vdd_sectorSize d)))
             (\<lambda>bs. Inr (Some bs)))"

definition VirtualDiskDrive_write :: "virtual_disk \<Rightarrow> u8 list \<Rightarrow> u32 \<Rightarrow> u32 \<Rightarrow> virtual_disk option outcome" where
  "VirtualDiskDrive_write d buff sector count =
     (if sector + count > vdd_sectorCount d then Inr None
      else andThen (bytes_from buff 0 (unat (count * vdd_sectorSize d))) (\<lambda>bs.
           andThen (bytes_into (vdd_buffer d) (unat (sector * vdd_sectorSize d)) bs) (\<lambda>buffer.
           Inr (Some (d\<lparr>vdd_buffer := buffer\<rparr>)))))"

definition virtual_disk_ops :: "virtual_disk device_ops" where
  "virtual_disk_ops = \<lparr>getSectorSize = VirtualDiskDrive_getSectorSize, dev_read = VirtualDiskDrive_read,
     dev_write = VirtualDiskDrive_write\<rparr>"

section \<open>Partition\<close>

record partition =
  pt_startSector :: u32
  pt_sectorCount :: u32
  pt_systemId :: u8

definition Partition_getSystemId :: "partition \<Rightarrow> u8" where
  "Partition_getSystemId p = pt_systemId p"

definition Partition_getSectorCount :: "partition \<Rightarrow> u64" where
  "Partition_getSectorCount p = ucast (pt_sectorCount p)"

definition Partition_getSectorSize :: "'d device_ops \<Rightarrow> 'd \<Rightarrow> u32" where
  "Partition_getSectorSize ops d = getSectorSize ops d"

text \<open>The state of a partition is that of its parent device.\<close>

definition Partition_read :: "'d device_ops \<Rightarrow> partition \<Rightarrow> 'd \<Rightarrow> u32 \<Rightarrow> u32 \<Rightarrow> u8 list option outcome" where
  "Partition_read ops p d sector count =
     (if count > pt_sectorCount p then Inr None else dev_read ops d (pt_startSector p + sector) count)"

definition Partition_write :: "'d device_ops \<Rightarrow> partition \<Rightarrow> 'd \<Rightarrow> u8 list \<Rightarrow> u32 \<Rightarrow> u32 \<Rightarrow> 'd option outcome" where
  "Partition_write ops p d buff sector count =
     (if count > pt_sectorCount p then Inr None else dev_write ops d buff (pt_startSector p + sector) count)"

definition partition_ops :: "'d device_ops \<Rightarrow> partition \<Rightarrow> 'd device_ops" where
  "partition_ops ops p = \<lparr>getSectorSize = Partition_getSectorSize ops, dev_read = Partition_read ops p,
     dev_write = Partition_write ops p\<rparr>"

section \<open>The contract of a device\<close>

text \<open>What the code that reads and writes single sectors relies on: \<open>exists d s\<close> says that the device has the sector, and
  \<open>content d s\<close> is what it holds.\<close>

locale sector_device =
  fixes ops :: "'d device_ops"
    and inv :: "'d \<Rightarrow> bool"
    and has :: "'d \<Rightarrow> u32 \<Rightarrow> bool"
    and content :: "'d \<Rightarrow> u32 \<Rightarrow> u8 list"
  assumes size_content: "inv d \<Longrightarrow> has d s \<Longrightarrow> length (content d s) = unat (getSectorSize ops d)"
    and read_content: "inv d \<Longrightarrow> has d s \<Longrightarrow> dev_read ops d s 1 = Inr (Some (content d s))"
    and write_content: "inv d \<Longrightarrow> has d s \<Longrightarrow> length b = unat (getSectorSize ops d)
      \<Longrightarrow> \<exists>d'. dev_write ops d b s 1 = Inr (Some d') \<and> inv d' \<and> has d' = has d \<and> content d' = (content d)(s := b)
            \<and> getSectorSize ops d' = getSectorSize ops d"
begin

text \<open>A sector that was written is read back, every other one is as before.\<close>

lemma write_read:
  assumes "inv d" "has d s" "has d t" "length b = unat (getSectorSize ops d)"
  shows "\<exists>d'. dev_write ops d b s 1 = Inr (Some d')
           \<and> dev_read ops d' t 1 = (if t = s then Inr (Some b) else dev_read ops d t 1)"
proof -
  obtain d' where "dev_write ops d b s 1 = Inr (Some d')" "inv d'" "has d' = has d" "content d' = (content d)(s := b)"
    using write_content [OF assms(1,2,4)] by blast
  then show ?thesis using read_content [of d' t] read_content [OF assms(1,3)] assms(3) by auto
qed

text \<open>A partition of a device is a device again.\<close>

lemma partition_is_device:
  "sector_device (partition_ops ops p) inv (\<lambda>d s. 1 \<le> pt_sectorCount p \<and> has d (pt_startSector p + s))
     (\<lambda>d s. content d (pt_startSector p + s))"
proof
  fix d s
  assume d: "inv d" and s: "1 \<le> pt_sectorCount p \<and> has d (pt_startSector p + s)"
  have "pt_sectorCount p \<noteq> 0" using s by auto
  note defs = partition_ops_def Partition_read_def Partition_write_def Partition_getSectorSize_def this
  show "length (content d (pt_startSector p + s)) = unat (getSectorSize (partition_ops ops p) d)"
    using size_content d s by (simp add: defs)
  show "dev_read (partition_ops ops p) d s 1 = Inr (Some (content d (pt_startSector p + s)))"
    using read_content d s by (simp add: defs)
  fix b :: "u8 list"
  assume "length b = unat (getSectorSize (partition_ops ops p) d)"
  then obtain d' where d': "dev_write ops d b (pt_startSector p + s) 1 = Inr (Some d')" "inv d'" "has d' = has d"
      "content d' = (content d)(pt_startSector p + s := b)" "getSectorSize ops d' = getSectorSize ops d"
    using write_content [OF d, of "pt_startSector p + s" b] s by (auto simp: defs)
  then show "\<exists>d'. dev_write (partition_ops ops p) d b s 1 = Inr (Some d') \<and> inv d'
      \<and> (\<lambda>s. 1 \<le> pt_sectorCount p \<and> has d' (pt_startSector p + s)) = (\<lambda>s. 1 \<le> pt_sectorCount p \<and> has d (pt_startSector p + s))
      \<and> (\<lambda>s. content d' (pt_startSector p + s)) = (\<lambda>s. content d (pt_startSector p + s))(s := b)
      \<and> getSectorSize (partition_ops ops p) d' = getSectorSize (partition_ops ops p) d"
    by (intro exI [of _ d']) (auto simp: defs fun_eq_iff)
qed

end

section \<open>The RAM disk as a device\<close>

definition vdd_inv :: "virtual_disk \<Rightarrow> bool" where
  "vdd_inv d \<longleftrightarrow> length (vdd_buffer d) = unat (vdd_sectorCount d) * unat (vdd_sectorSize d)
     \<and> unat (vdd_sectorCount d) * unat (vdd_sectorSize d) < 4294967296"

definition vdd_has :: "virtual_disk \<Rightarrow> u32 \<Rightarrow> bool" where
  "vdd_has d s \<longleftrightarrow> s < vdd_sectorCount d"

definition vdd_content :: "virtual_disk \<Rightarrow> u32 \<Rightarrow> u8 list" where
  "vdd_content d s = take (unat (vdd_sectorSize d)) (drop (unat s * unat (vdd_sectorSize d)) (vdd_buffer d))"

lemma vdd_sector:
  assumes "vdd_inv d" "vdd_has d s"
  shows "\<not> s + 1 > vdd_sectorCount d" "unat (s * vdd_sectorSize d) = unat s * unat (vdd_sectorSize d)"
    "unat s * unat (vdd_sectorSize d) + unat (vdd_sectorSize d) \<le> length (vdd_buffer d)"
proof -
  have s: "unat s < unat (vdd_sectorCount d)" using assms(2) by (simp add: vdd_has_def word_less_nat_alt)
  then have "(unat s + 1) * unat (vdd_sectorSize d) \<le> unat (vdd_sectorCount d) * unat (vdd_sectorSize d)"
    by (intro mult_le_mono1) simp
  then show "unat s * unat (vdd_sectorSize d) + unat (vdd_sectorSize d) \<le> length (vdd_buffer d)"
    using assms(1) by (simp add: vdd_inv_def)
  then show "unat (s * vdd_sectorSize d) = unat s * unat (vdd_sectorSize d)"
    using assms(1) by (intro unat_mult_u32) (simp add: vdd_inv_def)
  have "unat (s + 1) = Suc (unat s)" using assms(2) unat_Suc_u32 by (auto simp: vdd_has_def)
  then show "\<not> s + 1 > vdd_sectorCount d" using s by (simp add: word_less_nat_alt)
qed

interpretation vdd: sector_device virtual_disk_ops vdd_inv vdd_has vdd_content
proof
  fix d s
  assume d: "vdd_inv d" "vdd_has d s"
  let ?n = "unat (vdd_sectorSize d)"
  note sec = vdd_sector [OF d]
  note defs = virtual_disk_ops_def VirtualDiskDrive_getSectorSize_def VirtualDiskDrive_read_def VirtualDiskDrive_write_def
    bytes_from_def bytes_into_def
  show "length (vdd_content d s) = unat (getSectorSize virtual_disk_ops d)"
    using sec(3) by (simp add: vdd_content_def defs)
  show "dev_read virtual_disk_ops d s 1 = Inr (Some (vdd_content d s))"
    using sec by (simp add: vdd_content_def defs)
  fix b :: "u8 list"
  assume b: "length b = unat (getSectorSize virtual_disk_ops d)"
  then have n: "length b = ?n" by (simp add: defs)
  define d' where "d' = d\<lparr>vdd_buffer := take (unat s * ?n) (vdd_buffer d) @ b @ drop (unat s * ?n + ?n) (vdd_buffer d)\<rparr>"
  have "dev_write virtual_disk_ops d b s 1 = Inr (Some d')" using sec n by (simp add: defs d'_def)
  moreover have "vdd_inv d'" using d(1) sec(3) n by (simp add: vdd_inv_def d'_def)
  moreover have "vdd_content d' t = ((vdd_content d)(s := b)) t" for t
  proof (cases "vdd_has d t")
    case True
    have "unat t * ?n + ?n \<le> unat s * ?n \<or> unat s * ?n + ?n \<le> unat t * ?n \<or> t = s"
    proof (cases "unat s" "unat t" rule: linorder_cases)
      case less
      then have "(unat s + 1) * ?n \<le> unat t * ?n" by (intro mult_le_mono1) simp
      then show ?thesis by simp
    next
      case greater
      then have "(unat t + 1) * ?n \<le> unat s * ?n" by (intro mult_le_mono1) simp
      then show ?thesis by simp
    qed (simp add: u32_eq_iff)
    then show ?thesis
      using slice_other [of "unat s * ?n" b "vdd_buffer d" "unat t * ?n" ?n] slice_same [of "unat s * ?n" b "vdd_buffer d"] sec(3) n
      by (auto simp: vdd_content_def d'_def)
  next
    case False
    have "s \<noteq> t" using False d(2) by auto
    moreover have t: "unat (vdd_sectorCount d) \<le> unat t" using False by (simp add: vdd_has_def word_le_nat_alt not_less)
    moreover have "unat s < unat (vdd_sectorCount d)" using d(2) by (simp add: vdd_has_def word_less_nat_alt)
    moreover have "length (vdd_buffer d) \<le> unat t * ?n" using t d(1) by (simp add: vdd_inv_def)
    ultimately show ?thesis using sec(3) n by (simp add: vdd_content_def d'_def)
  qed
  ultimately show "\<exists>d'. dev_write virtual_disk_ops d b s 1 = Inr (Some d') \<and> vdd_inv d' \<and> vdd_has d' = vdd_has d
      \<and> vdd_content d' = (vdd_content d)(s := b) \<and> getSectorSize virtual_disk_ops d' = getSectorSize virtual_disk_ops d"
    by (intro exI [of _ d']) (auto simp: d'_def vdd_has_def fun_eq_iff defs)
qed

interpretation vpart: sector_device "partition_ops virtual_disk_ops p" vdd_inv
    "\<lambda>d s. 1 \<le> pt_sectorCount p \<and> vdd_has d (pt_startSector p + s)" "\<lambda>d s. vdd_content d (pt_startSector p + s)" for p
  by (rule vdd.partition_is_device)

end
