(* ===== verification/Partition_Tables.thy ===== *)
theory Partition_Tables
  imports Storage_Devices
begin

text \<open>The partition table of a block device (\<open>StorageDevice.cpp\<close>): reading it, writing and deleting an entry. Primary
  partitions are the four entries in sector 0; logical partitions form a list of sectors inside an extended
  partition, in which the first entry describes the partition and the second one points to the next sector.

  \<open>ops\<close> are the virtual methods of the device. \<open>stale\<close> is the content of a buffer on the stack that was not written
  yet. \<open>fmt\<close> makes the name of a partition from the name of the device and a number (\<open>String::format\<close>). The
  calls of \<open>StorageService\<close> are kept in order. Names and the \<open>ArrayList\<close> of partitions appear as the lists they contain.\<close>

unbundle bit_operations_syntax

section \<open>Entries of a table\<close>

record partition_entry =
  active_flag :: u8
  start_head :: u8
  start_sector_cylinder :: u16
  system_id :: u8
  end_head :: u8
  end_sector_cylinder :: u16
  relative_sector :: u32
  sector_count :: u32

definition word16 :: "u8 \<Rightarrow> u8 \<Rightarrow> u16" where
  "word16 a b = ucast a OR push_bit 8 (ucast b)"

definition word32 :: "u8 \<Rightarrow> u8 \<Rightarrow> u8 \<Rightarrow> u8 \<Rightarrow> u32" where
  "word32 a b c d = ucast a OR push_bit 8 (ucast b) OR push_bit 16 (ucast c) OR push_bit 24 (ucast d)"

definition bytes16 :: "u16 \<Rightarrow> u8 list" where
  "bytes16 v = [ucast v, ucast (drop_bit 8 v)]"

definition bytes32 :: "u32 \<Rightarrow> u8 list" where
  "bytes32 v = [ucast v, ucast (drop_bit 8 v), ucast (drop_bit 16 v), ucast (drop_bit 24 v)]"

text \<open>The packed structure in memory.\<close>

definition entry_bytes :: "partition_entry \<Rightarrow> u8 list" where
  "entry_bytes e = [active_flag e, start_head e] @ bytes16 (start_sector_cylinder e) @ [system_id e, end_head e]
     @ bytes16 (end_sector_cylinder e) @ bytes32 (relative_sector e) @ bytes32 (sector_count e)"

definition entry_of :: "u8 list \<Rightarrow> partition_entry" where
  "entry_of b = \<lparr>active_flag = b ! 0, start_head = b ! 1, start_sector_cylinder = word16 (b ! 2) (b ! 3),
     system_id = b ! 4, end_head = b ! 5, end_sector_cylinder = word16 (b ! 6) (b ! 7),
     relative_sector = word32 (b ! 8) (b ! 9) (b ! 10) (b ! 11),
     sector_count = word32 (b ! 12) (b ! 13) (b ! 14) (b ! 15)\<rparr>"

definition get_entry :: "u8 list \<Rightarrow> nat \<Rightarrow> partition_entry outcome" where
  "get_entry mbr offset = andThen (bytes_from mbr offset 16) (\<lambda>b. Inr (entry_of b))"

definition put_entry :: "u8 list \<Rightarrow> nat \<Rightarrow> partition_entry \<Rightarrow> u8 list outcome" where
  "put_entry mbr offset e = bytes_into mbr offset (entry_bytes e)"

definition get_signature :: "u8 list \<Rightarrow> u16 outcome" where
  "get_signature mbr = andThen (bytes_from mbr 510 2) (\<lambda>b. Inr (word16 (b ! 0) (b ! 1)))"

definition put_signature :: "u8 list \<Rightarrow> u8 list outcome" where
  "put_signature mbr = bytes_into mbr 510 (bytes16 0xAA55)"

abbreviation (input) table_start :: nat where "table_start \<equiv> 0x1BE"
abbreviation (input) EMPTY :: u8 where "EMPTY \<equiv> 0"
abbreviation (input) EXTENDED_PARTITION :: u8 where "EXTENDED_PARTITION \<equiv> 0x05"
abbreviation (input) EXTENDED_PARTITION_LBA :: u8 where "EXTENDED_PARTITION_LBA \<equiv> 0x0F"

definition is_extended :: "u8 \<Rightarrow> bool" where
  "is_extended i \<longleftrightarrow> i = EXTENDED_PARTITION \<or> i = EXTENDED_PARTITION_LBA"

definition empty_entry :: partition_entry where
  "empty_entry = \<lparr>active_flag = 0, start_head = 0, start_sector_cylinder = 0, system_id = 0, end_head = 0,
     end_sector_cylinder = 0, relative_sector = 0, sector_count = 0\<rparr>"

section \<open>State\<close>

datatype return_code = SUCCESS | READ_SECTOR_FAILED | WRITE_SECTOR_FAILED | INVALID_MBR_SIGNATURE
  | EXTENDED_PARTITION_NOT_FOUND | UNUSED_PARTITION | NON_EXISTENT_PARITION | DEVICE_NOT_PARTITIONABLE

record partition_info =
  pi_number :: u8
  pi_type :: u8
  pi_active :: bool
  pi_systemId :: u8
  pi_startSector :: u32
  pi_sectorCount :: u32

datatype storage_call = RegisterDevice "u8 list" partition | RemoveDevice "u8 list"

record 'd storage_device =
  sd_name :: "u8 list"
  sd_disk :: 'd
  partitionList :: "partition_info list"
  partLock :: u8
  sd_calls :: "storage_call list"

definition StorageDevice_new :: "u8 list \<Rightarrow> 'd \<Rightarrow> 'd storage_device" where
  "StorageDevice_new name disk =
     \<lparr>sd_name = name, sd_disk = disk, partitionList = [], partLock = Spinlock_new, sd_calls = []\<rparr>"

definition info_of :: "u8 \<Rightarrow> u8 \<Rightarrow> partition_entry \<Rightarrow> u32 \<Rightarrow> partition_info" where
  "info_of n t e start = \<lparr>pi_number = n, pi_type = t, pi_active = (active_flag e = 0x80), pi_systemId = system_id e,
     pi_startSector = start, pi_sectorCount = sector_count e\<rparr>"

section \<open>Reading the table\<close>

text \<open>The two entries in the sector of a logical partition; \<open>None\<close> where the loop over them ends.\<close>

definition read_logical :: "u8 list \<Rightarrow> (partition_entry \<times> partition_entry) option outcome" where
  "read_logical mbr =
     andThen (get_signature mbr) (\<lambda>signature.
     if signature \<noteq> 0xAA55 then Inr None
     else andThen (get_entry mbr table_start) (\<lambda>current.
          andThen (get_entry mbr (table_start + 0x10)) (\<lambda>next'.
          if system_id current = EMPTY then Inr None else Inr (Some (current, next')))))"

text \<open>The loop over the logical partitions, with \<open>None\<close> if it never ends. After a failed read the code goes on
  with the bytes that are in the buffer on its stack; they are the argument \<open>stale\<close>.\<close>

partial_function (option) logical_loop ::
  "'d device_ops \<Rightarrow> u8 list \<Rightarrow> 'd \<Rightarrow> u32 \<Rightarrow> u32 \<Rightarrow> u8 \<Rightarrow> partition_info list \<Rightarrow> partition_info list outcome option" where
  "logical_loop ops stale d base nextLogicalMbr partNumber list =
     (case dev_read ops d nextLogicalMbr 1 of
        Inl e \<Rightarrow> Some (Inl e)
      | Inr r \<Rightarrow>
          (case read_logical (case r of None \<Rightarrow> stale | Some mbr \<Rightarrow> mbr) of
             Inl e \<Rightarrow> Some (Inl e)
           | Inr None \<Rightarrow> Some (Inr list)
           | Inr (Some (current, next')) \<Rightarrow>
               (let list' = list @ [info_of partNumber 0x6C current (nextLogicalMbr + relative_sector current)]
                in if system_id next' = EMPTY then Some (Inr list')
                   else logical_loop ops stale d base (base + relative_sector next') (partNumber + 1) list')))"

declare logical_loop.simps [code]

primrec primary_loop ::
  "'d device_ops \<Rightarrow> u8 list \<Rightarrow> 'd \<Rightarrow> u8 list \<Rightarrow> nat list \<Rightarrow> partition_info list \<Rightarrow> partition_info list outcome option" where
  "primary_loop ops stale d mbr [] list = Some (Inr list)"
| "primary_loop ops stale d mbr (i # is) list =
     (case get_entry mbr (table_start + 0x10 * i) of
        Inl e \<Rightarrow> Some (Inl e)
      | Inr current \<Rightarrow>
          if system_id current = EMPTY then primary_loop ops stale d mbr is list
          else if is_extended (system_id current)
          then (case logical_loop ops stale d (relative_sector current) (relative_sector current) 5
                       (list @ [info_of 5 0x65 current (relative_sector current)]) of
                  None \<Rightarrow> None
                | Some (Inl e) \<Rightarrow> Some (Inl e)
                | Some (Inr list') \<Rightarrow> primary_loop ops stale d mbr is list')
          else primary_loop ops stale d mbr is (list @ [info_of (of_nat i + 1) 0x70 current (relative_sector current)]))"

definition unlock :: "'d storage_device \<Rightarrow> 'd storage_device" where
  "unlock sd = sd\<lparr>partLock := Spinlock_release (partLock sd)\<rparr>"

definition StorageDevice_readPartitionTable ::
  "'d device_ops \<Rightarrow> u8 list \<Rightarrow> 'd storage_device \<Rightarrow> ('d storage_device \<times> partition_info list) outcome option" where
  "StorageDevice_readPartitionTable ops stale sd0 =
     (case Spinlock_acquire (partLock sd0) of
        Inl e \<Rightarrow> Some (Inl e)
      | Inr l \<Rightarrow>
          (let sd = sd0\<lparr>partLock := l, partitionList := []\<rparr>
           in case dev_read ops (sd_disk sd) 0 1 of
                Inl e \<Rightarrow> Some (Inl e)
              | Inr None \<Rightarrow> Some (Inr (unlock sd, []))
              | Inr (Some mbr) \<Rightarrow>
                  (case get_signature mbr of
                     Inl e \<Rightarrow> Some (Inl e)
                   | Inr signature \<Rightarrow>
                       if signature \<noteq> 0xAA55 then Some (Inr (unlock sd, []))
                       else (case primary_loop ops stale (sd_disk sd) mbr [0, 1, 2, 3] [] of
                               None \<Rightarrow> None
                             | Some (Inl e) \<Rightarrow> Some (Inl e)
                             | Some (Inr list) \<Rightarrow> Some (Inr (unlock (sd\<lparr>partitionList := list\<rparr>), list))))))"

section \<open>Helpers of the writing operations\<close>

definition finish :: "'d storage_device \<Rightarrow> return_code \<Rightarrow> ('d storage_device \<times> return_code) outcome" where
  "finish sd code = Inr (unlock sd, code)"

text \<open>\<open>if (!write(buff, sector, 1)) { partLock.release(); return WRITE_SECTOR_FAILED; }\<close>, then the rest.\<close>

definition write_or_fail ::
  "'d device_ops \<Rightarrow> 'd storage_device \<Rightarrow> u8 list \<Rightarrow> u32 \<Rightarrow> ('d storage_device \<Rightarrow> ('d storage_device \<times> return_code) outcome)
     \<Rightarrow> ('d storage_device \<times> return_code) outcome" where
  "write_or_fail ops sd buff sector rest =
     andThen (dev_write ops (sd_disk sd) buff sector 1) (\<lambda>r.
     case r of None \<Rightarrow> finish sd WRITE_SECTOR_FAILED | Some d \<Rightarrow> rest (sd\<lparr>sd_disk := d\<rparr>))"

definition read_or_fail ::
  "'d device_ops \<Rightarrow> 'd storage_device \<Rightarrow> u32 \<Rightarrow> return_code \<Rightarrow> (u8 list \<Rightarrow> ('d storage_device \<times> return_code) outcome)
     \<Rightarrow> ('d storage_device \<times> return_code) outcome" where
  "read_or_fail ops sd sector code rest =
     andThen (dev_read ops (sd_disk sd) sector 1) (\<lambda>r.
     case r of None \<Rightarrow> finish sd code | Some mbr \<Rightarrow> rest mbr)"

definition service_call :: "'d storage_device \<Rightarrow> storage_call \<Rightarrow> 'd storage_device" where
  "service_call sd c = sd\<lparr>sd_calls := sd_calls sd @ [c]\<rparr>"

primrec find_extended :: "u8 list \<Rightarrow> nat list \<Rightarrow> partition_entry option outcome" where
  "find_extended mbr [] = Inr None"
| "find_extended mbr (i # is) =
     andThen (get_entry mbr (table_start + 0x10 * i)) (\<lambda>current.
     if is_extended (system_id current) then Inr (Some current) else find_extended mbr is)"

definition zero_sector :: "'d device_ops \<Rightarrow> 'd storage_device \<Rightarrow> u8 list" where
  "zero_sector ops sd = replicate (unat (getSectorSize ops (sd_disk sd))) 0"

section \<open>Writing an entry\<close>

definition entry_for :: "bool \<Rightarrow> u8 \<Rightarrow> u32 \<Rightarrow> u32 \<Rightarrow> partition_entry" where
  "entry_for active systemId startSector sectorCount =
     \<lparr>active_flag = (if active then 0x80 else 0x00), start_head = 0, start_sector_cylinder = 0, system_id = systemId,
      end_head = 0, end_sector_cylinder = 0, relative_sector = startSector, sector_count = sectorCount\<rparr>"

definition write_primary ::
  "'d device_ops \<Rightarrow> (u8 list \<Rightarrow> u8 \<Rightarrow> u8 list) \<Rightarrow> 'd storage_device \<Rightarrow> u8 list \<Rightarrow> u8 \<Rightarrow> partition_entry
     \<Rightarrow> ('d storage_device \<times> return_code) outcome" where
  "write_primary ops fmt sd mbr partNumber partEntry =
     (let rest = (\<lambda>sd. andThen (put_entry mbr (table_start + 0x10 * (unat partNumber - 1)) partEntry) (\<lambda>mbr'.
            write_or_fail ops sd mbr' 0 (\<lambda>sd.
            finish (service_call sd (RegisterDevice (fmt (sd_name sd) partNumber)
              \<lparr>pt_startSector = relative_sector partEntry, pt_sectorCount = sector_count partEntry,
               pt_systemId = system_id partEntry\<rparr>)) SUCCESS)))
      in if system_id partEntry = 0x05 \<or> system_id partEntry = 0x0F
         then andThen (put_signature (zero_sector ops sd)) (\<lambda>logicalMbr.
              write_or_fail ops sd logicalMbr (relative_sector partEntry) rest)
         else rest sd)"

text \<open>The walk to the logical partition \<open>partNumber\<close> in \<open>writePartition\<close>; \<open>k\<close> is \<open>partNumber - i\<close>. The result is an error code, or the
  last sector that was read, its number, \<open>i\<close>, and whether to append.\<close>

fun seek_write :: "nat \<Rightarrow> 'd device_ops \<Rightarrow> 'd \<Rightarrow> u32 \<Rightarrow> u8 \<Rightarrow> u32 \<Rightarrow> (return_code + u8 list \<times> u32 \<times> u8 \<times> bool) outcome" where
  "seek_write k ops d base i currentLogicalMbr =
     andThen (dev_read ops d currentLogicalMbr 1) (\<lambda>r.
     case r of None \<Rightarrow> Inr (Inl READ_SECTOR_FAILED)
     | Some currentMbr \<Rightarrow>
         andThen (get_signature currentMbr) (\<lambda>signature.
         if signature \<noteq> 0xAA55 then Inr (Inl INVALID_MBR_SIGNATURE)
         else andThen (get_entry currentMbr table_start) (\<lambda>current.
              andThen (get_entry currentMbr (table_start + 0x10)) (\<lambda>next'.
              if system_id current = EMPTY then Inr (Inr (currentMbr, currentLogicalMbr, i, False))
              else case k of 0 \<Rightarrow> Inr (Inr (currentMbr, currentLogicalMbr, i, False))
                   | Suc k' \<Rightarrow>
                       if system_id next' = EMPTY then Inr (Inr (currentMbr, currentLogicalMbr, i, True))
                       else seek_write k' ops d base (i + 1) (base + relative_sector next')))))"

declare seek_write.simps [simp del]

definition append_logical ::
  "'d device_ops \<Rightarrow> (u8 list \<Rightarrow> u8 \<Rightarrow> u8 list) \<Rightarrow> 'd storage_device \<Rightarrow> u32 \<Rightarrow> u8 list \<Rightarrow> u32 \<Rightarrow> u8 \<Rightarrow> partition_entry
     \<Rightarrow> ('d storage_device \<times> return_code) outcome" where
  "append_logical ops fmt sd base currentMbr currentLogicalMbr i partEntry =
     (let startSector = relative_sector partEntry;
          linkEntry = partEntry\<lparr>relative_sector := startSector - base\<rparr>
      in andThen (put_entry currentMbr (table_start + 0x10) (linkEntry\<lparr>system_id := EXTENDED_PARTITION_LBA\<rparr>)) (\<lambda>currentMbr'.
         write_or_fail ops sd currentMbr' currentLogicalMbr (\<lambda>sd.
         andThen (put_entry (zero_sector ops sd) table_start
                    (linkEntry\<lparr>relative_sector := 1, sector_count := sector_count linkEntry - 1\<rparr>)) (\<lambda>new.
         andThen (put_signature new) (\<lambda>newLogicalMbr.
         write_or_fail ops sd newLogicalMbr startSector (\<lambda>sd.
         finish (service_call sd (RegisterDevice (fmt (sd_name sd) i)
           \<lparr>pt_startSector = startSector, pt_sectorCount = sector_count partEntry, pt_systemId = system_id partEntry\<rparr>)) SUCCESS))))))"

definition edit_logical ::
  "'d device_ops \<Rightarrow> (u8 list \<Rightarrow> u8 \<Rightarrow> u8 list) \<Rightarrow> 'd storage_device \<Rightarrow> u8 list \<Rightarrow> u32 \<Rightarrow> u8 \<Rightarrow> partition_entry
     \<Rightarrow> ('d storage_device \<times> return_code) outcome" where
  "edit_logical ops fmt sd currentMbr currentLogicalMbr i partEntry =
     andThen (get_entry currentMbr table_start) (\<lambda>e.
     andThen (put_entry currentMbr table_start
                (e\<lparr>relative_sector := (if relative_sector e = 0 then 1 else relative_sector e),
                   sector_count := sector_count partEntry, system_id := system_id partEntry,
                   active_flag := active_flag partEntry\<rparr>)) (\<lambda>currentMbr'.
     write_or_fail ops sd currentMbr' currentLogicalMbr (\<lambda>sd.
     finish (service_call sd (RegisterDevice (fmt (sd_name sd) i)
       \<lparr>pt_startSector = relative_sector partEntry, pt_sectorCount = sector_count partEntry,
        pt_systemId = system_id partEntry\<rparr>)) SUCCESS)))"

definition write_logical ::
  "'d device_ops \<Rightarrow> (u8 list \<Rightarrow> u8 \<Rightarrow> u8 list) \<Rightarrow> 'd storage_device \<Rightarrow> u8 list \<Rightarrow> u8 \<Rightarrow> partition_entry
     \<Rightarrow> ('d storage_device \<times> return_code) outcome" where
  "write_logical ops fmt sd mbr partNumber partEntry =
     andThen (find_extended mbr [0, 1, 2, 3]) (\<lambda>ext.
     case ext of None \<Rightarrow> finish sd EXTENDED_PARTITION_NOT_FOUND
     | Some extPart \<Rightarrow>
         andThen (seek_write (unat partNumber - 5) ops (sd_disk sd) (relative_sector extPart) 5 (relative_sector extPart)) (\<lambda>r.
         case r of Inl code \<Rightarrow> finish sd code
         | Inr (currentMbr, currentLogicalMbr, i, appendToList) \<Rightarrow>
             if appendToList
             then append_logical ops fmt sd (relative_sector extPart) currentMbr currentLogicalMbr i partEntry
             else edit_logical ops fmt sd currentMbr currentLogicalMbr i partEntry))"

definition StorageDevice_writePartition ::
  "'d device_ops \<Rightarrow> (u8 list \<Rightarrow> u8 \<Rightarrow> u8 list) \<Rightarrow> 'd storage_device \<Rightarrow> u8 \<Rightarrow> bool \<Rightarrow> u8 \<Rightarrow> u32 \<Rightarrow> u32
     \<Rightarrow> ('d storage_device \<times> return_code) outcome" where
  "StorageDevice_writePartition ops fmt sd0 partNumber active systemId startSector sectorCount =
     (if partNumber < 1 then Inr (sd0, NON_EXISTENT_PARITION)
      else andThen (Spinlock_acquire (partLock sd0)) (\<lambda>l.
           let sd = sd0\<lparr>partLock := l\<rparr>; partEntry = entry_for active systemId startSector sectorCount
           in read_or_fail ops sd 0 READ_SECTOR_FAILED (\<lambda>mbr.
              andThen (get_signature mbr) (\<lambda>signature.
              if signature \<noteq> 0xAA55 then finish sd INVALID_MBR_SIGNATURE
              else if partNumber \<le> 4 then write_primary ops fmt sd mbr partNumber partEntry
              else write_logical ops fmt sd mbr partNumber partEntry))))"

section \<open>Deleting an entry\<close>

text \<open>\<open>children\<close> are the names in \<open>/dev/storage\<close>. Names of partitions start with the name of the device; \<open>only_logical\<close> also asks for a
  number above 4 behind the next character.\<close>

primrec remove_partitions :: "bool \<Rightarrow> u8 list list \<Rightarrow> 'd storage_device \<Rightarrow> 'd storage_device outcome" where
  "remove_partitions only_logical [] sd = Inr sd"
| "remove_partitions only_logical (n # ns) sd =
     (if n \<noteq> sd_name sd \<and> take (length (sd_name sd)) n = sd_name sd
      then andThen (if only_logical
                    then andThen (strtoint (drop (length (sd_name sd) + 1) n @ [0])) (\<lambda>number. Inr (sint number > 4))
                    else Inr True) (\<lambda>remove.
           remove_partitions only_logical ns (if remove then service_call sd (RemoveDevice n) else sd))
      else remove_partitions only_logical ns sd)"

definition delete_primary ::
  "'d device_ops \<Rightarrow> (u8 list \<Rightarrow> u8 \<Rightarrow> u8 list) \<Rightarrow> u8 list list \<Rightarrow> 'd storage_device \<Rightarrow> u8 list \<Rightarrow> u8
     \<Rightarrow> ('d storage_device \<times> return_code) outcome" where
  "delete_primary ops fmt children sd mbr partNumber =
     (let offset = table_start + 0x10 * (unat partNumber - 1)
      in andThen (get_entry mbr offset) (\<lambda>old.
         andThen (put_entry mbr offset empty_entry) (\<lambda>mbr'.
         write_or_fail ops sd mbr' 0 (\<lambda>sd.
         let sd = service_call sd (RemoveDevice (fmt (sd_name sd) partNumber))
         in andThen (if is_extended (system_id old) then remove_partitions True children sd else Inr sd) (\<lambda>sd.
            finish sd SUCCESS)))))"

text \<open>The first logical partition is overwritten by the second one.\<close>

definition delete_first_logical ::
  "'d device_ops \<Rightarrow> (u8 list \<Rightarrow> u8 \<Rightarrow> u8 list) \<Rightarrow> 'd storage_device \<Rightarrow> u32 \<Rightarrow> u8 \<Rightarrow> ('d storage_device \<times> return_code) outcome" where
  "delete_first_logical ops fmt sd base partNumber =
     read_or_fail ops sd base READ_SECTOR_FAILED (\<lambda>first.
     andThen (get_entry first table_start) (\<lambda>first1.
     andThen (get_entry first (table_start + 0x10)) (\<lambda>first2.
     let rest = (\<lambda>first'. write_or_fail ops sd first' base (\<lambda>sd.
           finish (service_call sd (RemoveDevice (fmt (sd_name sd) partNumber))) SUCCESS))
     in if system_id first2 = EMPTY then andThen (put_entry first table_start empty_entry) rest
        else read_or_fail ops sd (base + relative_sector first2) READ_SECTOR_FAILED (\<lambda>second.
             andThen (get_entry second table_start) (\<lambda>second1.
             andThen (get_entry second (table_start + 0x10)) (\<lambda>second2.
             andThen (put_entry first table_start
                        (first1\<lparr>relative_sector := relative_sector first2 + relative_sector second1,
                                sector_count := sector_count second1\<rparr>)) (\<lambda>first'.
             andThen (put_entry first' (table_start + 0x10) second2) rest)))))))"

text \<open>The walk of \<open>deletePartition\<close>; the result is an error code, or the last sector that was read, the numbers of the one before and of it, and
  the entry for the next one.\<close>

fun seek_delete :: "nat \<Rightarrow> 'd device_ops \<Rightarrow> 'd \<Rightarrow> u32 \<Rightarrow> u32 \<Rightarrow> u32
    \<Rightarrow> (return_code + u8 list \<times> u32 \<times> u32 \<times> partition_entry) outcome" where
  "seek_delete k ops d base lastLogicalMbr currentLogicalMbr =
     andThen (dev_read ops d currentLogicalMbr 1) (\<lambda>r.
     case r of None \<Rightarrow> Inr (Inl READ_SECTOR_FAILED)
     | Some currentMbr \<Rightarrow>
         andThen (get_signature currentMbr) (\<lambda>signature.
         if signature \<noteq> 0xAA55 then Inr (Inl INVALID_MBR_SIGNATURE)
         else andThen (get_entry currentMbr table_start) (\<lambda>current.
              andThen (get_entry currentMbr (table_start + 0x10)) (\<lambda>next'.
              if system_id current = EMPTY then Inr (Inl UNUSED_PARTITION)
              else case k of 0 \<Rightarrow> Inr (Inr (currentMbr, lastLogicalMbr, currentLogicalMbr, next'))
                   | Suc k' \<Rightarrow>
                       if system_id next' = EMPTY then Inr (Inl NON_EXISTENT_PARITION)
                       else seek_delete k' ops d base currentLogicalMbr (base + relative_sector next')))))"

declare seek_delete.simps [simp del]

definition delete_logical ::
  "'d device_ops \<Rightarrow> (u8 list \<Rightarrow> u8 \<Rightarrow> u8 list) \<Rightarrow> 'd storage_device \<Rightarrow> u32 \<Rightarrow> u8 \<Rightarrow> ('d storage_device \<times> return_code) outcome" where
  "delete_logical ops fmt sd base partNumber =
     andThen (seek_delete (unat partNumber - 5) ops (sd_disk sd) base 0 base) (\<lambda>r.
     case r of Inl code \<Rightarrow> finish sd code
     | Inr (currentMbr, lastLogicalMbr, currentLogicalMbr, next') \<Rightarrow>
         read_or_fail ops sd lastLogicalMbr READ_SECTOR_FAILED (\<lambda>lastMbr.
         andThen (put_entry currentMbr table_start empty_entry) (\<lambda>currentMbr1.
         andThen (put_entry currentMbr1 (table_start + 0x10) empty_entry) (\<lambda>currentMbr2.
         andThen (put_entry lastMbr (table_start + 0x10) next') (\<lambda>lastMbr'.
         write_or_fail ops sd currentMbr2 currentLogicalMbr (\<lambda>sd.
         write_or_fail ops sd lastMbr' lastLogicalMbr (\<lambda>sd.
         finish (service_call sd (RemoveDevice (fmt (sd_name sd) partNumber))) SUCCESS)))))))"

definition StorageDevice_deletePartition ::
  "'d device_ops \<Rightarrow> (u8 list \<Rightarrow> u8 \<Rightarrow> u8 list) \<Rightarrow> u8 list list \<Rightarrow> 'd storage_device \<Rightarrow> u8
     \<Rightarrow> ('d storage_device \<times> return_code) outcome" where
  "StorageDevice_deletePartition ops fmt children sd0 partNumber =
     (if partNumber < 1 then Inr (sd0, NON_EXISTENT_PARITION)
      else andThen (Spinlock_acquire (partLock sd0)) (\<lambda>l.
           let sd = sd0\<lparr>partLock := l\<rparr>
           in read_or_fail ops sd 0 WRITE_SECTOR_FAILED (\<lambda>mbr.
              if partNumber \<le> 4 then delete_primary ops fmt children sd mbr partNumber
              else andThen (find_extended mbr [0, 1, 2, 3]) (\<lambda>ext.
                   case ext of None \<Rightarrow> finish sd EXTENDED_PARTITION_NOT_FOUND
                   | Some extPart \<Rightarrow>
                       if partNumber = 5 then delete_first_logical ops fmt sd (relative_sector extPart) partNumber
                       else delete_logical ops fmt sd (relative_sector extPart) partNumber))))"

section \<open>Creating an empty table\<close>

definition StorageDevice_createPartitionTable ::
  "'d device_ops \<Rightarrow> u8 list \<Rightarrow> u8 list list \<Rightarrow> 'd storage_device \<Rightarrow> ('d storage_device \<times> return_code) outcome" where
  "StorageDevice_createPartitionTable ops stale children sd0 =
     andThen (Spinlock_acquire (partLock sd0)) (\<lambda>l.
     let sd = sd0\<lparr>partLock := l\<rparr>
     in andThen (bytes_into stale 0 (replicate 510 0)) (\<lambda>mbr.
        andThen (put_signature mbr) (\<lambda>mbr'.
        write_or_fail ops sd mbr' 0 (\<lambda>sd.
        andThen (remove_partitions False children sd) (\<lambda>sd.
        finish sd SUCCESS)))))"

definition StorageDevice_getSystemId :: u8 where
  "StorageDevice_getSystemId = 0"

text \<open>A partition has no table of its own.\<close>

definition Partition_readPartitionTable :: "partition_info list \<Rightarrow> partition_info list" where
  "Partition_readPartitionTable list = list"

definition Partition_writePartition :: "u8 \<Rightarrow> bool \<Rightarrow> u8 \<Rightarrow> u32 \<Rightarrow> u32 \<Rightarrow> return_code" where
  "Partition_writePartition partNumber active systemId startSector sectorCount = DEVICE_NOT_PARTITIONABLE"

definition Partition_deletePartition :: "u8 \<Rightarrow> return_code" where
  "Partition_deletePartition partNumber = DEVICE_NOT_PARTITIONABLE"

definition Partition_createPartitionTable :: return_code where
  "Partition_createPartitionTable = DEVICE_NOT_PARTITIONABLE"

end
