(* ===== verification/Partition_Properties.thy ===== *)
theory Partition_Properties
  imports Partition_Tables
begin

text \<open>Correctness of the partition tables. The entries of a sector do not overlap and are read back as they were written. The logical
  partitions of a disk are described by \<open>log_chain\<close>; in any device that fulfils the contract \<open>sector_device\<close>, writing behind the last
  one appends to the chain and deleting one removes it, and reading the table lists the chain.\<close>

section \<open>Entries of a sector\<close>

lemma word16_bytes [simp]: "word16 (ucast v) (ucast (drop_bit 8 v)) = v"
proof (rule bit_word_eqI)
  fix n assume "n < LENGTH(16)"
  then consider "n < 8" | "8 \<le> n" "n < 16" by fastforce
  then show "bit (word16 (ucast v) (ucast (drop_bit 8 v))) n \<longleftrightarrow> bit v n"
    by cases (auto simp: word16_def bit_or_iff bit_push_bit_iff bit_unsigned_iff bit_drop_bit_eq)
qed

lemma word32_bytes [simp]:
  "word32 (ucast v) (ucast (drop_bit 8 v)) (ucast (drop_bit 16 v)) (ucast (drop_bit 24 v)) = v"
proof (rule bit_word_eqI)
  fix n assume "n < LENGTH(32)"
  then consider "n < 8" | "8 \<le> n" "n < 16" | "16 \<le> n" "n < 24" | "24 \<le> n" "n < 32" by fastforce
  then show "bit (word32 (ucast v) (ucast (drop_bit 8 v)) (ucast (drop_bit 16 v)) (ucast (drop_bit 24 v))) n \<longleftrightarrow> bit v n"
    by cases (auto simp: word32_def bit_or_iff bit_push_bit_iff bit_unsigned_iff bit_drop_bit_eq)
qed

lemma length_entry [simp]: "length (entry_bytes e) = 16"
  by (simp add: entry_bytes_def bytes16_def bytes32_def)

lemma entry_roundtrip [simp]: "entry_of (entry_bytes e) = e"
  by (simp add: entry_of_def entry_bytes_def bytes16_def bytes32_def)

abbreviation (input) second_entry :: nat where "second_entry \<equiv> 0x1CE"

text \<open>The entry at an offset of a sector, and whether the sector carries the signature.\<close>

definition entry_at :: "u8 list \<Rightarrow> nat \<Rightarrow> partition_entry" where
  "entry_at mbr i = entry_of (take 16 (drop i mbr))"

definition has_signature :: "u8 list \<Rightarrow> bool" where
  "has_signature mbr \<longleftrightarrow> 512 \<le> length mbr \<and> take 2 (drop 510 mbr) = [0x55, 0xAA]"

lemma get_entry_eq: "i + 16 \<le> length mbr \<Longrightarrow> get_entry mbr i = Inr (entry_at mbr i)"
  by (simp add: get_entry_def bytes_from_def entry_at_def)

lemma get_signature_eq: "has_signature mbr \<Longrightarrow> get_signature mbr = Inr 0xAA55"
  by (simp add: get_signature_def bytes_from_def has_signature_def word16_def)

lemma put_entry_eq:
  assumes "i + 16 \<le> length mbr"
  shows "\<exists>mbr'. put_entry mbr i e = Inr mbr' \<and> length mbr' = length mbr \<and> entry_at mbr' i = e
    \<and> (\<forall>j. j + 16 \<le> i \<or> i + 16 \<le> j \<longrightarrow> entry_at mbr' j = entry_at mbr j)
    \<and> (i + 16 \<le> 510 \<longrightarrow> has_signature mbr' = has_signature mbr)"
proof -
  define mbr' where "mbr' = take i mbr @ entry_bytes e @ drop (i + 16) mbr"
  have len: "length mbr' = length mbr" using assms by (simp add: mbr'_def)
  have "take 16 (drop i mbr') = entry_bytes e" using slice_same [of i "entry_bytes e" mbr] assms by (simp add: mbr'_def)
  moreover have other: "take n (drop j mbr') = take n (drop j mbr)" if "j + n \<le> i \<or> i + 16 \<le> j" for j n
    using slice_other [of i "entry_bytes e" mbr j n] assms that by (simp add: mbr'_def)
  moreover have "put_entry mbr i e = Inr mbr'" using assms by (simp add: put_entry_def bytes_into_def mbr'_def)
  ultimately show ?thesis
    using len by (intro exI [of _ mbr']) (auto simp: entry_at_def has_signature_def)
qed

lemma put_signature_eq:
  assumes "512 \<le> length mbr"
  shows "\<exists>mbr'. put_signature mbr = Inr mbr' \<and> length mbr' = length mbr \<and> has_signature mbr'
    \<and> (\<forall>j. j + 16 \<le> 510 \<longrightarrow> entry_at mbr' j = entry_at mbr j)"
proof -
  have b: "bytes16 0xAA55 = [0x55, 0xAA]" by (simp add: bytes16_def)
  define mbr' where "mbr' = take 510 mbr @ bytes16 0xAA55 @ drop (510 + 2) mbr"
  have "take 2 (drop 510 mbr') = [0x55, 0xAA]"
    using slice_same [of 510 "bytes16 0xAA55" mbr] assms by (simp add: mbr'_def b)
  moreover have "take 16 (drop j mbr') = take 16 (drop j mbr)" if "j + 16 \<le> 510" for j
    using slice_other [of 510 "bytes16 0xAA55" mbr j 16] assms that by (simp add: mbr'_def b)
  moreover have "put_signature mbr = Inr mbr'" using assms by (simp add: put_signature_def bytes_into_def mbr'_def b)
  moreover have "length mbr' = length mbr" using assms by (simp add: mbr'_def b)
  ultimately show ?thesis using assms by (intro exI [of _ mbr']) (auto simp: entry_at_def has_signature_def)
qed

lemma entry_zero [simp]: "j + 16 \<le> n \<Longrightarrow> entry_at (replicate n 0) j = empty_entry"
  by (simp add: entry_at_def entry_of_def empty_entry_def word16_def word32_def)

section \<open>Chains of logical partitions\<close>

text \<open>\<open>log_chain c base s xs\<close>: the sectors \<open>c\<close> hold, from sector \<open>s\<close> on, the logical partitions \<open>xs\<close>, each with its sector and its entry;
  the links are relative to \<open>base\<close>.\<close>

fun log_chain :: "(u32 \<Rightarrow> u8 list) \<Rightarrow> u32 \<Rightarrow> u32 \<Rightarrow> (u32 \<times> partition_entry) list \<Rightarrow> bool" where
  "log_chain c base s [] \<longleftrightarrow> has_signature (c s) \<and> system_id (entry_at (c s) table_start) = 0"
| "log_chain c base s (x # xs) \<longleftrightarrow> x = (s, entry_at (c s) table_start) \<and> has_signature (c s) \<and> system_id (snd x) \<noteq> 0
     \<and> (if xs = [] then system_id (entry_at (c s) second_entry) = 0
        else system_id (entry_at (c s) second_entry) \<noteq> 0
             \<and> log_chain c base (base + relative_sector (entry_at (c s) second_entry)) xs)"

fun log_infos :: "u8 \<Rightarrow> (u32 \<times> partition_entry) list \<Rightarrow> partition_info list" where
  "log_infos n [] = []"
| "log_infos n ((s, e) # xs) = info_of n 0x6C e (s + relative_sector e) # log_infos (n + 1) xs"

lemma log_infos_append: "log_infos n (xs @ ys) = log_infos n xs @ log_infos (n + of_nat (length xs)) ys"
  by (induction n xs rule: log_infos.induct) (simp_all add: algebra_simps)

lemma log_chain_cong:
  "xs \<noteq> [] \<Longrightarrow> (\<And>t. t \<in> fst ` set xs \<Longrightarrow> c' t = c t) \<Longrightarrow> log_chain c base s xs \<Longrightarrow> log_chain c' base s xs"
  by (induction c base s xs rule: log_chain.induct) (auto split: if_splits)

text \<open>The part of a chain in front of a sector: every partition in it is linked to the next one.\<close>

fun log_path :: "(u32 \<Rightarrow> u8 list) \<Rightarrow> u32 \<Rightarrow> u32 \<Rightarrow> (u32 \<times> partition_entry) list \<Rightarrow> u32 \<Rightarrow> bool" where
  "log_path c base s [] t \<longleftrightarrow> t = s"
| "log_path c base s (x # us) t \<longleftrightarrow> x = (s, entry_at (c s) table_start) \<and> has_signature (c s) \<and> system_id (snd x) \<noteq> 0
     \<and> system_id (entry_at (c s) second_entry) \<noteq> 0
     \<and> log_path c base (base + relative_sector (entry_at (c s) second_entry)) us t"

lemma log_path_cong:
  "(\<And>t. t \<in> fst ` set us \<Longrightarrow> c' t = c t) \<Longrightarrow> log_path c base s us t \<Longrightarrow> log_path c' base s us t"
  by (induction us arbitrary: s) auto

lemma log_chain_split:
  assumes "ys \<noteq> []"
  shows "log_chain c base s (us @ ys) \<longleftrightarrow> log_path c base s us (fst (hd ys)) \<and> log_chain c base (fst (hd ys)) ys"
proof (induction us arbitrary: s)
  case Nil
  obtain y zs where "ys = y # zs" using assms by (cases ys) auto
  then show ?case by auto
next
  case (Cons x us)
  then show ?case using assms by simp
qed

lemma log_chainI:
  "log_path c base s us a \<Longrightarrow> log_chain c base a ((a, e) # zs) \<Longrightarrow> log_chain c base s (us @ (a, e) # zs)"
  using log_chain_split [of "(a, e) # zs" c base s us] by (simp only: list.sel fst_conv) simp

lemma log_path_snoc:
  "log_path c base s (us @ [x]) t \<longleftrightarrow> log_path c base s us (fst x)
     \<and> x = (fst x, entry_at (c (fst x)) table_start) \<and> has_signature (c (fst x)) \<and> system_id (snd x) \<noteq> 0
     \<and> system_id (entry_at (c (fst x)) second_entry) \<noteq> 0
     \<and> t = base + relative_sector (entry_at (c (fst x)) second_entry)"
  by (induction us arbitrary: s) auto

text \<open>A disk with one extended partition that starts at \<open>base\<close> and holds the logical partitions \<open>xs\<close>, in sectors of their own.\<close>

definition extended_at :: "u8 list \<Rightarrow> nat \<Rightarrow> bool" where
  "extended_at mbr i \<longleftrightarrow> is_extended (system_id (entry_at mbr (table_start + 0x10 * i)))"

definition disk_ok :: "(u32 \<Rightarrow> u8 list) \<Rightarrow> u32 \<Rightarrow> (u32 \<times> partition_entry) list \<Rightarrow> bool" where
  "disk_ok c base xs \<longleftrightarrow> has_signature (c 0) \<and> log_chain c base base xs \<and> distinct (0 # map fst xs)
     \<and> (\<exists>i. filter (extended_at (c 0)) [0, 1, 2, 3] = [i] \<and> relative_sector (entry_at (c 0) (table_start + 0x10 * i)) = base)"

text \<open>What reading the table lists, given the logical partitions.\<close>

fun table_infos :: "u8 list \<Rightarrow> partition_info list \<Rightarrow> nat list \<Rightarrow> partition_info list" where
  "table_infos mbr logical [] = []"
| "table_infos mbr logical (i # is) =
     (let e = entry_at mbr (table_start + 0x10 * i)
      in (if system_id e = 0 then []
          else if is_extended (system_id e) then info_of 5 0x65 e (relative_sector e) # logical
          else [info_of (of_nat i + 1) 0x70 e (relative_sector e)]) @ table_infos mbr logical is)"

lemma find_extended_eq:
  "has_signature mbr \<Longrightarrow> \<forall>i \<in> set is. i < 4 \<Longrightarrow> filter (extended_at mbr) is = i # js
     \<Longrightarrow> find_extended mbr is = Inr (Some (entry_at mbr (table_start + 0x10 * i)))"
proof (induction "is")
  case (Cons j "is")
  have "get_entry mbr (table_start + 0x10 * j) = Inr (entry_at mbr (table_start + 0x10 * j))"
    using Cons.prems by (intro get_entry_eq) (auto simp: has_signature_def)
  then show ?case using Cons by (auto simp: extended_at_def split: if_splits)
qed simp

lemma read_logical_eq:
  assumes "has_signature mbr"
  shows "read_logical mbr = Inr (if system_id (entry_at mbr table_start) = 0 then None
    else Some (entry_at mbr table_start, entry_at mbr second_entry))"
proof -
  have "get_entry mbr table_start = Inr (entry_at mbr table_start)"
    "get_entry mbr second_entry = Inr (entry_at mbr second_entry)"
    using assms by (intro get_entry_eq; simp add: has_signature_def)+
  then show ?thesis using assms by (simp add: read_logical_def get_signature_eq)
qed

lemma disk_ok_chain:
  "disk_ok c base (us @ ys) \<Longrightarrow> ys \<noteq> [] \<Longrightarrow> log_path c base base us (fst (hd ys))"
  "disk_ok c base (us @ ys) \<Longrightarrow> ys \<noteq> [] \<Longrightarrow> log_chain c base (fst (hd ys)) ys"
  using log_chain_split [of ys c base base us] unfolding disk_ok_def by blast+

text \<open>A new sector linked from the last one extends the chain.\<close>

lemma disk_ok_append:
  assumes D: "disk_ok c base (us @ [(a, e)])" and t: "t \<notin> set (0 # map fst (us @ [(a, e)]))"
    and m1: "has_signature m1" "entry_at m1 table_start = e" "system_id (entry_at m1 second_entry) \<noteq> 0"
      "base + relative_sector (entry_at m1 second_entry) = t"
    and m2: "has_signature m2" "system_id (entry_at m2 table_start) \<noteq> 0" "system_id (entry_at m2 second_entry) = 0"
  shows "disk_ok (c(a := m1, t := m2)) base (us @ [(a, e), (t, entry_at m2 table_start)])"
proof -
  let ?c = "c(a := m1, t := m2)"
  have chain: "log_path c base base us a" "log_chain c base a [(a, e)]"
    using disk_ok_chain [OF D] by auto
  have neq: "a \<noteq> t" "a \<noteq> 0" "a \<notin> fst ` set us" using D t by (auto simp: disk_ok_def)
  have "log_path ?c base base us a" by (rule log_path_cong [OF _ chain(1)]) (use neq t in auto)
  moreover have "system_id e \<noteq> 0" using chain(2) by auto
  then have "log_chain ?c base a [(a, e), (t, entry_at m2 table_start)]" by (simp add: m1 m2 neq)
  ultimately have "log_chain ?c base base (us @ [(a, e), (t, entry_at m2 table_start)])" by (rule log_chainI)
  moreover have "?c 0 = c 0" using neq t by auto
  ultimately show ?thesis using D t neq(1) unfolding disk_ok_def by simp
qed

text \<open>Linking the one before to the one behind takes a sector out of the chain.\<close>

lemma disk_ok_delete:
  assumes D: "disk_ok c base (us @ [(a, ea), (b, eb)] @ vs)"
    and ma: "has_signature ma" "entry_at ma table_start = ea" "entry_at ma second_entry = entry_at (c b) second_entry"
  shows "disk_ok (c(b := mb, a := ma)) base (us @ [(a, ea)] @ vs)"
proof -
  let ?c = "c(b := mb, a := ma)"
  have chain: "log_path c base base us a" "log_chain c base a ((a, ea) # (b, eb) # vs)"
    using disk_ok_chain [OF D] by auto
  have neq: "a \<noteq> b" "a \<noteq> 0" "b \<noteq> 0" "a \<notin> fst ` set us" "b \<notin> fst ` set us" "a \<notin> fst ` set vs" "b \<notin> fst ` set vs"
    using D by (auto simp: disk_ok_def)
  have "log_path ?c base base us a" by (rule log_path_cong [OF _ chain(1)]) (use neq in auto)
  moreover have "log_chain ?c base a ((a, ea) # vs)"
  proof (cases "vs = []")
    case True
    then have "system_id ea \<noteq> 0" "system_id (entry_at (c b) second_entry) = 0" using chain(2) by auto
    then show ?thesis using True neq(1) by (simp add: ma)
  next
    case False
    then have lc: "log_chain c base (base + relative_sector (entry_at (c b) second_entry)) vs"
      "system_id (entry_at (c b) second_entry) \<noteq> 0" "system_id ea \<noteq> 0"
      using chain(2) by auto
    have "log_chain ?c base (base + relative_sector (entry_at (c b) second_entry)) vs"
      by (rule log_chain_cong [OF False _ lc(1)]) (use neq in auto)
    then show ?thesis using neq(1) False by (simp add: lc ma)
  qed
  ultimately have "log_chain ?c base base (us @ (a, ea) # vs)" by (rule log_chainI)
  moreover have "?c 0 = c 0" using neq by auto
  ultimately show ?thesis using D unfolding disk_ok_def by simp
qed

section \<open>Operations on a device\<close>

context sector_device
begin

lemma seek_write_append:
  assumes "inv d" "log_path (content d) base s us a" "\<forall>t \<in> set (map fst us @ [a]). has d t"
    and "has_signature (content d a)" "system_id (entry_at (content d a) table_start) \<noteq> 0"
    and "system_id (entry_at (content d a) second_entry) = 0" "length us < k"
  shows "seek_write k ops d base i s = Inr (Inr (content d a, a, i + of_nat (length us), True))"
  using assms(2,3,7)
proof (induction us arbitrary: k i s)
  case Nil
  have "get_entry (content d a) table_start = Inr (entry_at (content d a) table_start)"
    "get_entry (content d a) second_entry = Inr (entry_at (content d a) second_entry)"
    using assms(4) by (intro get_entry_eq; simp add: has_signature_def)+
  then show ?case using Nil assms by (cases k) (auto simp: seek_write.simps [of "Suc _"] read_content get_signature_eq)
next
  case (Cons x us)
  have x: "x = (s, entry_at (content d s) table_start)" "has_signature (content d s)" "system_id (snd x) \<noteq> 0"
    "system_id (entry_at (content d s) second_entry) \<noteq> 0"
    "log_path (content d) base (base + relative_sector (entry_at (content d s) second_entry)) us a"
    using Cons.prems(1) by auto
  have "get_entry (content d s) table_start = Inr (entry_at (content d s) table_start)"
    "get_entry (content d s) second_entry = Inr (entry_at (content d s) second_entry)"
    using x(2) by (intro get_entry_eq; simp add: has_signature_def)+
  moreover obtain k' where "k = Suc k'" "length us < k'" using Cons.prems(3) by (cases k) auto
  moreover have "has d s" using Cons.prems(2) x(1) by simp
  ultimately show ?case
    using Cons.IH [OF x(5), of k' "i + 1"] x Cons.prems(2) assms(1)
    by (auto simp: seek_write.simps [of "Suc _"] read_content get_signature_eq algebra_simps)
qed

lemma seek_delete_eq:
  assumes "inv d" "log_path (content d) base s us b" "\<forall>t \<in> set (map fst us @ [b]). has d t"
    and "has_signature (content d b)" "system_id (entry_at (content d b) table_start) \<noteq> 0"
  shows "seek_delete (length us) ops d base l s =
    Inr (Inr (content d b, (if us = [] then l else fst (last us)), b, entry_at (content d b) second_entry))"
  using assms(2,3)
proof (induction us arbitrary: l s)
  case Nil
  have "get_entry (content d b) table_start = Inr (entry_at (content d b) table_start)"
    "get_entry (content d b) second_entry = Inr (entry_at (content d b) second_entry)"
    using assms(4) by (intro get_entry_eq; simp add: has_signature_def)+
  then show ?case using Nil assms by (auto simp: seek_delete.simps [of 0] read_content get_signature_eq)
next
  case (Cons x us)
  have x: "x = (s, entry_at (content d s) table_start)" "has_signature (content d s)" "system_id (snd x) \<noteq> 0"
    "system_id (entry_at (content d s) second_entry) \<noteq> 0"
    "log_path (content d) base (base + relative_sector (entry_at (content d s) second_entry)) us b"
    using Cons.prems(1) by auto
  have "get_entry (content d s) table_start = Inr (entry_at (content d s) table_start)"
    "get_entry (content d s) second_entry = Inr (entry_at (content d s) second_entry)"
    using x(2) by (intro get_entry_eq; simp add: has_signature_def)+
  moreover have "has d s" using Cons.prems(2) x(1) by simp
  ultimately show ?case
    using Cons.IH [OF x(5), of s] x Cons.prems(2) assms(1)
    by (auto simp: seek_delete.simps [of "Suc _"] read_content get_signature_eq)
qed

lemma logical_loop_chain:
  assumes "inv d" "has d s" "\<forall>x \<in> set xs. has d (fst x)" "log_chain (content d) base s xs"
  shows "logical_loop ops stale d base s n list = Some (Inr (list @ log_infos n xs))"
  using assms(2-4)
proof (induction xs arbitrary: s n list)
  case Nil
  then show ?case using assms(1) by (subst logical_loop.simps) (simp add: read_content read_logical_eq)
next
  case (Cons x xs)
  let ?e = "entry_at (content d s) table_start" and ?next = "entry_at (content d s) second_entry"
  have x: "x = (s, ?e)" "has_signature (content d s)" "system_id ?e \<noteq> 0" using Cons.prems(3) by auto
  then have r: "logical_loop ops stale d base s n list =
      (let list' = list @ [info_of n 0x6C ?e (s + relative_sector ?e)]
       in if system_id ?next = 0 then Some (Inr list') else logical_loop ops stale d base (base + relative_sector ?next) (n + 1) list')"
    using Cons.prems(1) assms(1) by (subst logical_loop.simps) (simp add: read_content read_logical_eq)
  show ?case
  proof (cases "xs = []")
    case True
    then show ?thesis using Cons.prems(3) x r by simp
  next
    case False
    then have n: "system_id ?next \<noteq> 0" "log_chain (content d) base (base + relative_sector ?next) xs"
      using Cons.prems(3) by auto
    then have "has d (base + relative_sector ?next)" using False Cons.prems(2) by (cases xs) auto
    then show ?thesis using Cons.IH [OF _ _ n(2)] Cons.prems(2) n(1) x r by (simp add: Let_def)
  qed
qed

lemma primary_loop_infos:
  assumes "inv d" "has_signature mbr" "has d base" "\<forall>x \<in> set xs. has d (fst x)" "log_chain (content d) base base xs"
    and "\<forall>i \<in> set is. i < 4 \<and> (extended_at mbr i \<longrightarrow> relative_sector (entry_at mbr (table_start + 0x10 * i)) = base)"
  shows "primary_loop ops stale d mbr is list = Some (Inr (list @ table_infos mbr (log_infos 5 xs) is))"
  using assms(6)
proof (induction "is" arbitrary: list)
  case (Cons i "is")
  have g: "get_entry mbr (table_start + 0x10 * i) = Inr (entry_at mbr (table_start + 0x10 * i))"
    using assms(2) Cons.prems by (intro get_entry_eq) (simp add: has_signature_def)
  show ?case
    using Cons g logical_loop_chain [OF assms(1,3-5), of stale 5] by (auto simp: extended_at_def Let_def)
qed simp

lemma readPartitionTable_infos:
  assumes "inv (sd_disk sd)" "partLock sd = Spinlock_new" "disk_ok (content (sd_disk sd)) base xs"
    and "has (sd_disk sd) 0" "has (sd_disk sd) base" "\<forall>x \<in> set xs. has (sd_disk sd) (fst x)"
  shows "\<exists>sd'. StorageDevice_readPartitionTable ops stale sd =
    Some (Inr (sd', table_infos (content (sd_disk sd) 0) (log_infos 5 xs) [0, 1, 2, 3])) \<and> sd_disk sd' = sd_disk sd"
proof -
  let ?mbr = "content (sd_disk sd) 0"
  obtain j where j: "filter (extended_at ?mbr) [0, 1, 2, 3] = [j]"
      "relative_sector (entry_at ?mbr (table_start + 0x10 * j)) = base"
    and sig: "has_signature ?mbr" and chain: "log_chain (content (sd_disk sd)) base base xs"
    using assms(3) by (auto simp: disk_ok_def)
  have only: "relative_sector (entry_at ?mbr (table_start + 0x10 * i)) = base"
    if "i \<in> set [0, 1, 2, 3]" "extended_at ?mbr i" for i
  proof -
    have "i \<in> set (filter (extended_at ?mbr) [0, 1, 2, 3])" using that by (simp only: set_filter mem_Collect_eq)
    then have "i = j" unfolding j(1) by simp
    then show ?thesis using j(2) by simp
  qed
  have "\<forall>i \<in> set [0, 1, 2, 3]. i < 4 \<and> (extended_at ?mbr i \<longrightarrow> relative_sector (entry_at ?mbr (table_start + 0x10 * i)) = base)"
  proof (intro ballI conjI impI)
    show "i < 4" if "i \<in> set [0, 1, 2, 3]" for i :: nat using that by auto
  qed (rule only)
  from primary_loop_infos [OF assms(1) sig assms(5,6) chain this, of stale "[]"]
  show ?thesis
    using assms(1,2,4) sig acquire_release(1) by (simp add: StorageDevice_readPartitionTable_def read_content get_signature_eq unlock_def)
qed

lemma write_or_fail_eq:
  assumes "inv (sd_disk sd)" "has (sd_disk sd) s" "length b = unat (getSectorSize ops (sd_disk sd))"
  shows "\<exists>d'. write_or_fail ops sd b s rest = rest (sd\<lparr>sd_disk := d'\<rparr>) \<and> inv d' \<and> has d' = has (sd_disk sd)
    \<and> content d' = (content (sd_disk sd))(s := b) \<and> getSectorSize ops d' = getSectorSize ops (sd_disk sd)"
  using write_content [OF assms] by (auto simp: write_or_fail_def)

lemma read_or_fail_eq:
  "inv (sd_disk sd) \<Longrightarrow> has (sd_disk sd) s \<Longrightarrow> read_or_fail ops sd s code rest = rest (content (sd_disk sd) s)"
  by (simp add: read_or_fail_def read_content)

text \<open>Appending a partition whose link entry and sector are the given ones.\<close>

lemma append_logical_eq:
  assumes I: "inv (sd_disk sd)" and D: "disk_ok (content (sd_disk sd)) base (us @ [(a, e)])"
    and has: "has (sd_disk sd) a" "has (sd_disk sd) t" and t: "t \<notin> set (0 # map fst (us @ [(a, e)]))" and sys: "systemId \<noteq> 0"
  shows "\<exists>sd'. append_logical ops fmt sd base (content (sd_disk sd) a) a i (entry_for act systemId t n) = Inr (sd', SUCCESS)
    \<and> partLock sd' = Spinlock_new \<and> inv (sd_disk sd') \<and> has (sd_disk sd') = has (sd_disk sd)
    \<and> disk_ok (content (sd_disk sd')) base (us @ [(a, e), (t, entry_for act systemId 1 (n - 1))])
    \<and> content (sd_disk sd') 0 = content (sd_disk sd) 0
    \<and> sd_calls sd' = sd_calls sd @ [RegisterDevice (fmt (sd_name sd) i) \<lparr>pt_startSector = t, pt_sectorCount = n, pt_systemId = systemId\<rparr>]"
proof -
  let ?c = "content (sd_disk sd)" and ?size = "unat (getSectorSize ops (sd_disk sd))"
  let ?link = "(entry_for act systemId t n)\<lparr>relative_sector := t - base\<rparr>"
  have chain: "log_chain ?c base a [(a, e)]" using disk_ok_chain(2) [OF D] by auto
  then have a: "has_signature (?c a)" "e = entry_at (?c a) table_start" by auto
  have len: "length (?c a) = ?size" "512 \<le> ?size" using size_content [OF I has(1)] a(1) by (auto simp: has_signature_def)
  have neq: "a \<noteq> 0" "t \<noteq> 0" "a \<noteq> t" using D t by (auto simp: disk_ok_def)
  obtain m1 where m1: "put_entry (?c a) second_entry (?link\<lparr>system_id := 0x0F\<rparr>) = Inr m1" "length m1 = ?size"
      "entry_at m1 second_entry = ?link\<lparr>system_id := 0x0F\<rparr>" "entry_at m1 table_start = e" "has_signature m1"
    using put_entry_eq [of second_entry "?c a" "?link\<lparr>system_id := 0x0F\<rparr>"] len a by auto
  have e2: "?link\<lparr>relative_sector := 1, sector_count := n - 1\<rparr> = entry_for act systemId 1 (n - 1)"
    by (simp add: entry_for_def)
  obtain z where z: "put_entry (replicate ?size 0) table_start (entry_for act systemId 1 (n - 1)) = Inr z" "length z = ?size"
      "entry_at z table_start = entry_for act systemId 1 (n - 1)" "entry_at z second_entry = empty_entry"
    using put_entry_eq [of table_start "replicate ?size 0" "entry_for act systemId 1 (n - 1)"] len by auto
  obtain m2 where m2: "put_signature z = Inr m2" "length m2 = ?size" "has_signature m2"
      "entry_at m2 table_start = entry_for act systemId 1 (n - 1)" "entry_at m2 second_entry = empty_entry"
    using put_signature_eq [of z] z len by auto
  define fin where "fin = (\<lambda>sd :: 'd storage_device. finish (service_call sd (RegisterDevice (fmt (sd_name sd) i)
    \<lparr>pt_startSector = t, pt_sectorCount = n, pt_systemId = systemId\<rparr>)) SUCCESS)"
  define rest where "rest = (\<lambda>sd. andThen (put_entry (zero_sector ops sd) table_start (entry_for act systemId 1 (n - 1))) (\<lambda>new.
         andThen (put_signature new) (\<lambda>newLogicalMbr. write_or_fail ops sd newLogicalMbr t fin)))"
  have A: "append_logical ops fmt sd base (?c a) a i (entry_for act systemId t n) = write_or_fail ops sd m1 a rest"
    using m1(1) unfolding append_logical_def Let_def rest_def fin_def by (simp add: entry_for_def)
  obtain d1 where d1: "write_or_fail ops sd m1 a rest = rest (sd\<lparr>sd_disk := d1\<rparr>)" "inv d1" "has d1 = has (sd_disk sd)"
      "content d1 = ?c(a := m1)" "getSectorSize ops d1 = getSectorSize ops (sd_disk sd)"
    using write_or_fail_eq [OF I has(1) m1(2), of rest] by blast
  have R: "rest (sd\<lparr>sd_disk := d1\<rparr>) = write_or_fail ops (sd\<lparr>sd_disk := d1\<rparr>) m2 t fin"
    using z(1) m2(1) d1(5) by (simp add: rest_def zero_sector_def)
  obtain d2 where d2: "write_or_fail ops (sd\<lparr>sd_disk := d1\<rparr>) m2 t fin = fin (sd\<lparr>sd_disk := d2\<rparr>)" "inv d2" "has d2 = has d1"
      "content d2 = (content d1)(t := m2)"
    using write_or_fail_eq [of "sd\<lparr>sd_disk := d1\<rparr>" t m2 fin] d1 has(2) m2(2) by auto
  have "base + relative_sector (entry_at m1 second_entry) = t" using m1(3) by simp
  then have "disk_ok (?c(a := m1, t := m2)) base (us @ [(a, e), (t, entry_at m2 table_start)])"
    using m1 m2 sys by (intro disk_ok_append [OF D t]) (simp_all add: entry_for_def empty_entry_def)
  then have "disk_ok (content d2) base (us @ [(a, e), (t, entry_for act systemId 1 (n - 1))])" using d1(4) d2(4) m2(4) by simp
  moreover have "content d2 0 = ?c 0" using d1(4) d2(4) neq by simp
  moreover have "append_logical ops fmt sd base (?c a) a i (entry_for act systemId t n) = fin (sd\<lparr>sd_disk := d2\<rparr>)"
    using A d1(1) R d2(1) by simp
  ultimately show ?thesis
    using d1(3) d2(2,3) by (simp add: fin_def finish_def unlock_def service_call_def atomic_defs)
qed

text \<open>The extended partition is found, whatever the logical ones are.\<close>

lemma disk_ok_extended:
  assumes "disk_ok c base xs"
  obtains ext where "find_extended (c 0) [0, 1, 2, 3] = Inr (Some ext)" "relative_sector ext = base"
proof -
  obtain j where j: "filter (extended_at (c 0)) [0, 1, 2, 3] = [j]" "relative_sector (entry_at (c 0) (table_start + 0x10 * j)) = base"
    and sig: "has_signature (c 0)" using assms by (auto simp only: disk_ok_def)
  have "\<forall>i \<in> set [0, 1, 2, 3 :: nat]. i < 4" by simp
  from find_extended_eq [OF sig this j(1)] j(2) show ?thesis by (rule that)
qed

lemma writePartition_append:
  assumes I: "inv (sd_disk sd)" and lock: "partLock sd = Spinlock_new" and D: "disk_ok (content (sd_disk sd)) base (us @ [(a, e)])"
    and has: "has (sd_disk sd) 0" "\<forall>x \<in> set (us @ [(a, e)]). has (sd_disk sd) (fst x)" "has (sd_disk sd) t"
    and t: "t \<notin> set (0 # map fst (us @ [(a, e)]))" and sys: "systemId \<noteq> 0" and n: "5 + length us < unat partNumber"
  shows "\<exists>sd'. StorageDevice_writePartition ops fmt sd partNumber act systemId t n = Inr (sd', SUCCESS)
    \<and> partLock sd' = Spinlock_new \<and> inv (sd_disk sd') \<and> has (sd_disk sd') = has (sd_disk sd)
    \<and> disk_ok (content (sd_disk sd')) base (us @ [(a, e), (t, entry_for act systemId 1 (n - 1))])
    \<and> content (sd_disk sd') 0 = content (sd_disk sd) 0
    \<and> sd_calls sd' = sd_calls sd @ [RegisterDevice (fmt (sd_name sd) (5 + of_nat (length us)))
          \<lparr>pt_startSector = t, pt_sectorCount = n, pt_systemId = systemId\<rparr>]"
proof -
  let ?c = "content (sd_disk sd)" and ?sd = "sd\<lparr>partLock := SPINLOCK_LOCK\<rparr>"
  obtain ext where ext: "find_extended (?c 0) [0, 1, 2, 3] = Inr (Some ext)" "relative_sector ext = base"
    using D by (rule disk_ok_extended)
  have path: "log_path ?c base base us a" and chain: "log_chain ?c base a [(a, e)]" using disk_ok_chain [OF D] by auto
  have "seek_write (unat partNumber - 5) ops (sd_disk sd) base 5 base = Inr (Inr (?c a, a, 5 + of_nat (length us), True))"
    using seek_write_append [OF I path, of "unat partNumber - 5" 5] chain has(2) n by auto
  then have "write_logical ops fmt ?sd (?c 0) partNumber (entry_for act systemId t n) =
      append_logical ops fmt ?sd base (?c a) a (5 + of_nat (length us)) (entry_for act systemId t n)"
    using ext by (simp add: write_logical_def)
  moreover have "\<not> partNumber < 1" "\<not> partNumber \<le> 4" using n by (auto simp: word_less_nat_alt word_le_nat_alt)
  ultimately have "StorageDevice_writePartition ops fmt sd partNumber act systemId t n =
      append_logical ops fmt ?sd base (?c a) a (5 + of_nat (length us)) (entry_for act systemId t n)"
    using lock D I has(1) acquire_release(1)
    by (simp add: StorageDevice_writePartition_def read_or_fail_eq disk_ok_def get_signature_eq Let_def)
  then show ?thesis
    using append_logical_eq [of ?sd base us a e t systemId fmt "5 + of_nat (length us)" act n] I D has t sys by simp
qed

lemma deletePartition_logical:
  assumes I: "inv (sd_disk sd)" and lock: "partLock sd = Spinlock_new"
    and D: "disk_ok (content (sd_disk sd)) base (us @ [(a, ea), (b, eb)] @ vs)"
    and has: "has (sd_disk sd) 0" "\<forall>x \<in> set (us @ [(a, ea), (b, eb)]). has (sd_disk sd) (fst x)"
    and n: "unat partNumber = 6 + length us"
  shows "\<exists>sd'. StorageDevice_deletePartition ops fmt children sd partNumber = Inr (sd', SUCCESS)
    \<and> partLock sd' = Spinlock_new \<and> inv (sd_disk sd') \<and> has (sd_disk sd') = has (sd_disk sd)
    \<and> disk_ok (content (sd_disk sd')) base (us @ [(a, ea)] @ vs)
    \<and> content (sd_disk sd') 0 = content (sd_disk sd) 0"
proof -
  let ?c = "content (sd_disk sd)" and ?sd = "sd\<lparr>partLock := SPINLOCK_LOCK\<rparr>" and ?size = "unat (getSectorSize ops (sd_disk sd))"
  obtain ext where ext: "find_extended (?c 0) [0, 1, 2, 3] = Inr (Some ext)" "relative_sector ext = base"
    using D by (rule disk_ok_extended)
  have path: "log_path ?c base base us a" and chain: "log_chain ?c base a ((a, ea) # (b, eb) # vs)" using disk_ok_chain [OF D] by auto
  have a: "has_signature (?c a)" "ea = entry_at (?c a) table_start" "system_id ea \<noteq> 0" "system_id (entry_at (?c a) second_entry) \<noteq> 0"
    "b = base + relative_sector (entry_at (?c a) second_entry)"
    and b: "has_signature (?c b)" "system_id (entry_at (?c b) table_start) \<noteq> 0" using chain by auto
  have neq: "a \<noteq> 0" "b \<noteq> 0" "a \<noteq> b" using D by (auto simp: disk_ok_def)
  have "log_path ?c base base (us @ [(a, ea)]) b" using path a by (simp add: log_path_snoc)
  from seek_delete_eq [OF I this _ b, of 0] has n
  have seek: "seek_delete (unat partNumber - 5) ops (sd_disk sd) base 0 base = Inr (Inr (?c b, a, b, entry_at (?c b) second_entry))"
    by simp
  have len: "length (?c a) = ?size" "length (?c b) = ?size" "512 \<le> ?size"
    using size_content [OF I] has(2) a(1) by (auto simp: has_signature_def)
  obtain b1 where b1: "put_entry (?c b) table_start empty_entry = Inr b1" "length b1 = ?size"
    using put_entry_eq [of table_start "?c b" empty_entry] len by auto
  obtain b2 where b2: "put_entry b1 second_entry empty_entry = Inr b2" "length b2 = ?size"
    using put_entry_eq [of second_entry b1 empty_entry] len b1 by auto
  obtain m where m: "put_entry (?c a) second_entry (entry_at (?c b) second_entry) = Inr m" "length m = ?size"
      "entry_at m second_entry = entry_at (?c b) second_entry" "entry_at m table_start = ea" "has_signature m"
    using put_entry_eq [of second_entry "?c a" "entry_at (?c b) second_entry"] len a by auto
  define fin where "fin = (\<lambda>sd :: 'd storage_device. finish (service_call sd (RemoveDevice (fmt (sd_name sd) partNumber))) SUCCESS)"
  have "delete_logical ops fmt ?sd base partNumber = write_or_fail ops ?sd b2 b (\<lambda>sd. write_or_fail ops sd m a fin)"
    using seek b1(1) b2(1) m(1) I has(2) by (simp add: delete_logical_def read_or_fail_eq fin_def)
  moreover obtain d1 where d1: "write_or_fail ops ?sd b2 b (\<lambda>sd. write_or_fail ops sd m a fin) =
        write_or_fail ops (?sd\<lparr>sd_disk := d1\<rparr>) m a fin" "inv d1" "has d1 = has (sd_disk sd)"
      "content d1 = ?c(b := b2)" "getSectorSize ops d1 = getSectorSize ops (sd_disk sd)"
    using write_or_fail_eq [of ?sd b b2 "\<lambda>sd. write_or_fail ops sd m a fin"] I has(2) b2(2) by auto
  moreover obtain d2 where d2: "write_or_fail ops (?sd\<lparr>sd_disk := d1\<rparr>) m a fin = fin (?sd\<lparr>sd_disk := d2\<rparr>)" "inv d2" "has d2 = has d1"
      "content d2 = (content d1)(a := m)"
    using write_or_fail_eq [of "?sd\<lparr>sd_disk := d1\<rparr>" a m fin] d1 has(2) m(2) by auto
  moreover have "\<not> partNumber < 1" "\<not> partNumber \<le> 4" "partNumber \<noteq> 5"
    using n by (auto simp: word_less_nat_alt word_le_nat_alt)
  ultimately have "StorageDevice_deletePartition ops fmt children sd partNumber = fin (?sd\<lparr>sd_disk := d2\<rparr>)"
    using lock I has(1) acquire_release(1) ext by (simp add: StorageDevice_deletePartition_def read_or_fail_eq Let_def del: find_extended.simps)
  moreover have "disk_ok (?c(b := b2, a := m)) base (us @ [(a, ea)] @ vs)"
    using disk_ok_delete [OF D m(5,4,3)] .
  ultimately show ?thesis
    using d1(3,4) d2(2,3,4) neq by (simp add: fin_def finish_def unlock_def service_call_def atomic_defs)
qed

text \<open>Writing a primary partition replaces its entry and nothing else.\<close>

lemma writePartition_primary:
  assumes I: "inv (sd_disk sd)" and lock: "partLock sd = Spinlock_new" and mbr: "has (sd_disk sd) 0" "has_signature (content (sd_disk sd) 0)"
    and n: "1 \<le> partNumber" "partNumber \<le> 4" and sys: "\<not> is_extended systemId"
  shows "\<exists>sd' mbr'. StorageDevice_writePartition ops fmt sd partNumber act systemId start cnt = Inr (sd', SUCCESS)
    \<and> partLock sd' = Spinlock_new \<and> inv (sd_disk sd') \<and> has (sd_disk sd') = has (sd_disk sd)
    \<and> content (sd_disk sd') = (content (sd_disk sd))(0 := mbr') \<and> has_signature mbr'
    \<and> (\<forall>i < 4. entry_at mbr' (table_start + 0x10 * i) =
          (if i = unat partNumber - 1 then entry_for act systemId start cnt else entry_at (content (sd_disk sd) 0) (table_start + 0x10 * i)))"
proof -
  let ?c = "content (sd_disk sd)" and ?sd = "sd\<lparr>partLock := SPINLOCK_LOCK\<rparr>" and ?k = "unat partNumber - 1"
  have k: "?k < 4" "\<not> partNumber < 1" using n by (auto simp: word_le_nat_alt word_less_nat_alt)
  have len: "512 \<le> length (?c 0)" "length (?c 0) = unat (getSectorSize ops (sd_disk sd))"
    using mbr size_content [OF I] by (auto simp: has_signature_def)
  have "table_start + 0x10 * ?k + 16 \<le> length (?c 0)" using k(1) len(1) by simp
  from put_entry_eq [OF this, of "entry_for act systemId start cnt"]
  obtain mbr' where m: "put_entry (?c 0) (table_start + 0x10 * ?k) (entry_for act systemId start cnt) = Inr mbr'"
      "length mbr' = length (?c 0)" "entry_at mbr' (table_start + 0x10 * ?k) = entry_for act systemId start cnt"
      "\<And>j. j + 16 \<le> table_start + 0x10 * ?k \<or> table_start + 0x10 * ?k + 16 \<le> j \<Longrightarrow> entry_at mbr' j = entry_at (?c 0) j"
      "table_start + 0x10 * ?k + 16 \<le> 510 \<Longrightarrow> has_signature mbr' = has_signature (?c 0)"
    by blast
  define fin where "fin = (\<lambda>sd :: 'd storage_device. finish (service_call sd (RegisterDevice (fmt (sd_name sd) partNumber)
      \<lparr>pt_startSector = start, pt_sectorCount = cnt, pt_systemId = systemId\<rparr>)) SUCCESS)"
  have "write_primary ops fmt ?sd (?c 0) partNumber (entry_for act systemId start cnt) = write_or_fail ops ?sd mbr' 0 fin"
    using m(1) sys unfolding write_primary_def Let_def fin_def by (simp add: entry_for_def is_extended_def)
  then have "StorageDevice_writePartition ops fmt sd partNumber act systemId start cnt = write_or_fail ops ?sd mbr' 0 fin"
    using lock I mbr n k(2) acquire_release(1)
    by (simp add: StorageDevice_writePartition_def read_or_fail_eq get_signature_eq Let_def)
  moreover obtain d1 where d1: "write_or_fail ops ?sd mbr' 0 fin = fin (?sd\<lparr>sd_disk := d1\<rparr>)" "inv d1" "has d1 = has (sd_disk sd)"
      "content d1 = ?c(0 := mbr')"
    using write_or_fail_eq [of ?sd 0 mbr' fin] I mbr(1) m(2) len by auto
  moreover have "entry_at mbr' (table_start + 0x10 * i) =
      (if i = ?k then entry_for act systemId start cnt else entry_at (?c 0) (table_start + 0x10 * i))" for i
    using m(3) m(4) [of "table_start + 0x10 * i"] by (cases i ?k rule: linorder_cases) auto
  moreover have "has_signature mbr'" using m(5) mbr(2) k(1) by simp
  ultimately show ?thesis
    by (intro exI [of _ "unlock (service_call (?sd\<lparr>sd_disk := d1\<rparr>) (RegisterDevice (fmt (sd_name sd) partNumber)
      \<lparr>pt_startSector = start, pt_sectorCount = cnt, pt_systemId = systemId\<rparr>))"] exI [of _ mbr'])
      (simp add: fin_def finish_def unlock_def service_call_def atomic_defs)
qed

text \<open>Reading never ends if the second entry of the first logical partition points back to it.\<close>

lemma self_link_never_ends:
  assumes "inv d0" "has d0 s" "has_signature (content d0 s)" "system_id (entry_at (content d0 s) table_start) \<noteq> 0"
    and "system_id (entry_at (content d0 s) second_entry) \<noteq> 0" "relative_sector (entry_at (content d0 s) second_entry) = 0"
  shows "logical_loop ops stale d0 s s n list = None"
proof -
  have "ops' = ops \<longrightarrow> d = d0 \<longrightarrow> base = s \<longrightarrow> t = s \<longrightarrow> False"
    if "logical_loop ops' stale' d base t n list = Some r"
    for ops' :: "'d device_ops" and stale' d base t n list r
    using that
  proof (rule logical_loop.raw_induct [rotated])
    fix loop :: "'d device_ops \<Rightarrow> u8 list \<Rightarrow> 'd \<Rightarrow> u32 \<Rightarrow> u32 \<Rightarrow> u8 \<Rightarrow> partition_info list \<Rightarrow> partition_info list outcome option"
      and ops' stale' d base t n list r
    assume IH: "\<And>ops' stale' d base t n list r. loop ops' stale' d base t n list = Some r
        \<Longrightarrow> ops' = ops \<longrightarrow> d = d0 \<longrightarrow> base = s \<longrightarrow> t = s \<longrightarrow> False"
      and run: "(case dev_read ops' d t 1 of
          Inl e \<Rightarrow> Some (Inl e)
        | Inr r \<Rightarrow>
            (case read_logical (case r of None \<Rightarrow> stale' | Some mbr \<Rightarrow> mbr) of
               Inl e \<Rightarrow> Some (Inl e)
             | Inr None \<Rightarrow> Some (Inr list)
             | Inr (Some (current, next')) \<Rightarrow>
                 (let list' = list @ [info_of n 0x6C current (t + relative_sector current)]
                  in if system_id next' = 0 then Some (Inr list')
                     else loop ops' stale' d base (base + relative_sector next') (n + 1) list'))) = Some r"
    show "ops' = ops \<longrightarrow> d = d0 \<longrightarrow> base = s \<longrightarrow> t = s \<longrightarrow> False"
    proof (intro impI)
      assume e: "ops' = ops" "d = d0" "base = s" "t = s"
      have "\<exists>list'. loop ops stale' d0 s s (n + 1) list' = Some r"
        using run assms unfolding e by (auto simp: read_content read_logical_eq Let_def)
      with IH show False by blast
    qed
  qed
  then show ?thesis by (cases "logical_loop ops stale d0 s s n list") blast+
qed

end

section \<open>Properties\<close>

text \<open>C12. On a RAM disk with one extended partition and at least one logical partition, \<open>writePartition\<close> with a number behind the last one
  appends: it succeeds and frees its lock, the table read afterwards lists the old partitions unchanged and a new last one, which starts
  one sector behind the given sector, where its own table is, and is one sector shorter. The device registered for it, however, carries the
  number of the partition that was last before, and starts at the given sector.\<close>

theorem logical_partition_appended:
  assumes "vdd_inv (sd_disk sd)" "partLock sd = Spinlock_new" "disk_ok (vdd_content (sd_disk sd)) base xs" "xs \<noteq> []"
    and "\<forall>t \<in> set (0 # startSector # map fst xs). vdd_has (sd_disk sd) t" "startSector \<notin> set (0 # map fst xs)"
    and "systemId \<noteq> 0" "4 + length xs < unat partNumber"
  shows "\<exists>sd1 sd2. StorageDevice_writePartition virtual_disk_ops fmt sd partNumber act systemId startSector sectorCount = Inr (sd1, SUCCESS)
    \<and> (let new = xs @ [(startSector, entry_for act systemId 1 (sectorCount - 1))]
       in disk_ok (vdd_content (sd_disk sd1)) base new \<and> partLock sd1 = Spinlock_new
          \<and> StorageDevice_readPartitionTable virtual_disk_ops stale sd1 =
              Some (Inr (sd2, table_infos (vdd_content (sd_disk sd) 0) (log_infos 5 new) [0, 1, 2, 3])))
    \<and> sd_calls sd1 = sd_calls sd @ [RegisterDevice (fmt (sd_name sd) (4 + of_nat (length xs)))
          \<lparr>pt_startSector = startSector, pt_sectorCount = sectorCount, pt_systemId = systemId\<rparr>]"
proof -
  obtain us a e where xs: "xs = us @ [(a, e)]" using assms(4) by (cases xs rule: rev_cases) auto
  note D = assms(3) [unfolded xs]
  have has: "vdd_has (sd_disk sd) 0" "\<forall>x \<in> set (us @ [(a, e)]). vdd_has (sd_disk sd) (fst x)" "vdd_has (sd_disk sd) startSector"
    using assms(5) xs by auto
  have n: "5 + length us < unat partNumber" "startSector \<notin> set (0 # map fst (us @ [(a, e)]))" using assms(6,8) xs by auto
  obtain sd1 where w: "StorageDevice_writePartition virtual_disk_ops fmt sd partNumber act systemId startSector sectorCount = Inr (sd1, SUCCESS)"
      "partLock sd1 = Spinlock_new" "vdd_inv (sd_disk sd1)" "vdd_has (sd_disk sd1) = vdd_has (sd_disk sd)"
      "disk_ok (vdd_content (sd_disk sd1)) base (us @ [(a, e), (startSector, entry_for act systemId 1 (sectorCount - 1))])"
      "vdd_content (sd_disk sd1) 0 = vdd_content (sd_disk sd) 0"
      "sd_calls sd1 = sd_calls sd @ [RegisterDevice (fmt (sd_name sd) (5 + of_nat (length us)))
          \<lparr>pt_startSector = startSector, pt_sectorCount = sectorCount, pt_systemId = systemId\<rparr>]"
    using vdd.writePartition_append [OF assms(1,2) D has n(2) assms(7) n(1), of fmt act sectorCount] by blast
  have base: "base = fst (hd xs)" using disk_ok_chain(2) [of _ _ "[]" xs, OF _ assms(4)] disk_ok_chain(1) [of _ base "[]" xs, OF _ assms(4)] assms(3)
    by fastforce
  then have "vdd_has (sd_disk sd1) base" using assms(4,5) w(4) by (cases xs) auto
  then obtain sd2 where "StorageDevice_readPartitionTable virtual_disk_ops stale sd1 = Some (Inr (sd2, table_infos (vdd_content (sd_disk sd1) 0)
        (log_infos 5 (us @ [(a, e), (startSector, entry_for act systemId 1 (sectorCount - 1))])) [0, 1, 2, 3]))"
    using vdd.readPartitionTable_infos [OF w(3,2,5), of stale] has w(4) by auto
  moreover have "(4 :: u8) + of_nat (length xs) = 5 + of_nat (length us)" by (simp add: xs)
  ultimately show ?thesis using w(1,2,5,6,7) by (auto simp: Let_def xs)
qed

text \<open>A disk with five sectors: an extended partition from sector 1 on, with logical partitions in the sectors 1 and 2.\<close>

definition sector_with :: "partition_entry \<Rightarrow> partition_entry \<Rightarrow> u8 list" where
  "sector_with e1 e2 = replicate 446 0 @ entry_bytes e1 @ entry_bytes e2 @ replicate 32 0 @ [0x55, 0xAA]"

lemma sector_with_simps [simp]:
  "length (sector_with e1 e2) = 512" "has_signature (sector_with e1 e2)" "entry_at (sector_with e1 e2) table_start = e1"
  "entry_at (sector_with e1 e2) second_entry = e2" "entry_at (sector_with e1 e2) (table_start + 0x10 * 2) = empty_entry"
  "entry_at (sector_with e1 e2) (table_start + 0x10 * 3) = empty_entry"
proof -
  have z: "entry_of (replicate 16 0) = empty_entry" by (simp add: entry_of_def empty_entry_def word16_def word32_def)
  have z2: "take 16 (drop (32 + n) (entry_bytes e1 @ entry_bytes e2 @ replicate 32 0 @ [0x55, 0xAA])) = replicate 16 0" if "n \<le> 16" for n
    using that by simp
  show "length (sector_with e1 e2) = 512" by (simp add: sector_with_def)
  show "has_signature (sector_with e1 e2)" by (simp add: has_signature_def sector_with_def)
  show "entry_at (sector_with e1 e2) table_start = e1" "entry_at (sector_with e1 e2) second_entry = e2"
    by (simp_all add: entry_at_def sector_with_def)
  show "entry_at (sector_with e1 e2) (table_start + 0x10 * 2) = empty_entry" "entry_at (sector_with e1 e2) (table_start + 0x10 * 3) = empty_entry"
    using z z2 [of 0] z2 [of 16] by (simp_all add: entry_at_def sector_with_def)
qed

definition demo_disk :: virtual_disk where
  "demo_disk = \<lparr>vdd_sectorSize = 512, vdd_sectorCount = 5, vdd_buffer =
     sector_with (entry_for False 0x0F 1 4) empty_entry
     @ sector_with (entry_for False 0x0B 1 1) (entry_for False 0x0F 1 1)
     @ sector_with (entry_for True 0x83 1 1) empty_entry @ replicate 1024 0\<rparr>"

abbreviation (input) demo_chain :: "(u32 \<times> partition_entry) list" where
  "demo_chain \<equiv> [(1, entry_for False 0x0B 1 1), (2, entry_for True 0x83 1 1)]"

abbreviation (input) demo_storage :: "virtual_disk storage_device" where
  "demo_storage \<equiv> StorageDevice_new [0x76] demo_disk"

lemma demo_content:
  "vdd_content demo_disk 0 = sector_with (entry_for False 0x0F 1 4) empty_entry"
  "vdd_content demo_disk 1 = sector_with (entry_for False 0x0B 1 1) (entry_for False 0x0F 1 1)"
  "vdd_content demo_disk 2 = sector_with (entry_for True 0x83 1 1) empty_entry"
  by (simp_all add: vdd_content_def demo_disk_def)

lemma demo_ok:
  "vdd_inv (sd_disk demo_storage)" "partLock demo_storage = Spinlock_new" "disk_ok (vdd_content (sd_disk demo_storage)) 1 demo_chain"
  "vdd_has (sd_disk demo_storage) t \<longleftrightarrow> t < 5"
proof -
  have ext: "extended_at (vdd_content demo_disk 0) 0" "\<not> extended_at (vdd_content demo_disk 0) 1" "\<not> extended_at (vdd_content demo_disk 0) 2"
    "\<not> extended_at (vdd_content demo_disk 0) 3"
    using sector_with_simps [of "entry_for False 0x0F 1 4" empty_entry]
    by (simp_all add: extended_at_def demo_content is_extended_def entry_for_def empty_entry_def)
  have "log_chain (vdd_content demo_disk) 1 1 demo_chain" by (simp add: demo_content entry_for_def empty_entry_def)
  moreover have "filter (extended_at (vdd_content demo_disk 0)) [0, 1, 2, 3] = [0]" using ext by simp
  moreover have "relative_sector (entry_at (vdd_content demo_disk 0) (table_start + 0x10 * 0)) = 1" by (simp add: demo_content entry_for_def)
  moreover have "has_signature (vdd_content demo_disk 0)" by (simp add: demo_content)
  ultimately show "disk_ok (vdd_content (sd_disk demo_storage)) 1 demo_chain"
    unfolding disk_ok_def StorageDevice_new_def by auto
  show "vdd_inv (sd_disk demo_storage)" by (simp add: vdd_inv_def demo_disk_def StorageDevice_new_def)
  show "partLock demo_storage = Spinlock_new" by (simp add: StorageDevice_new_def)
  show "vdd_has (sd_disk demo_storage) t \<longleftrightarrow> t < 5" by (simp add: vdd_has_def demo_disk_def StorageDevice_new_def)
qed

lemma demo_infos:
  "table_infos (vdd_content (sd_disk demo_storage) 0) L [0, 1, 2, 3] = info_of 5 0x65 (entry_for False 0x0F 1 4) 1 # L"
  using sector_with_simps [of "entry_for False 0x0F 1 4" empty_entry]
  by (simp add: StorageDevice_new_def demo_content Let_def is_extended_def entry_for_def empty_entry_def)

theorem logical_partition_appended_witness:
  "\<exists>sd1 sd2. StorageDevice_writePartition virtual_disk_ops (\<lambda>name n. name @ [0x70, 0x30 + n]) demo_storage 7 False 0x0C 3 2 = Inr (sd1, SUCCESS)
     \<and> StorageDevice_readPartitionTable virtual_disk_ops [] sd1 =
         Some (Inr (sd2, [info_of 5 0x65 (entry_for False 0x0F 1 4) 1, info_of 5 0x6C (entry_for False 0x0B 1 1) 2,
           info_of 6 0x6C (entry_for True 0x83 1 1) 3, info_of 7 0x6C (entry_for False 0x0C 1 1) 4]))
     \<and> sd_calls sd1 = [RegisterDevice [0x76, 0x70, 0x36] \<lparr>pt_startSector = 3, pt_sectorCount = 2, pt_systemId = 0x0C\<rparr>]"
proof -
  have h: "\<forall>t \<in> set (0 # 3 # map fst demo_chain). vdd_has (sd_disk demo_storage) t" "(3 :: u32) \<notin> set (0 # map fst demo_chain)"
    "(0x0C :: u8) \<noteq> 0" "4 + length demo_chain < unat (7 :: u8)" "demo_chain \<noteq> []"
    by (simp_all add: demo_ok(4))
  have "log_infos 5 (demo_chain @ [(3, entry_for False 0x0C 1 (2 - 1))]) =
      [info_of 5 0x6C (entry_for False 0x0B 1 1) 2, info_of 6 0x6C (entry_for True 0x83 1 1) 3, info_of 7 0x6C (entry_for False 0x0C 1 1) 4]"
    by (simp add: entry_for_def)
  with logical_partition_appended [OF demo_ok(1-3) h(5,1-4), of "\<lambda>name n. name @ [0x70, 0x30 + n]" False 2 "[]"]
  show ?thesis unfolding demo_infos Let_def by (auto simp: StorageDevice_new_def)
qed

text \<open>C13. Deleting a logical partition other than the first one succeeds, frees the lock and takes exactly that partition out of the list; the
  ones behind it move up by one number, and the table read afterwards lists the rest unchanged.\<close>

theorem logical_partition_deleted:
  assumes "vdd_inv (sd_disk sd)" "partLock sd = Spinlock_new" "disk_ok (vdd_content (sd_disk sd)) base xs"
    and "\<forall>t \<in> set (0 # map fst xs). vdd_has (sd_disk sd) t" "1 \<le> k" "k < length xs" "unat partNumber = 5 + k"
  shows "\<exists>sd1 sd2. StorageDevice_deletePartition virtual_disk_ops fmt children sd partNumber = Inr (sd1, SUCCESS)
    \<and> (let rest = take k xs @ drop (Suc k) xs
       in disk_ok (vdd_content (sd_disk sd1)) base rest \<and> partLock sd1 = Spinlock_new
          \<and> StorageDevice_readPartitionTable virtual_disk_ops stale sd1 =
              Some (Inr (sd2, table_infos (vdd_content (sd_disk sd) 0) (log_infos 5 rest) [0, 1, 2, 3])))"
proof -
  define us vs where "us = take (k - 1) xs" and "vs = drop (Suc k) xs"
  obtain a ea b eb where ab: "xs ! (k - 1) = (a, ea)" "xs ! k = (b, eb)" by (cases "xs ! (k - 1)", cases "xs ! k") blast
  have tk: "take k xs = us @ [(a, ea)]" using take_Suc_conv_app_nth [of "k - 1" xs] assms(5,6) ab by (simp add: us_def)
  then have xs: "xs = us @ [(a, ea), (b, eb)] @ vs" using id_take_nth_drop [OF assms(6)] ab by (simp add: vs_def)
  note D = assms(3) [unfolded xs]
  have has: "vdd_has (sd_disk sd) 0" "\<forall>x \<in> set (us @ [(a, ea), (b, eb)]). vdd_has (sd_disk sd) (fst x)" "\<forall>x \<in> set (us @ [(a, ea)] @ vs). vdd_has (sd_disk sd) (fst x)"
    using assms(4) xs by auto
  have n: "unat partNumber = 6 + length us" using assms(5,6,7) by (simp add: us_def)
  obtain sd1 where w: "StorageDevice_deletePartition virtual_disk_ops fmt children sd partNumber = Inr (sd1, SUCCESS)"
      "partLock sd1 = Spinlock_new" "vdd_inv (sd_disk sd1)" "vdd_has (sd_disk sd1) = vdd_has (sd_disk sd)"
      "disk_ok (vdd_content (sd_disk sd1)) base (us @ [(a, ea)] @ vs)" "vdd_content (sd_disk sd1) 0 = vdd_content (sd_disk sd) 0"
    using vdd.deletePartition_logical [OF assms(1,2) D has(1,2) n, of fmt children] by blast
  have "base \<in> fst ` set xs" using D by (cases us) (auto simp: disk_ok_def xs)
  then have "vdd_has (sd_disk sd1) base" using assms(4) w(4) by auto
  then obtain sd2 where "StorageDevice_readPartitionTable virtual_disk_ops stale sd1 = Some (Inr (sd2, table_infos (vdd_content (sd_disk sd1) 0)
        (log_infos 5 (us @ [(a, ea)] @ vs)) [0, 1, 2, 3]))"
    using vdd.readPartitionTable_infos [OF w(3,2,5), of stale] has w(4) by auto
  then show ?thesis using w(1,2,5,6) tk by (auto simp: Let_def vs_def)
qed

theorem logical_partition_deleted_witness:
  "\<exists>sd1 sd2. StorageDevice_deletePartition virtual_disk_ops (\<lambda>name n. name @ [0x70, 0x30 + n]) [] demo_storage 6 = Inr (sd1, SUCCESS)
     \<and> StorageDevice_readPartitionTable virtual_disk_ops [] sd1 =
         Some (Inr (sd2, [info_of 5 0x65 (entry_for False 0x0F 1 4) 1, info_of 5 0x6C (entry_for False 0x0B 1 1) 2]))"
proof -
  have h: "\<forall>t \<in> set (0 # map fst demo_chain). vdd_has (sd_disk demo_storage) t" "(1 :: nat) \<le> 1" "1 < length demo_chain"
    "unat (6 :: u8) = 5 + 1"
    by (simp_all add: demo_ok(4))
  have "log_infos 5 (take 1 demo_chain @ drop (Suc 1) demo_chain) = [info_of 5 0x6C (entry_for False 0x0B 1 1) 2]"
    by (simp add: entry_for_def)
  with logical_partition_deleted [OF demo_ok(1-3) h, of "\<lambda>name n. name @ [0x70, 0x30 + n]" "[]" "[]"]
  show ?thesis unfolding demo_infos Let_def by auto
qed

text \<open>C25. Writing a primary partition that is not an extended one replaces exactly its entry in sector 0: the other three entries, the
  signature and every other sector stay as they are, the lock is free afterwards, and an entry of the table can be replaced again.\<close>

theorem primary_partition_written:
  assumes "vdd_inv (sd_disk sd)" "partLock sd = Spinlock_new" "vdd_has (sd_disk sd) 0" "has_signature (vdd_content (sd_disk sd) 0)"
    and "1 \<le> partNumber" "partNumber \<le> 4" "\<not> is_extended systemId"
  shows "\<exists>sd' mbr'. StorageDevice_writePartition virtual_disk_ops fmt sd partNumber act systemId startSector sectorCount = Inr (sd', SUCCESS)
    \<and> partLock sd' = Spinlock_new \<and> vdd_inv (sd_disk sd') \<and> vdd_content (sd_disk sd') = (vdd_content (sd_disk sd))(0 := mbr')
    \<and> has_signature mbr'
    \<and> map (\<lambda>i. entry_at mbr' (table_start + 0x10 * i)) [0, 1, 2, 3] =
        (map (\<lambda>i. entry_at (vdd_content (sd_disk sd) 0) (table_start + 0x10 * i)) [0, 1, 2, 3])
          [unat partNumber - 1 := entry_for act systemId startSector sectorCount]"
proof -
  let ?old = "\<lambda>i. entry_at (vdd_content (sd_disk sd) 0) (table_start + 0x10 * i)" and ?k = "unat partNumber - 1"
  let ?e = "entry_for act systemId startSector sectorCount"
  obtain sd' mbr' where w: "StorageDevice_writePartition virtual_disk_ops fmt sd partNumber act systemId startSector sectorCount = Inr (sd', SUCCESS)"
      "partLock sd' = Spinlock_new" "vdd_inv (sd_disk sd')" "vdd_content (sd_disk sd') = (vdd_content (sd_disk sd))(0 := mbr')" "has_signature mbr'"
      "\<forall>i < 4. entry_at mbr' (table_start + 0x10 * i) = (if i = ?k then ?e else ?old i)"
    using vdd.writePartition_primary [OF assms, of fmt act startSector sectorCount] by blast
  have L: "[0, 1, 2, 3 :: nat] = [0 ..< 4]" by (simp add: upt_rec)
  have "map (\<lambda>i. entry_at mbr' (table_start + 0x10 * i)) [0 ..< 4] = (map ?old [0 ..< 4])[?k := ?e]"
    by (rule nth_equalityI) (use w(6) in \<open>auto simp: nth_list_update\<close>)
  then show ?thesis unfolding L using w(1-5) by blast
qed

theorem primary_partition_written_witness:
  "\<exists>sd' mbr'. StorageDevice_writePartition virtual_disk_ops (\<lambda>name n. name @ [0x70, 0x30 + n]) demo_storage 2 True 0x83 4 1 = Inr (sd', SUCCESS)
     \<and> vdd_content (sd_disk sd') = (vdd_content (sd_disk demo_storage))(0 := mbr')
     \<and> map (\<lambda>i. entry_at mbr' (table_start + 0x10 * i)) [0, 1, 2, 3] =
         [entry_for False 0x0F 1 4, entry_for True 0x83 4 1, empty_entry, empty_entry]"
proof -
  have c: "vdd_content (sd_disk demo_storage) 0 = sector_with (entry_for False 0x0F 1 4) empty_entry"
    by (simp add: StorageDevice_new_def demo_content)
  have h: "vdd_has (sd_disk demo_storage) 0" "has_signature (vdd_content (sd_disk demo_storage) 0)" "(1 :: u8) \<le> 2" "(2 :: u8) \<le> 4"
    "\<not> is_extended 0x83"
    by (simp_all add: demo_ok(4) c is_extended_def)
  have m: "map (\<lambda>i. entry_at (vdd_content (sd_disk demo_storage) 0) (table_start + 0x10 * i)) [0, 1, 2, 3] =
      [entry_for False 0x0F 1 4, empty_entry, empty_entry, empty_entry]"
    using sector_with_simps [of "entry_for False 0x0F 1 4" empty_entry] by (simp add: c)
  show ?thesis
    using primary_partition_written [OF demo_ok(1,2) h, of "\<lambda>name n. name @ [0x70, 0x30 + n]" True 4 1] unfolding m by auto
qed

section \<open>Partitions are not confined\<close>

text \<open>\<open>Partition::read\<close> and \<open>write\<close> compare the number of sectors with the size of the partition, but not where they start: a partition of one
  sector at sector 1 gives access to sector 4.\<close>

lemma partition_escapes:
  "Partition_read virtual_disk_ops \<lparr>pt_startSector = 1, pt_sectorCount = 1, pt_systemId = 0\<rparr> demo_disk 3 1 =
     Inr (Some (vdd_content demo_disk 4))"
  using vdd.read_content [of demo_disk 4] demo_ok(1) demo_ok(4) [of 4]
  by (simp add: Partition_read_def virtual_disk_ops_def StorageDevice_new_def)

text \<open>The check of the RAM disk wraps around for the last sector number.\<close>

lemma vdd_read_wraps: "VirtualDiskDrive_read demo_disk 0xFFFFFFFF 1 = Inl BadAccess"
  by (simp add: VirtualDiskDrive_read_def demo_disk_def bytes_from_def)

text \<open>A sector size below 512 is corrected for the buffer only.\<close>

lemma vdd_small_sectors: "vdd_sectorSize (VirtualDiskDrive_new 0 256 4) = 256" "length (vdd_buffer (VirtualDiskDrive_new 0 256 4)) = 2048"
  by (simp_all add: VirtualDiskDrive_new_def)

end
