(* ===== verification/Event_Bus.thy ===== *)
theory Event_Bus
  imports Interrupts Linked_Queues Scheduling_Properties Strings
begin

text \<open>The event bus (\<open>kernel/service/EventBus.cpp\<close>) and its publishers (\<open>kernel/event/EventPublisher.cpp\<close>).
  A publisher is a kernel thread that forwards events to one receiver; \<open>eb_objects\<close> holds the publisher objects
  by address, the address of a new one is an argument of \<open>subscribe\<close>. The type of an event is a \<open>String\<close>, here the
  list of its characters, and \<open>getType\<close> is the virtual \<open>Event::getType\<close>. Reference counts of \<open>SmartPointer\<close>s are
  left out: an event is a value.\<close>

section \<open>Keys\<close>

type_synonym event_type = "u8 list"

definition type_hash :: "event_type \<Rightarrow> u32" where
  "type_hash cs = foldl (\<lambda>hash c. hash + scast c) 0 cs"

lemma type_hash_String:
  "length cs < 4294967296 \<Longrightarrow> String_hashCode \<lparr>str_len = of_nat (length cs), str_buffer = cs @ [0]\<rparr> = Inr (type_hash cs)"
  by (simp add: String_hashCode_def copy_bytes_def type_hash_def unat_of_nat)

definition Pair_hash :: "('b \<Rightarrow> u32) \<Rightarrow> u32 \<times> 'b \<Rightarrow> u32" where
  "Pair_hash hash pair =
     (let k1 = fst pair; k2 = hash (snd pair) in (((k1 + k2) * (k1 + k2 + 1)) div 2) + k2)"

abbreviation key_hash :: "u32 \<times> event_type \<Rightarrow> u32" where
  "key_hash \<equiv> Pair_hash type_hash"

definition Event_is :: "('e \<Rightarrow> event_type) \<Rightarrow> 'e \<Rightarrow> event_type \<Rightarrow> bool" where
  "Event_is getType event type \<longleftrightarrow> getType event = type"

section \<open>Publishers\<close>

record 'e event_publisher =
  eventQueue :: "'e linked_queue"
  receiver :: u32
  ep_isRunning :: bool

definition EventPublisher_new ::
  "'p scheduler \<Rightarrow> u32 \<Rightarrow> u32 \<Rightarrow> u32 \<Rightarrow> 'p scheduler \<times> u32 \<times> 'e event_publisher" where
  "EventPublisher_new s this idGenerator r =
     (let (s', idGenerator') = Thread_new s this 0xFF idGenerator
      in (s', idGenerator', \<lparr>eventQueue = LBQ_empty, receiver = r, ep_isRunning = True\<rparr>))"

definition EventPublisher_add :: "'e event_publisher \<Rightarrow> 'e \<Rightarrow> 'e event_publisher outcome" where
  "EventPublisher_add p event = andThen (LBQ_push (eventQueue p) event) (\<lambda>q. Inr (p\<lparr>eventQueue := q\<rparr>))"

definition EventPublisher_stop :: "'e event_publisher \<Rightarrow> 'e event_publisher" where
  "EventPublisher_stop p = p\<lparr>ep_isRunning := False\<rparr>"

text \<open>The inner loop of \<open>run\<close>; \<open>onEvent\<close> is the virtual \<open>Receiver::onEvent\<close>.\<close>

partial_function (option) EventPublisher_forward ::
  "(u32 \<Rightarrow> 'e \<Rightarrow> 'w \<Rightarrow> 'w outcome) \<Rightarrow> 'e event_publisher \<Rightarrow> 'w \<Rightarrow> ('e event_publisher \<times> 'w) outcome option" where
  "EventPublisher_forward onEvent p w =
     (if LBQ_isEmpty (eventQueue p) then Some (Inr (p, w))
      else case LBQ_pop (eventQueue p) of
             Inl f \<Rightarrow> Some (Inl f)
           | Inr (q, event) \<Rightarrow>
               (case onEvent (receiver p) event w of
                  Inl f \<Rightarrow> Some (Inl f)
                | Inr w' \<Rightarrow> EventPublisher_forward onEvent (p\<lparr>eventQueue := q\<rparr>) w'))"

declare EventPublisher_forward.simps [code]

text \<open>One round of \<open>run\<close>, up to the \<open>yield\<close>.\<close>

definition EventPublisher_round ::
  "(u32 \<Rightarrow> 'e \<Rightarrow> 'w \<Rightarrow> 'w outcome) \<Rightarrow> 'e event_publisher \<Rightarrow> 'w \<Rightarrow> ('e event_publisher \<times> 'w) outcome option" where
  "EventPublisher_round onEvent p w =
     (if ep_isRunning p then EventPublisher_forward onEvent p w else Some (Inr (p, w)))"

section \<open>The bus\<close>

record ('e, 'p) event_bus =
  publishers :: "(event_type, u32) list_map"
  receiverMap :: "(u32 \<times> event_type, u32) hash_map"
  eventBuffer :: "'e linked_queue"
  eb_lock :: u8
  registeredPublishers :: u32
  eb_isRunning :: bool
  eb_isInitialized :: bool
  eb_objects :: "u32 \<rightharpoonup> 'e event_publisher"
  eb_scheduler :: "'p scheduler"
  eb_idGenerator :: u32

definition EventBus_new :: "'p scheduler \<Rightarrow> u32 \<Rightarrow> u32 \<Rightarrow> ('e, 'p) event_bus" where
  "EventBus_new s this idGenerator =
     (let (s', idGenerator') = Thread_new s this 0xFF idGenerator
      in \<lparr>publishers = ListMap_new, receiverMap = HashMap_default, eventBuffer = LBQ_empty, eb_lock = Spinlock_new,
          registeredPublishers = 0, eb_isRunning = True, eb_isInitialized = True, eb_objects = Map.empty,
          eb_scheduler = s', eb_idGenerator = idGenerator'\<rparr>)"

definition EventBus_subscribe ::
  "u32 \<Rightarrow> ('e, 'p) event_bus \<Rightarrow> u32 \<Rightarrow> event_type \<Rightarrow> ('e, 'p) event_bus outcome" where
  "EventBus_subscribe new b r type =
     (let (s, idGenerator, publisher) = EventPublisher_new (eb_scheduler b) new (eb_idGenerator b) r; key = (r, type)
      in andThen (Spinlock_acquire (eb_lock b)) (\<lambda>l.
         andThen (HashMap_containsKey key_hash (receiverMap b) key) (\<lambda>found.
         if found then Inl (Thrown ILLEGAL_STATE)
         else andThen (HashMap_put key_hash (receiverMap b) key new) (\<lambda>m.
              andThen (ListMap_add type_hash 0 (publishers b) type new) (\<lambda>ps.
              andThen (Thread_start s new) (\<lambda>s'.
              Inr (b\<lparr>receiverMap := m, publishers := ps, registeredPublishers := registeredPublishers b + 1,
                     eb_lock := Spinlock_release l, eb_objects := (eb_objects b)(new \<mapsto> publisher),
                     eb_scheduler := s', eb_idGenerator := idGenerator\<rparr>)))))))"

definition EventBus_unsubscribe ::
  "('e, 'p) event_bus \<Rightarrow> u32 \<Rightarrow> event_type \<Rightarrow> ('e, 'p) event_bus outcome" where
  "EventBus_unsubscribe b r type =
     (let key = (r, type)
      in andThen (Spinlock_acquire (eb_lock b)) (\<lambda>l.
         andThen (HashMap_containsKey key_hash (receiverMap b) key) (\<lambda>found.
         if \<not> found then Inr (b\<lparr>eb_lock := Spinlock_release l\<rparr>)
         else andThen (HashMap_get key_hash (receiverMap b) key) (\<lambda>(m, publisher).
              andThen (Scheduler_kill (eb_scheduler b) publisher) (\<lambda>s.
              andThen (ListMap_remove type_hash (publishers b) type publisher) (\<lambda>ps.
              andThen (HashMap_remove key_hash m key) (\<lambda>(m', v).
              Inr (b\<lparr>receiverMap := m', publishers := ps, registeredPublishers := registeredPublishers b - 1,
                     eb_lock := Spinlock_release l, eb_objects := (eb_objects b)(publisher := None),
                     eb_scheduler := s\<rparr>))))))))"

definition publisher_push ::
  "'e \<Rightarrow> u32 \<Rightarrow> (u32 \<rightharpoonup> 'e event_publisher) \<Rightarrow> (u32 \<rightharpoonup> 'e event_publisher) outcome" where
  "publisher_push event p objects =
     (case objects p of
        None \<Rightarrow> Inl BadAccess
      | Some publisher \<Rightarrow> andThen (EventPublisher_add publisher event) (\<lambda>publisher'. Inr (objects(p \<mapsto> publisher'))))"

text \<open>The body of the loop of \<open>notify\<close> for an event that was taken from the buffer; False stands for its \<open>return\<close>.\<close>

definition EventBus_deliver ::
  "('e \<Rightarrow> event_type) \<Rightarrow> ('e, 'p) event_bus \<Rightarrow> 'e \<Rightarrow> (('e, 'p) event_bus \<times> bool) outcome" where
  "EventBus_deliver getType b event =
     andThen (ListMap_find type_hash (publishers b) (getType event)) (\<lambda>(ps, list).
     case list of
       None \<Rightarrow> Inr (b\<lparr>publishers := ps\<rparr>, False)
     | Some p \<Rightarrow>
         andThen (list_at ps p) (\<lambda>publisherList.
         andThen (trigger_loop (publisher_push event) publisherList (unat (ArrayList_size publisherList)) 0 (eb_objects b))
           (\<lambda>objects. Inr (b\<lparr>publishers := ps, eb_objects := objects\<rparr>, True))))"

partial_function (option) EventBus_notify ::
  "('e \<Rightarrow> event_type) \<Rightarrow> ('e, 'p) event_bus \<Rightarrow> ('e, 'p) event_bus outcome option" where
  "EventBus_notify getType b =
     (if LBQ_isEmpty (eventBuffer b) then Some (Inr b)
      else case andThen (LBQ_pop (eventBuffer b)) (\<lambda>(q, event). EventBus_deliver getType (b\<lparr>eventBuffer := q\<rparr>) event) of
             Inl f \<Rightarrow> Some (Inl f)
           | Inr (b', continue) \<Rightarrow> if continue then EventBus_notify getType b' else Some (Inr b'))"

declare EventBus_notify.simps [code]

text \<open>One round of \<open>run\<close>, up to the \<open>yield\<close>.\<close>

definition EventBus_round :: "('e \<Rightarrow> event_type) \<Rightarrow> ('e, 'p) event_bus \<Rightarrow> ('e, 'p) event_bus outcome option" where
  "EventBus_round getType b =
     (if \<not> eb_isRunning b then Some (Inr b)
      else case Spinlock_acquire (eb_lock b) of
             Inl f \<Rightarrow> Some (Inl f)
           | Inr l \<Rightarrow>
               (case EventBus_notify getType (b\<lparr>eb_lock := l\<rparr>) of
                  None \<Rightarrow> None
                | Some r \<Rightarrow> Some (andThen r (\<lambda>b'. Inr (b'\<lparr>eb_lock := Spinlock_release (eb_lock b')\<rparr>)))))"

definition EventBus_publish :: "('e, 'p) event_bus \<Rightarrow> 'e \<Rightarrow> ('e, 'p) event_bus outcome" where
  "EventBus_publish b event =
     (if \<not> eb_isInitialized b then Inr b
      else andThen (LBQ_push (eventBuffer b) event) (\<lambda>q. Inr (b\<lparr>eventBuffer := q\<rparr>)))"

end
