(* ===== verification/Event_Properties.thy ===== *)
theory Event_Properties
  imports Event_Bus
begin

text \<open>Correctness of the event bus: the two maps of subscriptions stay consistent, every event reaches the
  publishers of its type in the order of publication, and a publisher hands its events to its receiver in that
  order. The queues are used through the \<open>fifo\<close> contract and the maps through \<open>map_contract\<close>.\<close>

section \<open>Publishers\<close>

lemma LBQ_isEmpty_abs: "lbq_inv q \<Longrightarrow> LBQ_isEmpty q \<longleftrightarrow> lbq_abs q = []"
proof -
  assume "lbq_inv q"
  then have "unat (q_length q) = length (lbq_abs q)" by (auto simp: lbq_inv_def lbq_rep_def)
  then show ?thesis by (cases "lbq_abs q") (auto simp: LBQ_isEmpty_def unat_eq_0)
qed

lemma LBQ_empty_inv [simp]: "lbq_inv LBQ_empty" "lbq_abs LBQ_empty = []"
proof -
  have "lbq_rep LBQ_empty [] []" by (simp add: lbq_rep_def LBQ_empty_def)
  then show "lbq_inv LBQ_empty" "lbq_abs LBQ_empty = []" by (rule lbq_rep_inv, rule lbq_rep_abs)
qed

text \<open>A publisher hands all events of its queue to its receiver, in order, and stops at the first fault.\<close>

lemma forward_run:
  assumes "lbq_inv (eventQueue p)"
  shows "\<exists>q. lbq_inv q \<and> lbq_abs q = [] \<and> EventPublisher_forward onEvent p w =
    Some (andThen (run_all (onEvent (receiver p)) (lbq_abs (eventQueue p)) w) (\<lambda>w'. Inr (p\<lparr>eventQueue := q\<rparr>, w')))"
  using assms
proof (induction "lbq_abs (eventQueue p)" arbitrary: p w)
  case Nil
  then show ?case using LBQ_isEmpty_abs [OF Nil.prems]
    by (intro exI [of _ "eventQueue p"]) (simp add: EventPublisher_forward.simps)
next
  case (Cons e es)
  note abs = Cons.hyps(2) [symmetric]
  obtain q where q: "LBQ_pop (eventQueue p) = Inr (q, e)" "lbq_inv q" "lbq_abs q = es"
    using lbq.pop_front [OF Cons.prems abs] by blast
  have ne: "\<not> LBQ_isEmpty (eventQueue p)" using LBQ_isEmpty_abs [OF Cons.prems] abs by simp
  show ?case
  proof (cases "onEvent (receiver p) e w")
    case (Inl f)
    then have "EventPublisher_forward onEvent p w = Some (Inl f)"
      using q(1) ne by (subst EventPublisher_forward.simps) simp
    then show ?thesis using Inl abs LBQ_empty_inv by (intro exI [of _ LBQ_empty]) simp
  next
    case (Inr w')
    then have "EventPublisher_forward onEvent p w = EventPublisher_forward onEvent (p\<lparr>eventQueue := q\<rparr>) w'"
      using q(1) ne by (subst EventPublisher_forward.simps) simp
    then show ?thesis using Cons.hyps(1) [of "p\<lparr>eventQueue := q\<rparr>" w'] q Inr abs by simp
  qed
qed

text \<open>Pushing an event to some publishers appends it to their queues and leaves the others alone.\<close>

lemma push_publishers:
  assumes "distinct ps"
    and "\<And>p. p \<in> set ps \<Longrightarrow> \<exists>pub. st p = Some pub \<and> lbq_inv (eventQueue pub) \<and> length (lbq_abs (eventQueue pub)) < 4294967295"
  shows "\<exists>st'. run_all (publisher_push e) ps st = Inr st' \<and> (\<forall>p. p \<notin> set ps \<longrightarrow> st' p = st p)
    \<and> (\<forall>p \<in> set ps. \<exists>pub q. st p = Some pub \<and> st' p = Some (pub\<lparr>eventQueue := q\<rparr>) \<and> lbq_inv q
         \<and> lbq_abs q = lbq_abs (eventQueue pub) @ [e])"
  using assms
proof (induction ps arbitrary: st)
  case (Cons p ps)
  obtain pub where pub: "st p = Some pub" "lbq_inv (eventQueue pub)" "length (lbq_abs (eventQueue pub)) < 4294967295"
    using Cons.prems(2) [of p] by auto
  obtain q where q: "LBQ_push (eventQueue pub) e = Inr q" "lbq_inv q" "lbq_abs q = lbq_abs (eventQueue pub) @ [e]"
    using lbq.push_back [OF pub(2,3)] by blast
  let ?st = "st(p \<mapsto> pub\<lparr>eventQueue := q\<rparr>)"
  have p: "p \<notin> set ps" "distinct ps" using Cons.prems(1) by simp_all
  have "\<exists>pub. ?st p' = Some pub \<and> lbq_inv (eventQueue pub) \<and> length (lbq_abs (eventQueue pub)) < 4294967295"
    if "p' \<in> set ps" for p' using that p(1) Cons.prems(2) [of p'] by auto
  from Cons.IH [of ?st, OF p(2) this] obtain st' where st': "run_all (publisher_push e) ps ?st = Inr st'"
      "\<forall>p'. p' \<notin> set ps \<longrightarrow> st' p' = ?st p'"
      "\<forall>p' \<in> set ps. \<exists>pub q. ?st p' = Some pub \<and> st' p' = Some (pub\<lparr>eventQueue := q\<rparr>) \<and> lbq_inv q
         \<and> lbq_abs q = lbq_abs (eventQueue pub) @ [e]"
    by blast
  have "run_all (publisher_push e) (p # ps) st = Inr st'"
    using pub(1) q(1) st'(1) by (simp add: publisher_push_def EventPublisher_add_def)
  moreover have "\<exists>pub q. st p' = Some pub \<and> st' p' = Some (pub\<lparr>eventQueue := q\<rparr>) \<and> lbq_inv q
         \<and> lbq_abs q = lbq_abs (eventQueue pub) @ [e]" if "p' \<in> set (p # ps)" for p'
  proof (cases "p' = p")
    case True then show ?thesis using pub(1) q st'(2) p(1) by auto
  next
    case False then show ?thesis using that st'(3) by fastforce
  qed
  ultimately show ?case using st'(2) by (intro exI [of _ st']) auto
qed simp

section \<open>Consistent subscriptions\<close>

abbreviation subs :: "('e, 'p) event_bus \<Rightarrow> u32 \<times> event_type \<rightharpoonup> u32" where
  "subs b \<equiv> hm_abs key_hash (receiverMap b)"

abbreviation watchers :: "('e, 'p) event_bus \<Rightarrow> event_type \<Rightarrow> u32 list" where
  "watchers b \<equiv> lm_abs type_hash (publishers b)"

text \<open>The publishers of a type are those of the receivers subscribed for it, each once; a publisher serves one
  subscription, exists and works for the receiver that subscribed.\<close>

definition bus_inv :: "('e, 'p) event_bus \<Rightarrow> bool" where
  "bus_inv b \<longleftrightarrow> lm_inv type_hash (publishers b) \<and> hm_inv key_hash (receiverMap b) \<and> lbq_inv (eventBuffer b)
     \<and> (\<forall>t. distinct (watchers b t)) \<and> (\<forall>t p. p \<in> set (watchers b t) \<longleftrightarrow> (\<exists>r. subs b (r, t) = Some p))
     \<and> inj_on (subs b) (dom (subs b))
     \<and> (\<forall>r t p. subs b (r, t) = Some p \<longrightarrow>
          (\<exists>pub. eb_objects b p = Some pub \<and> receiver pub = r \<and> ep_isRunning pub \<and> lbq_inv (eventQueue pub)))
     \<and> registeredPublishers b = of_nat (card (dom (subs b)))"

lemma bus_inv_new [simp]: "bus_inv (EventBus_new s this ids)"
  by (simp add: bus_inv_def EventBus_new_def split_beta Let_def HashMap_default_def hm_inv_new)

text \<open>What delivering the events \<open>evs\<close> changes.\<close>

definition delivered :: "('e \<Rightarrow> event_type) \<Rightarrow> 'e list \<Rightarrow> ('e, 'p) event_bus \<Rightarrow> ('e, 'p) event_bus \<Rightarrow> bool" where
  "delivered getType evs b b' \<longleftrightarrow> bus_inv b' \<and> watchers b' = watchers b
     \<and> b' = b\<lparr>publishers := publishers b', eventBuffer := eventBuffer b', eb_objects := eb_objects b'\<rparr>
     \<and> (\<forall>r t p. subs b (r, t) = Some p \<longrightarrow> (\<exists>pub q. eb_objects b p = Some pub
          \<and> eb_objects b' p = Some (pub\<lparr>eventQueue := q\<rparr>)
          \<and> lbq_abs q = lbq_abs (eventQueue pub) @ filter (\<lambda>e. getType e = t) evs))"

lemma bus_object:
  "bus_inv b \<Longrightarrow> subs b (r, t) = Some p
     \<Longrightarrow> \<exists>pub. eb_objects b p = Some pub \<and> receiver pub = r \<and> ep_isRunning pub \<and> lbq_inv (eventQueue pub)"
  unfolding bus_inv_def by blast

lemma bus_publisher:
  assumes "bus_inv b" "subs b (r, t) = Some p"
  obtains pub where "eb_objects b p = Some pub" "receiver pub = r" "ep_isRunning pub" "lbq_inv (eventQueue pub)"
  using bus_object [OF assms] by blast

lemma delivered_refl:
  assumes "bus_inv b"
  shows "delivered getType [] b b"
proof -
  have "\<exists>pub q. eb_objects b p = Some pub \<and> eb_objects b p = Some (pub\<lparr>eventQueue := q\<rparr>)
      \<and> lbq_abs q = lbq_abs (eventQueue pub)" if s: "subs b (r, t) = Some p" for r t p
  proof -
    obtain pub where "eb_objects b p = Some pub" using bus_publisher [OF assms s] .
    then show ?thesis by (intro exI [of _ pub] exI [of _ "eventQueue pub"]) simp
  qed
  then show ?thesis using assms by (simp add: delivered_def)
qed

lemma delivered_trans:
  assumes "delivered getType xs b b1" "delivered getType ys b1 b2"
  shows "delivered getType (xs @ ys) b b2"
proof -
  have b1: "b1 = b\<lparr>publishers := publishers b1, eventBuffer := eventBuffer b1, eb_objects := eb_objects b1\<rparr>"
    and b2: "b2 = b1\<lparr>publishers := publishers b2, eventBuffer := eventBuffer b2, eb_objects := eb_objects b2\<rparr>"
    using assms unfolding delivered_def by blast+
  have m: "receiverMap b1 = receiverMap b" using arg_cong [OF b1, of receiverMap] by simp
  have "b2 = b\<lparr>publishers := publishers b2, eventBuffer := eventBuffer b2, eb_objects := eb_objects b2\<rparr>"
    using b2 by (subst (asm) b1) simp
  moreover have "\<exists>pub q. eb_objects b p = Some pub \<and> eb_objects b2 p = Some (pub\<lparr>eventQueue := q\<rparr>)
      \<and> lbq_abs q = lbq_abs (eventQueue pub) @ filter (\<lambda>e. getType e = t) (xs @ ys)" if s: "subs b (r, t) = Some p" for r t p
  proof -
    obtain pub q where 1: "eb_objects b p = Some pub" "eb_objects b1 p = Some (pub\<lparr>eventQueue := q\<rparr>)"
        "lbq_abs q = lbq_abs (eventQueue pub) @ filter (\<lambda>e. getType e = t) xs"
      using assms(1) s unfolding delivered_def by blast
    moreover obtain pub' q' where "eb_objects b1 p = Some pub'" "eb_objects b2 p = Some (pub'\<lparr>eventQueue := q'\<rparr>)"
        "lbq_abs q' = lbq_abs (eventQueue pub') @ filter (\<lambda>e. getType e = t) ys"
      using assms(2) s unfolding delivered_def m by blast
    ultimately show ?thesis by auto
  qed
  ultimately show ?thesis using assms unfolding delivered_def by simp
qed

section \<open>Delivery\<close>

definition queues_fit :: "('e, 'p) event_bus \<Rightarrow> nat \<Rightarrow> bool" where
  "queues_fit b n \<longleftrightarrow> (\<forall>r t p pub. subs b (r, t) = Some p \<longrightarrow> eb_objects b p = Some pub
     \<longrightarrow> length (lbq_abs (eventQueue pub)) + n \<le> 4294967295)"

lemma delivered_subs: "delivered getType evs b b' \<Longrightarrow> receiverMap b' = receiverMap b"
  unfolding delivered_def by (metis (no_types, lifting) event_bus.select_convs(2) event_bus.surjective event_bus.update_convs(1,3,8))

lemma delivered_fit:
  assumes D: "delivered getType evs b b'" and F: "queues_fit b (length evs + n)"
  shows "queues_fit b' n"
  unfolding queues_fit_def
proof (intro allI impI)
  fix r t p pub' assume p: "subs b' (r, t) = Some p" "eb_objects b' p = Some pub'"
  obtain pub q where "eb_objects b p = Some pub" "eb_objects b' p = Some (pub\<lparr>eventQueue := q\<rparr>)"
      "lbq_abs q = lbq_abs (eventQueue pub) @ filter (\<lambda>e. getType e = t) evs"
    using D p(1) delivered_subs [OF D] unfolding delivered_def by metis
  moreover have "length (lbq_abs (eventQueue pub)) + (length evs + n) \<le> 4294967295"
    using F p(1) \<open>eb_objects b p = Some pub\<close> delivered_subs [OF D] unfolding queues_fit_def by metis
  moreover have "length (lbq_abs (eventQueue pub')) = length (lbq_abs (eventQueue pub)) + length (filter (\<lambda>e. getType e = t) evs)"
    using calculation p(2) by auto
  ultimately show "length (lbq_abs (eventQueue pub')) + n \<le> 4294967295"
    using length_filter_le [of "\<lambda>e. getType e = t" evs] by linarith
qed

lemma delivered_buffer:
  assumes "bus_inv b" "lbq_inv q"
  shows "delivered getType [] b (b\<lparr>eventBuffer := q\<rparr>)"
  using delivered_refl [OF assms(1), of getType] assms by (simp add: delivered_def bus_inv_def)

text \<open>An event goes to the publishers of its type, and to no other.\<close>

lemma push_watchers:
  assumes I: "bus_inv b" and F: "queues_fit b 1"
  shows "\<exists>st. run_all (publisher_push e) (watchers b (getType e)) (eb_objects b) = Inr st
    \<and> (\<forall>r t p. subs b (r, t) = Some p \<longrightarrow> (\<exists>pub q. eb_objects b p = Some pub \<and> st p = Some (pub\<lparr>eventQueue := q\<rparr>)
         \<and> lbq_inv q \<and> lbq_abs q = lbq_abs (eventQueue pub) @ filter (\<lambda>e. getType e = t) [e]))"
proof -
  let ?ws = "watchers b (getType e)"
  have ws: "distinct ?ws" "\<And>p. p \<in> set ?ws \<longleftrightarrow> (\<exists>r. subs b (r, getType e) = Some p)"
    using I by (auto simp: bus_inv_def)
  have other: "t = getType e" if s: "subs b (r, t) = Some p" and w: "p \<in> set ?ws" for r t p
  proof -
    obtain r' where "subs b (r', getType e) = Some p" using w ws(2) by blast
    moreover have "inj_on (subs b) (dom (subs b))" using I by (simp add: bus_inv_def)
    ultimately have "(r, t) = (r', getType e)" using s by (auto dest: inj_onD [of _ _ "(r, t)" "(r', getType e)"])
    then show ?thesis by simp
  qed
  have pubs: "\<exists>pub. eb_objects b p = Some pub \<and> lbq_inv (eventQueue pub) \<and> length (lbq_abs (eventQueue pub)) < 4294967295"
    if w: "p \<in> set ?ws" for p
  proof -
    obtain r where r: "subs b (r, getType e) = Some p" using w ws(2) by blast
    then obtain pub where "eb_objects b p = Some pub" "lbq_inv (eventQueue pub)" using bus_publisher [OF I] by blast
    moreover have "length (lbq_abs (eventQueue pub)) + 1 \<le> 4294967295" using F r calculation unfolding queues_fit_def by blast
    ultimately show ?thesis by auto
  qed
  obtain st where st: "run_all (publisher_push e) ?ws (eb_objects b) = Inr st"
      "\<And>p. p \<notin> set ?ws \<Longrightarrow> st p = eb_objects b p"
      "\<And>p. p \<in> set ?ws \<Longrightarrow> \<exists>pub q. eb_objects b p = Some pub \<and> st p = Some (pub\<lparr>eventQueue := q\<rparr>) \<and> lbq_inv q
         \<and> lbq_abs q = lbq_abs (eventQueue pub) @ [e]"
    using push_publishers [where st = "eb_objects b", OF ws(1) pubs, of e] by blast
  have step: "\<exists>pub q. eb_objects b p = Some pub \<and> st p = Some (pub\<lparr>eventQueue := q\<rparr>) \<and> lbq_inv q
      \<and> lbq_abs q = lbq_abs (eventQueue pub) @ filter (\<lambda>e. getType e = t) [e]" if s: "subs b (r, t) = Some p" for r t p
  proof (cases "p \<in> set ?ws")
    case True then show ?thesis using st(3) [OF True] other [OF s True] by simp
  next
    case False
    then have "t \<noteq> getType e" using s ws(2) by blast
    moreover obtain pub where "eb_objects b p = Some pub" "lbq_inv (eventQueue pub)" using bus_publisher [OF I s] .
    ultimately show ?thesis using st(2) [OF False] by (intro exI [of _ pub] exI [of _ "eventQueue pub"]) simp
  qed
  then show ?thesis using st(1) by blast
qed

lemma deliver_abs:
  assumes I: "bus_inv b" and F: "queues_fit b 1"
  shows "\<exists>b'. EventBus_deliver getType b e = Inr (b', watchers b (getType e) \<noteq> []) \<and> delivered getType [e] b b'
    \<and> eventBuffer b' = eventBuffer b"
proof -
  let ?ws = "watchers b (getType e)"
  obtain st where st: "run_all (publisher_push e) ?ws (eb_objects b) = Inr st"
    and step: "\<And>r t p. subs b (r, t) = Some p \<Longrightarrow> \<exists>pub q. eb_objects b p = Some pub \<and> st p = Some (pub\<lparr>eventQueue := q\<rparr>)
         \<and> lbq_inv q \<and> lbq_abs q = lbq_abs (eventQueue pub) @ filter (\<lambda>e. getType e = t) [e]"
    using push_watchers [OF assms, of e getType] by blast
  have lm: "lm_inv type_hash (publishers b)" using I by (simp add: bus_inv_def)
  obtain m where m: "lm_inv type_hash (publishers b\<lparr>lm_map := m\<rparr>)" "lm_abs type_hash (publishers b\<lparr>lm_map := m\<rparr>) = watchers b"
      and f: "if ?ws = [] then ListMap_find type_hash (publishers b) (getType e) = Inr (publishers b\<lparr>lm_map := m\<rparr>, None)
       else \<exists>p l. ListMap_find type_hash (publishers b) (getType e) = Inr (publishers b\<lparr>lm_map := m\<rparr>, Some p)
              \<and> list_at (publishers b\<lparr>lm_map := m\<rparr>) p = Inr l \<and> al_wf l \<and> al_abs l = ?ws"
    using ListMap_find_abs [OF lm, of "getType e"] by blast
  let ?b = "b\<lparr>publishers := publishers b\<lparr>lm_map := m\<rparr>, eb_objects := st\<rparr>"
  have "EventBus_deliver getType b e = Inr (?b, ?ws \<noteq> [])"
  proof (cases "?ws = []")
    case True
    then have "st = eb_objects b" using st by simp
    then show ?thesis using True f by (simp add: EventBus_deliver_def)
  next
    case False
    then obtain p l where l: "ListMap_find type_hash (publishers b) (getType e) = Inr (publishers b\<lparr>lm_map := m\<rparr>, Some p)"
        "list_at (publishers b\<lparr>lm_map := m\<rparr>) p = Inr l" "al_wf l" "al_abs l = ?ws"
      using f by auto
    then have "trigger_loop (publisher_push e) l (unat (ArrayList_size l)) 0 (eb_objects b) = Inr st"
      using trigger_loop_run [of l 0 "unat (ArrayList_size l)" "publisher_push e" "eb_objects b"] length_al_abs [OF l(3)] st
      by (simp add: ArrayList_size_def)
    then show ?thesis using False l by (simp add: EventBus_deliver_def)
  qed
  moreover have "bus_inv ?b"
  proof -
    have "\<exists>pub. st p = Some pub \<and> receiver pub = r \<and> ep_isRunning pub \<and> lbq_inv (eventQueue pub)"
      if s: "subs b (r, t) = Some p" for r t p
      using step [OF s] bus_publisher [OF I s] by (metis event_publisher.select_convs event_publisher.surjective
          event_publisher.update_convs(1) option.inject)
    then show ?thesis using I m by (simp add: bus_inv_def)
  qed
  then have "delivered getType [e] b ?b" using step m(2) unfolding delivered_def by fastforce
  ultimately show ?thesis by (intro exI [of _ ?b]) simp
qed

text \<open>\<open>notify\<close> works through the buffer until it is empty or an event without a receiver ends the loop.\<close>

lemma notify_abs:
  assumes "bus_inv b" "queues_fit b (length (lbq_abs (eventBuffer b)))"
  shows "\<exists>b' n. EventBus_notify getType b = Some (Inr b') \<and> delivered getType (take n (lbq_abs (eventBuffer b))) b b'
    \<and> n = Suc (length (takeWhile (\<lambda>e. watchers b (getType e) \<noteq> []) (lbq_abs (eventBuffer b))))
    \<and> lbq_abs (eventBuffer b') = drop n (lbq_abs (eventBuffer b))"
  using assms
proof (induction "lbq_abs (eventBuffer b)" arbitrary: b)
  case Nil
  then have "LBQ_isEmpty (eventBuffer b)" using LBQ_isEmpty_abs [of "eventBuffer b"] by (simp add: bus_inv_def)
  then show ?case using Nil delivered_refl [OF Nil.prems(1)] by (simp add: EventBus_notify.simps)
next
  case (Cons e es)
  note abs = Cons.hyps(2) [symmetric]
  have qi: "lbq_inv (eventBuffer b)" using Cons.prems(1) by (simp add: bus_inv_def)
  obtain q where q: "LBQ_pop (eventBuffer b) = Inr (q, e)" "lbq_inv q" "lbq_abs q = es"
    using lbq.pop_front [OF qi abs] by blast
  let ?b = "b\<lparr>eventBuffer := q\<rparr>"
  have D0: "delivered getType [] b ?b" using delivered_buffer [OF Cons.prems(1) q(2)] .
  have F: "queues_fit ?b (1 + length es)" using Cons.prems(2) abs by (simp add: queues_fit_def)
  then have F1: "queues_fit ?b 1" unfolding queues_fit_def by fastforce
  have I0: "bus_inv ?b" using D0 by (simp add: delivered_def)
  obtain b1 where b1: "EventBus_deliver getType ?b e = Inr (b1, watchers b (getType e) \<noteq> [])"
      "delivered getType [e] ?b b1" "eventBuffer b1 = q"
    using deliver_abs [OF I0 F1, of getType e] by auto
  have D1: "delivered getType [e] b b1" using delivered_trans [OF D0 b1(2)] by simp
  have w: "watchers b1 = watchers b" "bus_inv b1" using D1 by (simp_all add: delivered_def)
  have "\<not> LBQ_isEmpty (eventBuffer b)" using LBQ_isEmpty_abs [OF qi] abs by simp
  then have n: "EventBus_notify getType b =
      (if watchers b (getType e) \<noteq> [] then EventBus_notify getType b1 else Some (Inr b1))"
    using q(1) b1(1) by (subst EventBus_notify.simps) simp
  show ?case
  proof (cases "watchers b (getType e) = []")
    case True
    then show ?thesis using n D1 b1(3) q(3) abs by simp
  next
    case False
    have "queues_fit b1 (length es)" using delivered_fit [OF b1(2)] F by simp
    then obtain b' where b': "EventBus_notify getType b1 = Some (Inr b')"
        "delivered getType (take (Suc (length (takeWhile (\<lambda>e. watchers b (getType e) \<noteq> []) es))) es) b1 b'"
        "lbq_abs (eventBuffer b') = drop (Suc (length (takeWhile (\<lambda>e. watchers b (getType e) \<noteq> []) es))) es"
      using Cons.hyps(1) [of b1] w b1(3) q(3) by auto
    then show ?thesis using n False abs delivered_trans [OF D1 b'(2)] by simp
  qed
qed

primrec EventBus_rounds :: "('e \<Rightarrow> event_type) \<Rightarrow> nat \<Rightarrow> ('e, 'p) event_bus \<Rightarrow> ('e, 'p) event_bus outcome option" where
  "EventBus_rounds getType 0 b = Some (Inr b)"
| "EventBus_rounds getType (Suc n) b =
     (case EventBus_round getType b of
        None \<Rightarrow> None | Some (Inl f) \<Rightarrow> Some (Inl f) | Some (Inr b') \<Rightarrow> EventBus_rounds getType n b')"

lemma round_abs:
  assumes I: "bus_inv b" and F: "queues_fit b (length (lbq_abs (eventBuffer b)))"
    and r: "eb_isRunning b" "eb_lock b = Spinlock_new"
  shows "\<exists>b' n. EventBus_round getType b = Some (Inr b') \<and> delivered getType (take n (lbq_abs (eventBuffer b))) b b'
    \<and> n = Suc (length (takeWhile (\<lambda>e. watchers b (getType e) \<noteq> []) (lbq_abs (eventBuffer b))))
    \<and> lbq_abs (eventBuffer b') = drop n (lbq_abs (eventBuffer b))"
proof -
  let ?b = "b\<lparr>eb_lock := SPINLOCK_LOCK\<rparr>"
  let ?n = "Suc (length (takeWhile (\<lambda>e. watchers b (getType e) \<noteq> []) (lbq_abs (eventBuffer b))))"
  have "bus_inv ?b" "queues_fit ?b (length (lbq_abs (eventBuffer ?b)))"
    using I F by (simp_all add: bus_inv_def queues_fit_def)
  from notify_abs [OF this, of getType] obtain b' where b': "EventBus_notify getType ?b = Some (Inr b')"
      "delivered getType (take ?n (lbq_abs (eventBuffer b))) ?b b'" "lbq_abs (eventBuffer b') = drop ?n (lbq_abs (eventBuffer b))"
    by auto
  let ?b' = "b'\<lparr>eb_lock := Spinlock_new\<rparr>"
  have "b' = ?b\<lparr>publishers := publishers b', eventBuffer := eventBuffer b', eb_objects := eb_objects b'\<rparr>"
    using b'(2) unfolding delivered_def by blast
  then have eq: "?b' = b\<lparr>publishers := publishers ?b', eventBuffer := eventBuffer ?b', eb_objects := eb_objects ?b'\<rparr>"
    using r(2) by (cases b; cases b') simp
  have d: "bus_inv b'" "watchers b' = watchers b"
      "\<forall>r t p. subs b (r, t) = Some p \<longrightarrow> (\<exists>pub q. eb_objects b p = Some pub
          \<and> eb_objects b' p = Some (pub\<lparr>eventQueue := q\<rparr>)
          \<and> lbq_abs q = lbq_abs (eventQueue pub) @ filter (\<lambda>e. getType e = t) (take ?n (lbq_abs (eventBuffer b))))"
    using b'(2) unfolding delivered_def by simp_all
  have I': "bus_inv ?b'" using d(1) by (simp add: bus_inv_def)
  have "delivered getType (take ?n (lbq_abs (eventBuffer b))) b ?b'"
    unfolding delivered_def by (intro conjI I' eq) (use d(2,3) in simp_all)
  moreover have "EventBus_round getType b = Some (Inr ?b')"
    using b'(1) r acquire_release by (simp add: EventBus_round_def)
  ultimately show ?thesis using b'(3) by (intro exI [of _ ?b'] exI [of _ ?n]) simp
qed

lemma drop_unwatched:
  "length (filter (\<lambda>e. \<not> P e) (drop (Suc (length (takeWhile P xs))) xs)) = length (filter (\<lambda>e. \<not> P e) xs) - 1"
  by (induction xs) auto

text \<open>One round more than there are events without a receiver empties the buffer.\<close>

lemma rounds_deliver:
  assumes "bus_inv b" "queues_fit b (length (lbq_abs (eventBuffer b)))" "eb_isRunning b" "eb_lock b = Spinlock_new"
    and "length (filter (\<lambda>e. watchers b (getType e) = []) (lbq_abs (eventBuffer b))) < n"
  shows "\<exists>b'. EventBus_rounds getType n b = Some (Inr b') \<and> delivered getType (lbq_abs (eventBuffer b)) b b'
    \<and> lbq_abs (eventBuffer b') = []"
  using assms
proof (induction n arbitrary: b)
  case (Suc n)
  let ?xs = "lbq_abs (eventBuffer b)" and ?P = "\<lambda>e. watchers b (getType e) \<noteq> []"
  define k where "k = Suc (length (takeWhile ?P ?xs))"
  obtain b1 where b1: "EventBus_round getType b = Some (Inr b1)" "delivered getType (take k ?xs) b b1"
      "lbq_abs (eventBuffer b1) = drop k ?xs"
    using round_abs [OF Suc.prems(1-4), of getType] unfolding k_def by blast
  have eq: "b1 = b\<lparr>publishers := publishers b1, eventBuffer := eventBuffer b1, eb_objects := eb_objects b1\<rparr>"
    and w: "watchers b1 = watchers b" "bus_inv b1" using b1(2) unfolding delivered_def by blast+
  have r: "eb_isRunning b1" "eb_lock b1 = Spinlock_new"
    using arg_cong [OF eq, of eb_isRunning] arg_cong [OF eq, of eb_lock] Suc.prems(3,4) by simp_all
  have "queues_fit b (length (take k ?xs) + length (drop k ?xs))"
    using Suc.prems(2) by (simp only: flip: length_append) simp
  then have F: "queues_fit b1 (length (lbq_abs (eventBuffer b1)))" using delivered_fit [OF b1(2)] b1(3) by simp
  have len: "length (filter (\<lambda>e. watchers b (getType e) = []) (drop k ?xs)) =
      length (filter (\<lambda>e. watchers b (getType e) = []) ?xs) - 1"
    using drop_unwatched [of ?P ?xs] by (simp add: k_def)
  show ?case
  proof (cases "n = 0")
    case True
    then have "filter (\<lambda>e. watchers b (getType e) = []) ?xs = []" using Suc.prems(5) by simp
    then have "takeWhile ?P ?xs = ?xs" by (simp add: filter_empty_conv takeWhile_eq_all_conv)
    then have "length ?xs \<le> k" by (simp only: k_def)
    then show ?thesis using b1 True by simp
  next
    case False
    then have "length (filter (\<lambda>e. watchers b1 (getType e) = []) (lbq_abs (eventBuffer b1))) < n"
      using len Suc.prems(5) by (simp add: w(1) b1(3))
    from Suc.IH [OF w(2) F r this] obtain b' where b': "EventBus_rounds getType n b1 = Some (Inr b')"
        "delivered getType (drop k ?xs) b1 b'" "lbq_abs (eventBuffer b') = []" using b1(3) by auto
    then show ?thesis using b1(1) delivered_trans [OF b1(2) b'(2)] by simp
  qed
qed simp

section \<open>Subscribing\<close>

lemma card_dom_upd:
  "finite (dom m) \<Longrightarrow> m k = None \<Longrightarrow> card (dom (m(k \<mapsto> v))) = Suc (card (dom m))"
  by (simp add: domIff)

lemma card_dom_del: "finite (dom m) \<Longrightarrow> m k = Some v \<Longrightarrow> card (dom m) = Suc (card (dom (m(k := None))))"
  using card_Suc_Diff1 [of "dom m" k] by (simp add: domI)

text \<open>A receiver that is not subscribed gets a publisher of its own, at the end of the list of the type.\<close>

lemma subscribe_abs:
  assumes I: "bus_inv b" and new: "subs b (r, t) = None" "eb_objects b new = None" and lock: "eb_lock b = Spinlock_new"
    and len: "length (watchers b t) < 2147483648"
    and start: "Thread_start (fst (Thread_new (eb_scheduler b) new 0xFF (eb_idGenerator b))) new = Inr s'"
  shows "\<exists>b'. EventBus_subscribe new b r t = Inr b' \<and> bus_inv b' \<and> subs b' = (subs b)((r, t) \<mapsto> new)
    \<and> watchers b' = (watchers b)(t := watchers b t @ [new])
    \<and> eb_objects b' = (eb_objects b)(new \<mapsto> \<lparr>eventQueue = LBQ_empty, receiver = r, ep_isRunning = True\<rparr>)
    \<and> eb_scheduler b' = s' \<and> eb_lock b' = Spinlock_new \<and> eventBuffer b' = eventBuffer b \<and> eb_isRunning b' = eb_isRunning b"
proof -
  have h: "hm_inv key_hash (receiverMap b)" and l: "lm_inv type_hash (publishers b)" using I by (simp_all add: bus_inv_def)
  obtain m where m: "HashMap_put key_hash (receiverMap b) (r, t) new = Inr m" "hm_inv key_hash m"
      "hm_abs key_hash m = (subs b)((r, t) \<mapsto> new)"
    using hmap.put_lookup [OF h] by blast
  obtain ps where ps: "ListMap_add type_hash 0 (publishers b) t new = Inr ps" "lm_inv type_hash ps"
      "lm_abs type_hash ps = (watchers b)(t := watchers b t @ [new])"
    using ListMap_add_abs [OF l len] by blast
  have fin: "finite (dom (subs b))" using hmap.count_lookup [OF h] by blast
  have unused: "subs b k \<noteq> Some new" for k
    using bus_object [OF I, of "fst k" "snd k" new] new(2) by auto
  let ?pub = "\<lparr>eventQueue = LBQ_empty, receiver = r, ep_isRunning = True\<rparr>"
  let ?b = "b\<lparr>receiverMap := m, publishers := ps, registeredPublishers := registeredPublishers b + 1,
      eb_lock := Spinlock_new, eb_objects := (eb_objects b)(new \<mapsto> ?pub), eb_scheduler := s',
      eb_idGenerator := snd (Thread_new (eb_scheduler b) new 0xFF (eb_idGenerator b))\<rparr>"
  have "EventBus_subscribe new b r t = Inr ?b"
    using lock hmap.contains_lookup [OF h, of "(r, t)"] new(1) m(1) ps(1) start acquire_release
    by (simp add: EventBus_subscribe_def EventPublisher_new_def split_beta Let_def)
  moreover have "bus_inv ?b" unfolding bus_inv_def
  proof (intro conjI allI impI)
    show "inj_on (subs ?b) (dom (subs ?b))"
      using I unused m(3) by (auto simp: bus_inv_def inj_on_def dom_def split: if_splits)
    show "registeredPublishers ?b = of_nat (card (dom (subs ?b)))"
      using I m(3) card_dom_upd [of "subs b" "(r, t)" new] fin new(1) by (simp add: bus_inv_def)
    fix t' show "distinct (watchers ?b t')"
      using I unused ps(3) by (auto simp: bus_inv_def)
    fix p show "p \<in> set (watchers ?b t') \<longleftrightarrow> (\<exists>r. subs ?b (r, t') = Some p)"
    proof -
      have "p \<in> set (watchers b t') \<longleftrightarrow> (\<exists>r. subs b (r, t') = Some p)" using I by (simp add: bus_inv_def)
      then show ?thesis using new(1) m(3) ps(3) by (cases "t' = t") (simp_all, metis option.distinct(1))
    qed
  next
    fix r' t' p assume "subs ?b (r', t') = Some p"
    then show "\<exists>pub. eb_objects ?b p = Some pub \<and> receiver pub = r' \<and> ep_isRunning pub \<and> lbq_inv (eventQueue pub)"
      using bus_object [OF I, of r' t' p] unused [of "(r', t')"] m(3) by (auto split: if_splits)
  qed (use I m ps in \<open>simp_all add: bus_inv_def\<close>)
  ultimately show ?thesis using m(3) ps(3) by (intro exI [of _ ?b]) simp
qed

lemma subscribe_again:
  assumes "bus_inv b" "subs b (r, t) = Some p" "eb_lock b = Spinlock_new"
  shows "EventBus_subscribe new b r t = Inl (Thrown ILLEGAL_STATE)"
  using assms hmap.contains_lookup [of key_hash "receiverMap b" "(r, t)"] acquire_release
  by (simp add: EventBus_subscribe_def bus_inv_def split_beta Let_def)

text \<open>Unsubscribing kills and deletes the publisher; without a subscription it does nothing.\<close>

lemma unsubscribe_abs:
  assumes I: "bus_inv b" and p: "subs b (r, t) = Some p" and lock: "eb_lock b = Spinlock_new"
    and kill: "Scheduler_kill (eb_scheduler b) p = Inr s'"
  shows "\<exists>b'. EventBus_unsubscribe b r t = Inr b' \<and> bus_inv b' \<and> subs b' = (subs b)((r, t) := None)
    \<and> watchers b' = (watchers b)(t := remove1 p (watchers b t)) \<and> eb_objects b' = (eb_objects b)(p := None)
    \<and> eb_scheduler b' = s' \<and> eb_lock b' = Spinlock_new \<and> eventBuffer b' = eventBuffer b \<and> eb_isRunning b' = eb_isRunning b"
proof -
  have h: "hm_inv key_hash (receiverMap b)" and l: "lm_inv type_hash (publishers b)"
    and mem: "p \<in> set (watchers b t)" and inj: "inj_on (subs b) (dom (subs b))"
    using I p by (auto simp: bus_inv_def)
  obtain m where m: "HashMap_get key_hash (receiverMap b) (r, t) = Inr (m, p)" "hm_inv key_hash m" "hm_abs key_hash m = subs b"
    using hmap.get_lookup [OF h p] by blast
  obtain m' where m': "HashMap_remove key_hash m (r, t) = Inr (m', p)" "hm_inv key_hash m'"
      "hm_abs key_hash m' = (subs b)((r, t) := None)"
    using hmap.remove_lookup [OF m(2), of "(r, t)" p] p m(3) by auto
  obtain ps where ps: "ListMap_remove type_hash (publishers b) t p = Inr ps" "lm_inv type_hash ps"
      "lm_abs type_hash ps = (watchers b)(t := remove1 p (watchers b t))"
    using ListMap_remove_abs [OF l mem] by blast
  have fin: "finite (dom (subs b))" using hmap.count_lookup [OF h] by blast
  have only: "k = (r, t)" if "subs b k = Some p" for k
    using inj_onD [OF inj, of k "(r, t)"] that p by (simp add: domI)
  let ?b = "b\<lparr>receiverMap := m', publishers := ps, registeredPublishers := registeredPublishers b - 1,
      eb_lock := Spinlock_new, eb_objects := (eb_objects b)(p := None), eb_scheduler := s'\<rparr>"
  have "EventBus_unsubscribe b r t = Inr ?b"
    using lock hmap.contains_lookup [OF h, of "(r, t)"] p m(1) m'(1) ps(1) kill acquire_release
    by (simp add: EventBus_unsubscribe_def Let_def)
  moreover have "bus_inv ?b" unfolding bus_inv_def
  proof (intro conjI allI impI)
    show "inj_on (subs ?b) (dom (subs ?b))"
      using inj m'(3) by (auto simp: inj_on_def dom_def split: if_splits)
    show "registeredPublishers ?b = of_nat (card (dom (subs ?b)))"
      using I m'(3) card_dom_del [of "subs b" "(r, t)" p] fin p by (simp add: bus_inv_def)
    fix t' show "distinct (watchers ?b t')" using I ps(3) by (simp add: bus_inv_def distinct_remove1)
    fix p' show "p' \<in> set (watchers ?b t') \<longleftrightarrow> (\<exists>r. subs ?b (r, t') = Some p')"
    proof -
      have w: "p' \<in> set (watchers b t') \<longleftrightarrow> (\<exists>r. subs b (r, t') = Some p')" "distinct (watchers b t)"
        using I by (simp_all add: bus_inv_def)
      have "((subs b)((r, t) := None)) (r', t') = Some p' \<longleftrightarrow> subs b (r', t') = Some p' \<and> (t' = t \<longrightarrow> p' \<noteq> p)" for r'
      proof (cases "(r', t') = (r, t)")
        case True then show ?thesis using p by auto
      next
        case False
        then have "subs b (r', t') \<noteq> Some p" using only by blast
        then show ?thesis using False by auto
      qed
      then show ?thesis using w by (cases "t' = t") (simp_all add: m'(3) ps(3) set_remove1_eq)
    qed
  next
    fix r' t' p' assume "subs ?b (r', t') = Some p'"
    then have k: "subs b (r', t') = Some p'" "(r', t') \<noteq> (r, t)" using m'(3) by (auto split: if_splits)
    then have "p' \<noteq> p" using only by blast
    then show "\<exists>pub. eb_objects ?b p' = Some pub \<and> receiver pub = r' \<and> ep_isRunning pub \<and> lbq_inv (eventQueue pub)"
      using bus_object [OF I k(1)] by simp
  qed (use I m' ps in \<open>simp_all add: bus_inv_def\<close>)
  ultimately show ?thesis using m'(3) ps(3) by (intro exI [of _ ?b]) simp
qed

lemma unsubscribe_absent:
  assumes "bus_inv b" "subs b (r, t) = None" "eb_lock b = Spinlock_new"
  shows "EventBus_unsubscribe b r t = Inr b"
  using assms hmap.contains_lookup [of key_hash "receiverMap b" "(r, t)"] acquire_release
  by (simp add: EventBus_unsubscribe_def bus_inv_def Let_def)

section \<open>The threads of the publishers\<close>

lemma publisher_starts:
  assumes wf: "sched_wf n pinv s" "0 < n" and room: "has_room s" and t: "\<not> queued s t" "t \<noteq> currentThread s"
  shows "\<exists>s'. Thread_start (fst (Thread_new s t prio ids)) t = Inr s' \<and> sched_wf n pinv s' \<and> queued s' t
    \<and> initialized s' = initialized s \<and> currentThread s' = currentThread s \<and> th_id (threads s' t) = ids
    \<and> threads s' (currentThread s) = threads s (currentThread s)"
proof -
  let ?s = "fst (Thread_new s t prio ids)" and ?Q = "qs_abs (readyQueues s)"
  let ?th = "(threads ?s)(t := (threads ?s t)\<lparr>th_started := True\<rparr>)"
  note w = wf(1) [unfolded sched_wf_def]
  have s: "readyQueues ?s = readyQueues s" "sched_lock ?s = Spinlock_new" "\<not> th_started (threads ?s t)"
      "\<not> th_finished (threads ?s t)" "th_priority (threads ?s t) < n" "th_id (threads ?s t) = ids" "currentThread ?s = currentThread s"
      "threads ?s (currentThread s) = threads s (currentThread s)" "initialized ?s = initialized s"
    using w t(2) cut_priority [of n s prio] wf(2)
    by (simp_all add: Thread_new_def IdGenerator_getId_def Atomic_fetchAndInc_def Atomic_xadd_def atomic_defs split_beta Let_def)
  have nq: "t \<notin> set (concat ?Q)" using t(1) by (simp add: queued_def)
  have "placed ?th ?Q" using create_wf [OF wf(1) t, of prio ids] nq s(1) by (simp add: sched_wf_def placed_upd)
  then obtain qs where qs: "push_ready (readyQueues s) (th_priority (threads ?s t)) t = Inr qs" "t \<in> set (concat (qs_abs qs))"
    using push_ready_wf [of n "readyQueues s" ?th t] w nq s(4,5) by (auto simp del: set_concat)
  let ?s' = "?s\<lparr>readyQueues := qs, threads := ?th, sched_lock := Spinlock_new\<rparr>"
  have r: "Scheduler_ready ?s t = Inr ?s'"
    using s qs(1) by (simp add: Scheduler_ready_def acquire_free releaseSchedulerLock_def)
  have "has_room ?s" using room s(1) by (simp add: has_room_def)
  then have "sched_wf n pinv ?s'" using ready_wf(1) [OF create_wf [OF wf(1) t] _ s(4) r] by simp
  then show ?thesis using r qs(2) s t(2) by (intro exI [of _ ?s']) (simp add: Thread_start_def queued_def)
qed

lemma kill_queued:
  assumes "sched_wf n pinv s" "initialized s" "queued s t" "th_id (threads s t) \<noteq> th_id (threads s (currentThread s))"
  shows "\<exists>s'. Scheduler_kill s t = Inr s'"
proof -
  note w = assms(1) [unfolded sched_wf_def]
  have i: "unat (th_priority (threads s t)) < length (qs_abs (readyQueues s))"
      "t \<in> set (qs_abs (readyQueues s) ! unat (th_priority (threads s t)))"
    using placed_mem [of "threads s" "qs_abs (readyQueues s)" t] w assms(3) by (auto simp: queued_def)
  then have "th_priority (threads s t) < n" using length_qs_abs [of n "readyQueues s"] w by (simp add: word_less_nat_alt)
  then obtain qs where "remove_ready (readyQueues s) (th_priority (threads s t)) t = Inr qs"
    using remove_ready_member [of n "readyQueues s"] w i(2) by blast
  then show ?thesis using w assms(2,4) by (simp add: Scheduler_kill_def acquire_free)
qed

section \<open>Runs of the bus\<close>

text \<open>What may happen to the bus and to the world of the receivers. The guards are the room that the 32-bit sizes
  leave, and that \<open>new\<close> yields an address where no publisher is. Other threads may change the scheduler at any time.\<close>

inductive bus_step :: "('e \<Rightarrow> event_type) \<Rightarrow> (u32 \<Rightarrow> 'e \<Rightarrow> 'w \<Rightarrow> 'w outcome)
    \<Rightarrow> ('e, 'p) event_bus \<times> 'w \<Rightarrow> ('e, 'p) event_bus \<times> 'w \<Rightarrow> bool"
  for getType onEvent where
  subscribe: "eb_objects b new = None \<Longrightarrow> length (watchers b t) < 2147483648 \<Longrightarrow> EventBus_subscribe new b r t = Inr b'
    \<Longrightarrow> bus_step getType onEvent (b, w) (b', w)"
| unsubscribe: "EventBus_unsubscribe b r t = Inr b' \<Longrightarrow> bus_step getType onEvent (b, w) (b', w)"
| publish: "length (lbq_abs (eventBuffer b)) < 4294967295 \<Longrightarrow> EventBus_publish b e = Inr b'
    \<Longrightarrow> bus_step getType onEvent (b, w) (b', w)"
| round: "queues_fit b (length (lbq_abs (eventBuffer b))) \<Longrightarrow> EventBus_round getType b = Some (Inr b')
    \<Longrightarrow> bus_step getType onEvent (b, w) (b', w)"
| forward: "subs b k = Some p \<Longrightarrow> eb_objects b p = Some pub \<Longrightarrow> EventPublisher_round onEvent pub w = Some (Inr (pub', w'))
    \<Longrightarrow> bus_step getType onEvent (b, w) (b\<lparr>eb_objects := (eb_objects b)(p \<mapsto> pub')\<rparr>, w')"
| schedule: "bus_step getType onEvent (b, w) (b\<lparr>eb_scheduler := s, eb_idGenerator := i\<rparr>, w)"

inductive bus_reach :: "('e \<Rightarrow> event_type) \<Rightarrow> (u32 \<Rightarrow> 'e \<Rightarrow> 'w \<Rightarrow> 'w outcome)
    \<Rightarrow> ('e, 'p) event_bus \<times> 'w \<Rightarrow> ('e, 'p) event_bus \<times> 'w \<Rightarrow> bool"
  for getType onEvent x0 where
  init: "bus_reach getType onEvent x0 x0"
| step: "bus_reach getType onEvent x0 x \<Longrightarrow> bus_step getType onEvent x x' \<Longrightarrow> bus_reach getType onEvent x0 x'"

lemma subscribe_returns:
  assumes "bus_inv b" "eb_lock b = Spinlock_new" "EventBus_subscribe new b r t = Inr b'"
  shows "subs b (r, t) = None \<and> (\<exists>s'. Thread_start (fst (Thread_new (eb_scheduler b) new 0xFF (eb_idGenerator b))) new = Inr s')"
proof
  show "subs b (r, t) = None" using subscribe_again [OF assms(1) _ assms(2)] assms(3) by fastforce
  show "\<exists>s'. Thread_start (fst (Thread_new (eb_scheduler b) new 0xFF (eb_idGenerator b))) new = Inr s'"
    using assms(3) by (auto simp: EventBus_subscribe_def EventPublisher_new_def split_beta Let_def andThen_Inr_iff split: if_splits)
qed

lemma unsubscribe_returns:
  assumes "bus_inv b" "subs b (r, t) = Some p" "EventBus_unsubscribe b r t = Inr b'"
  shows "\<exists>s'. Scheduler_kill (eb_scheduler b) p = Inr s'"
proof -
  have h: "hm_inv key_hash (receiverMap b)" using assms(1) by (simp add: bus_inv_def)
  obtain m where "HashMap_get key_hash (receiverMap b) (r, t) = Inr (m, p)" using hmap.get_lookup [OF h assms(2)] by blast
  then show ?thesis using assms(2,3) hmap.contains_lookup [OF h, of "(r, t)"]
    by (auto simp: EventBus_unsubscribe_def Let_def andThen_Inr_iff)
qed

lemma publish_abs:
  assumes "bus_inv b" "eb_isInitialized b" "length (lbq_abs (eventBuffer b)) < 4294967295"
  shows "\<exists>q. EventBus_publish b e = Inr (b\<lparr>eventBuffer := q\<rparr>) \<and> lbq_inv q \<and> lbq_abs q = lbq_abs (eventBuffer b) @ [e]"
  using lbq.push_back [of "eventBuffer b" e] assms by (fastforce simp: EventBus_publish_def bus_inv_def)

lemma forward_inv:
  assumes I: "bus_inv b" and k: "subs b k = Some p" "eb_objects b p = Some pub"
    and f: "EventPublisher_round onEvent pub w = Some (Inr (pub', w'))"
  shows "bus_inv (b\<lparr>eb_objects := (eb_objects b)(p \<mapsto> pub')\<rparr>)"
proof -
  have pub: "ep_isRunning pub" "lbq_inv (eventQueue pub)" using bus_object [OF I, of "fst k" "snd k" p] k by auto
  obtain q where "lbq_inv q" "EventPublisher_forward onEvent pub w =
      Some (andThen (run_all (onEvent (receiver pub)) (lbq_abs (eventQueue pub)) w) (\<lambda>w'. Inr (pub\<lparr>eventQueue := q\<rparr>, w')))"
    using forward_run [OF pub(2), of onEvent w] by blast
  then have pub': "pub' = pub\<lparr>eventQueue := q\<rparr>" "lbq_inv q" using f pub(1) by (auto simp: EventPublisher_round_def andThen_Inr_iff)
  have "\<exists>pub1. ((eb_objects b)(p \<mapsto> pub')) p' = Some pub1 \<and> receiver pub1 = r \<and> ep_isRunning pub1 \<and> lbq_inv (eventQueue pub1)"
    if "subs b (r, t) = Some p'" for r t p'
    using bus_object [OF I that] k(2) pub' by (cases "p' = p") auto
  then show ?thesis using I by (simp add: bus_inv_def)
qed

lemma bus_step_inv:
  assumes "bus_step getType onEvent x x'" "bus_inv (fst x)" "eb_lock (fst x) = Spinlock_new"
  shows "bus_inv (fst x') \<and> eb_lock (fst x') = Spinlock_new"
  using assms(1)
proof cases
  case (subscribe b new t r b' w)
  obtain s' where "subs b (r, t) = None" "Thread_start (fst (Thread_new (eb_scheduler b) new 0xFF (eb_idGenerator b))) new = Inr s'"
    using subscribe_returns [of b new r t b'] assms subscribe by auto
  then show ?thesis using subscribe_abs [of b r t new s'] assms subscribe by auto
next
  case (unsubscribe b r t b' w)
  show ?thesis
  proof (cases "subs b (r, t)")
    case None
    then show ?thesis using unsubscribe_absent [of b r t] assms unsubscribe by auto
  next
    case (Some p)
    then obtain s' where "Scheduler_kill (eb_scheduler b) p = Inr s'"
      using unsubscribe_returns [of b r t p b'] assms unsubscribe by auto
    then show ?thesis using unsubscribe_abs [of b r t p s'] Some assms unsubscribe by auto
  qed
next
  case (publish b e b' w)
  show ?thesis
  proof (cases "eb_isInitialized b")
    case True
    then show ?thesis using publish_abs [of b e] assms publish by (auto simp: bus_inv_def)
  next
    case False
    then show ?thesis using assms publish by (simp add: EventBus_publish_def)
  qed
next
  case (round b b' w)
  show ?thesis
  proof (cases "eb_isRunning b")
    case True
    then obtain evs where "delivered getType evs b b'" using round_abs [of b getType] assms round by fastforce
    then have inv: "bus_inv b'" and eq: "b' = b\<lparr>publishers := publishers b', eventBuffer := eventBuffer b', eb_objects := eb_objects b'\<rparr>"
      unfolding delivered_def by blast+
    have "eb_lock b' = eb_lock b" using arg_cong [OF eq, of eb_lock] by simp
    then show ?thesis using inv assms(3) round by simp
  next
    case False
    then show ?thesis using assms round by (simp add: EventBus_round_def)
  qed
next
  case (forward b k p pub w pub' w')
  then show ?thesis using forward_inv [of b k p pub onEvent w pub' w'] assms by simp
next
  case (schedule b w s i)
  then show ?thesis using assms by (simp add: bus_inv_def)
qed

lemma bus_reach_inv:
  "bus_reach getType onEvent x0 x \<Longrightarrow> bus_inv (fst x0) \<and> eb_lock (fst x0) = Spinlock_new
     \<Longrightarrow> bus_inv (fst x) \<and> eb_lock (fst x) = Spinlock_new"
  by (induction rule: bus_reach.induct) (auto dest: bus_step_inv)

primrec publish_all :: "('e, 'p) event_bus \<Rightarrow> 'e list \<Rightarrow> ('e, 'p) event_bus outcome" where
  "publish_all b [] = Inr b"
| "publish_all b (e # es) = andThen (EventBus_publish b e) (\<lambda>b'. publish_all b' es)"

lemma publish_all_abs:
  assumes "bus_inv b" "eb_isInitialized b" "length (lbq_abs (eventBuffer b)) + length es \<le> 4294967295"
  shows "\<exists>q. publish_all b es = Inr (b\<lparr>eventBuffer := q\<rparr>) \<and> lbq_inv q \<and> lbq_abs q = lbq_abs (eventBuffer b) @ es"
  using assms
proof (induction es arbitrary: b)
  case Nil
  then show ?case by (intro exI [of _ "eventBuffer b"]) (simp add: bus_inv_def)
next
  case (Cons e es)
  obtain q where q: "EventBus_publish b e = Inr (b\<lparr>eventBuffer := q\<rparr>)" "lbq_inv q" "lbq_abs q = lbq_abs (eventBuffer b) @ [e]"
    using publish_abs [of b e] Cons.prems by auto
  then show ?case using Cons.IH [of "b\<lparr>eventBuffer := q\<rparr>"] Cons.prems by (auto simp: bus_inv_def)
qed

text \<open>A receiver that unsubscribes while it handles an event runs in the thread of its own publisher. The scheduler
  refuses to kill the running thread, so the call ends in an exception with the lock of the bus held.\<close>

lemma unsubscribe_in_onEvent:
  assumes I: "bus_inv b" and p: "subs b (r, t) = Some p" and lock: "eb_lock b = Spinlock_new"
    and s: "sched_lock (eb_scheduler b) = Spinlock_new" "currentThread (eb_scheduler b) = p"
  shows "EventBus_unsubscribe b r t = Inl (Thrown ILLEGAL_STATE)"
proof -
  have h: "hm_inv key_hash (receiverMap b)" using I by (simp add: bus_inv_def)
  obtain m where "HashMap_get key_hash (receiverMap b) (r, t) = Inr (m, p)" using hmap.get_lookup [OF h p] by blast
  moreover have "Scheduler_kill (eb_scheduler b) p = Inl (Thrown ILLEGAL_STATE)"
    using s by (simp add: Scheduler_kill_def acquire_free)
  ultimately show ?thesis using p lock hmap.contains_lookup [OF h, of "(r, t)"] acquire_release
    by (simp add: EventBus_unsubscribe_def Let_def)
qed

text \<open>An event nobody subscribed for ends the round: the events behind it wait for the next one.\<close>

lemma round_stops_early:
  assumes "bus_inv b" "queues_fit b (length (lbq_abs (eventBuffer b)))" "eb_isRunning b" "eb_lock b = Spinlock_new"
    and "lbq_abs (eventBuffer b) = e # es" "watchers b (getType e) = []"
  shows "\<exists>b'. EventBus_round getType b = Some (Inr b') \<and> lbq_abs (eventBuffer b') = es"
  using round_abs [OF assms(1-4), of getType] assms(5,6) by auto

section \<open>A bus with one receiver\<close>

definition demo_threads :: "u32 \<Rightarrow> thread" where
  "demo_threads t = \<lparr>th_id = 1, th_priority = 0, th_started = True, th_finished = False\<rparr>"

definition demo_scheduler :: "unit scheduler" where
  "demo_scheduler = (Scheduler_new 5 () demo_threads)\<lparr>initialized := True, currentThread := 9\<rparr>"

lemma demo_queues: "concat (qs_abs (readyQueues demo_scheduler)) = []"
  by (simp add: demo_scheduler_def Scheduler_new_def qs_abs_def Array_new_def ABQ_new_def)

lemma demo_scheduler_wf: "sched_wf 5 (\<lambda>_. True) demo_scheduler"
  using sched_new_wf [of "\<lambda>_. True" "()" 5 demo_threads] demo_queues
  by (auto simp: sched_wf_def demo_scheduler_def demo_threads_def Scheduler_new_def)

definition demo_bus :: "(event_type \<times> nat, unit) event_bus" where
  "demo_bus = (EventBus_new demo_scheduler 0x100 7)\<lparr>eb_scheduler := demo_scheduler\<rparr>"

lemma demo_bus_inv:
  "bus_inv demo_bus" "eb_lock demo_bus = Spinlock_new" "subs demo_bus k = None" "watchers demo_bus t = []"
  "eb_objects demo_bus = Map.empty" "eb_isRunning demo_bus" "eb_isInitialized demo_bus"
  "lbq_abs (eventBuffer demo_bus) = []" "eb_scheduler demo_bus = demo_scheduler" "eb_idGenerator demo_bus = 8"
  using bus_inv_new [of demo_scheduler "0x100" 7]
  by (simp_all add: demo_bus_def bus_inv_def EventBus_new_def Thread_new_def split_beta Let_def HashMap_default_def
      IdGenerator_getId_def Atomic_fetchAndInc_def Atomic_xadd_def)

lemma demo_unused: "has_room demo_scheduler" "\<not> queued demo_scheduler t"
  by (simp_all only: has_room_def queued_def demo_queues) simp_all

lemma demo_subscribed:
  "\<exists>b. EventBus_subscribe 0x200 demo_bus 0x10 [65] = Inr b \<and> bus_inv b
     \<and> subs b = [(0x10, [65]) \<mapsto> 0x200] \<and> watchers b = (\<lambda>t. if t = [65] then [0x200] else [])
     \<and> eb_objects b = [0x200 \<mapsto> \<lparr>eventQueue = LBQ_empty, receiver = 0x10, ep_isRunning = True\<rparr>]
     \<and> eb_lock b = Spinlock_new \<and> eventBuffer b = eventBuffer demo_bus \<and> eb_isRunning b \<and> eb_isInitialized b"
proof -
  have "(0x200 :: u32) \<noteq> currentThread demo_scheduler" by (simp add: demo_scheduler_def)
  then obtain s' where s': "Thread_start (fst (Thread_new (eb_scheduler demo_bus) 0x200 0xFF (eb_idGenerator demo_bus))) 0x200 = Inr s'"
    using publisher_starts [OF demo_scheduler_wf _ demo_unused, of "0x200" "0xFF" "eb_idGenerator demo_bus"]
    by (auto simp: demo_bus_inv(9))
  obtain b where b: "EventBus_subscribe 0x200 demo_bus 0x10 [65] = Inr b" "bus_inv b"
      "subs b = (subs demo_bus)((0x10, [65]) \<mapsto> 0x200)" "watchers b = (watchers demo_bus)([65] := watchers demo_bus [65] @ [0x200])"
      "eb_objects b = (eb_objects demo_bus)(0x200 \<mapsto> \<lparr>eventQueue = LBQ_empty, receiver = 0x10, ep_isRunning = True\<rparr>)"
      "eb_lock b = Spinlock_new" "eventBuffer b = eventBuffer demo_bus" "eb_isRunning b"
    using subscribe_abs [where r = "0x10" and t = "[65]", OF demo_bus_inv(1,3) _ demo_bus_inv(2) _ s'] demo_bus_inv(4-6) by auto
  moreover have "eb_isInitialized b"
    using b(1) demo_bus_inv(7) by (auto simp: EventBus_subscribe_def Let_def split_beta andThen_Inr_iff split: if_splits)
  moreover have "subs demo_bus = Map.empty" "watchers demo_bus = (\<lambda>t. [])" using demo_bus_inv(3,4) by auto
  ultimately show ?thesis using demo_bus_inv(5) by (intro exI [of _ b]) auto
qed

section \<open>Properties\<close>

text \<open>C14. Whatever is published reaches its receivers: after the bus has run one round more than there are events
  nobody subscribed for, its buffer is empty, and the next round of the publisher of a subscription hands its receiver
  the events it had in its queue and then all events of the type of the subscription, each once, in the order of
  their publication, and no other event; the first fault of a receiver ends it.\<close>

theorem events_reach_receivers:
  assumes "bus_inv b" "eb_lock b = Spinlock_new" "eb_isRunning b" "eb_isInitialized b"
    and "evs = lbq_abs (eventBuffer b) @ es" "length evs \<le> 4294967295" "queues_fit b (length evs)"
    and "length (filter (\<lambda>e. watchers b (getType e) = []) evs) < n"
  shows "\<exists>b1 b2. publish_all b es = Inr b1 \<and> EventBus_rounds getType n b1 = Some (Inr b2)
    \<and> lbq_abs (eventBuffer b2) = [] \<and> subs b2 = subs b
    \<and> (\<forall>r t p. subs b (r, t) = Some p \<longrightarrow> (\<exists>pub pub1 pub2. eb_objects b p = Some pub \<and> eb_objects b2 p = Some pub1
         \<and> EventPublisher_round onEvent pub1 w =
             Some (andThen (run_all (onEvent r) (lbq_abs (eventQueue pub) @ filter (\<lambda>e. getType e = t) evs) w)
                    (\<lambda>w'. Inr (pub2, w')))
         \<and> lbq_abs (eventQueue pub2) = []))"
proof -
  obtain q where q: "publish_all b es = Inr (b\<lparr>eventBuffer := q\<rparr>)" "lbq_inv q" "lbq_abs q = evs"
    using publish_all_abs [OF assms(1,4), of es] assms(5,6) by auto
  let ?b = "b\<lparr>eventBuffer := q\<rparr>"
  have D0: "delivered getType [] b ?b" using delivered_buffer [OF assms(1) q(2)] .
  have "bus_inv ?b" "queues_fit ?b (length evs)" using D0 assms(7) by (simp_all add: delivered_def queues_fit_def)
  then obtain b2 where b2: "EventBus_rounds getType n ?b = Some (Inr b2)" "delivered getType evs ?b b2" "lbq_abs (eventBuffer b2) = []"
    using rounds_deliver [of ?b getType n] q(3) assms(2,3,8) by auto
  have D: "delivered getType evs b b2" using delivered_trans [OF D0 b2(2)] by simp
  have "\<exists>pub pub1 pub2. eb_objects b p = Some pub \<and> eb_objects b2 p = Some pub1
      \<and> EventPublisher_round onEvent pub1 w =
          Some (andThen (run_all (onEvent r) (lbq_abs (eventQueue pub) @ filter (\<lambda>e. getType e = t) evs) w) (\<lambda>w'. Inr (pub2, w')))
      \<and> lbq_abs (eventQueue pub2) = []" if s: "subs b (r, t) = Some p" for r t p
  proof -
    obtain pub q1 where pub: "eb_objects b p = Some pub" "eb_objects b2 p = Some (pub\<lparr>eventQueue := q1\<rparr>)"
        "lbq_abs q1 = lbq_abs (eventQueue pub) @ filter (\<lambda>e. getType e = t) evs"
      using D s unfolding delivered_def by blast
    have "bus_inv b2" "subs b2 (r, t) = Some p" using D s delivered_subs [OF D] by (simp_all add: delivered_def)
    from bus_object [OF this] have p1: "receiver pub = r" "ep_isRunning pub" "lbq_inv q1" using pub(2) by simp_all
    obtain q2 where "lbq_abs q2 = []" "EventPublisher_forward onEvent (pub\<lparr>eventQueue := q1\<rparr>) w =
        Some (andThen (run_all (onEvent r) (lbq_abs q1) w) (\<lambda>w'. Inr (pub\<lparr>eventQueue := q2\<rparr>, w')))"
      using forward_run [of "pub\<lparr>eventQueue := q1\<rparr>" onEvent w] p1 by auto
    then show ?thesis using pub p1(2)
      by (intro exI [of _ pub] exI [of _ "pub\<lparr>eventQueue := q1\<rparr>"] exI [of _ "pub\<lparr>eventQueue := q2\<rparr>"])
        (simp add: EventPublisher_round_def)
  qed
  then show ?thesis using q(1) b2(1,3) delivered_subs [OF D] by (intro exI [of _ ?b] exI [of _ b2]) simp
qed

text \<open>One receiver, subscribed for events of type A; the second of three events is of type B, so two rounds are run.\<close>

theorem events_reach_receivers_witness:
  "\<exists>b b1 b2 pub1 pub2. EventBus_subscribe 0x200 demo_bus 0x10 [65] = Inr b
     \<and> publish_all b [([65], 1), ([66], 2), ([65], 3)] = Inr b1 \<and> EventBus_rounds fst (Suc (Suc 0)) b1 = Some (Inr b2)
     \<and> eb_objects b2 0x200 = Some pub1
     \<and> EventPublisher_round (\<lambda>r e w. Inr (w @ [(r, snd e)])) pub1 [] = Some (Inr (pub2, [(0x10, 1), (0x10, 3)]))"
proof -
  obtain b where b: "EventBus_subscribe 0x200 demo_bus 0x10 [65] = Inr b" "bus_inv b"
      "subs b = [(0x10, [65]) \<mapsto> 0x200]" "watchers b = (\<lambda>t. if t = [65] then [0x200] else [])"
      "eb_objects b = [0x200 \<mapsto> \<lparr>eventQueue = LBQ_empty, receiver = 0x10, ep_isRunning = True\<rparr>]"
      "eb_lock b = Spinlock_new" "eventBuffer b = eventBuffer demo_bus" "eb_isRunning b" "eb_isInitialized b"
    using demo_subscribed by (elim exE conjE)
  let ?es = "[([65], 1), ([66], 2), ([65], 3)] :: (event_type \<times> nat) list"
  have e: "?es = lbq_abs (eventBuffer b) @ ?es" by (simp add: b(7) demo_bus_inv(8))
  have f: "queues_fit b (length ?es)" by (simp add: queues_fit_def b(3,5))
  have n: "length ?es \<le> 4294967295" "length (filter (\<lambda>e. watchers b (fst e) = []) ?es) < Suc (Suc 0)"
    by (simp_all add: b(4))
  obtain b1 b2 where b2: "publish_all b ?es = Inr b1" "EventBus_rounds fst (Suc (Suc 0)) b1 = Some (Inr b2)"
      "\<forall>r t p. subs b (r, t) = Some p \<longrightarrow> (\<exists>pub pub1 pub2. eb_objects b p = Some pub \<and> eb_objects b2 p = Some pub1
         \<and> EventPublisher_round (\<lambda>r e w. Inr (w @ [(r, snd e)])) pub1 [] =
             Some (andThen (run_all ((\<lambda>r e w. Inr (w @ [(r, snd e)])) r) (lbq_abs (eventQueue pub) @ filter (\<lambda>e. fst e = t) ?es) [])
                    (\<lambda>w'. Inr (pub2, w')))
         \<and> lbq_abs (eventQueue pub2) = [])"
    using events_reach_receivers [OF b(2,6,8,9) e n(1) f n(2), of "\<lambda>r e w. Inr (w @ [(r, snd e)])" "[]"]
    by (elim exE conjE)
  have "subs b (0x10, [65]) = Some 0x200" by (simp add: b(3))
  with b2(3) obtain pub pub1 pub2 where p: "eb_objects b 0x200 = Some pub" "eb_objects b2 0x200 = Some pub1"
      "EventPublisher_round (\<lambda>r e w. Inr (w @ [(r, snd e)])) pub1 [] =
         Some (andThen (run_all ((\<lambda>r e w. Inr (w @ [(r, snd e)])) 0x10)
           (lbq_abs (eventQueue pub) @ filter (\<lambda>e. fst e = [65]) ?es) []) (\<lambda>w'. Inr (pub2, w')))"
    by blast
  have "pub = \<lparr>eventQueue = LBQ_empty, receiver = 0x10, ep_isRunning = True\<rparr>" using p(1) by (simp add: b(5))
  then have "EventPublisher_round (\<lambda>r e w. Inr (w @ [(r, snd e)])) pub1 [] = Some (Inr (pub2, [(0x10, 1), (0x10, 3)]))"
    using p(3) by simp
  then show ?thesis using b(1) b2(1,2) p(2) by (intro exI conjI)
qed

text \<open>C15. In every state that calls of the bus, its rounds and those of its publishers lead to from a new bus, the two
  maps of subscriptions agree: the publishers of a type are those of the receivers subscribed for it, each once; no
  two subscriptions share a publisher; the publisher of a subscription exists and works for the receiver that
  subscribed; the counter is the number of subscriptions, and the lock is free.\<close>

theorem bus_reachable_consistent:
  assumes "bus_reach getType onEvent (EventBus_new s this ids, w0) (b, w)"
  shows "(\<forall>t. distinct (watchers b t) \<and> set (watchers b t) = {p. \<exists>r. subs b (r, t) = Some p})
    \<and> inj_on (subs b) (dom (subs b))
    \<and> (\<forall>r t p. subs b (r, t) = Some p \<longrightarrow> (\<exists>pub. eb_objects b p = Some pub \<and> receiver pub = r \<and> lbq_inv (eventQueue pub)))
    \<and> registeredPublishers b = of_nat (card (dom (subs b))) \<and> eb_lock b = Spinlock_new"
proof -
  have "eb_lock (EventBus_new s this ids) = Spinlock_new" by (simp add: EventBus_new_def split_beta Let_def)
  then have I: "bus_inv b \<and> eb_lock b = Spinlock_new" using bus_reach_inv [OF assms] by simp
  then have "\<forall>r t p. subs b (r, t) = Some p \<longrightarrow> (\<exists>pub. eb_objects b p = Some pub \<and> receiver pub = r \<and> lbq_inv (eventQueue pub))"
    using bus_object by blast
  then show ?thesis using I by (auto simp: bus_inv_def)
qed

theorem bus_reachable_consistent_witness:
  "\<exists>b :: (event_type \<times> nat, unit) event_bus.
     bus_reach fst (\<lambda>r e w. Inr (w @ [e])) (EventBus_new demo_scheduler 0x100 7, []) (b, [])
     \<and> subs b (0x10, [65]) = Some 0x200 \<and> registeredPublishers b = 1 \<and> watchers b [65] = [0x200]"
proof -
  obtain b where b: "EventBus_subscribe 0x200 demo_bus 0x10 [65] = Inr b" "subs b = [(0x10, [65]) \<mapsto> 0x200]"
      "watchers b = (\<lambda>t. if t = [65] then [0x200] else [])"
    using demo_subscribed by (elim exE conjE)
  let ?new = "EventBus_new demo_scheduler 0x100 7 :: (event_type \<times> nat, unit) event_bus"
  let ?on = "\<lambda>r e w. Inr (w @ [e])"
  have "bus_step fst ?on (?new, []) (?new\<lparr>eb_scheduler := demo_scheduler, eb_idGenerator := eb_idGenerator ?new\<rparr>, [])"
    by (rule bus_step.schedule)
  then have s1: "bus_step fst ?on (?new, []) (demo_bus, [])" by (simp add: demo_bus_def)
  have s2: "bus_step fst ?on (demo_bus, []) (b, [])"
    by (rule bus_step.subscribe [OF _ _ b(1)]) (simp_all add: demo_bus_inv)
  note R = bus_reach.step [OF bus_reach.step [OF bus_reach.init s1] s2]
  have "registeredPublishers b = 1" using bus_reachable_consistent [OF R] by (simp add: b(2))
  then show ?thesis using R b(2,3) by (intro exI [of _ b]) simp
qed

text \<open>C23. A receiver can subscribe once for a type: that adds a publisher of its own behind the others of the type,
  whose thread is ready to run, and a second call raises an exception. Unsubscribing takes the thread from the
  scheduler and gives back the subscriptions, the publishers and the counter of before; unsubscribing without
  a subscription changes nothing.\<close>

theorem subscribe_unsubscribe:
  assumes I: "bus_inv b" "eb_lock b = Spinlock_new" and new: "subs b (r, t) = None" "eb_objects b new = None"
    and len: "length (watchers b t) < 2147483648" and s: "s = eb_scheduler b" "sched_wf n pinv s" "0 < n" "has_room s" "initialized s"
    and p: "\<not> queued s new" "new \<noteq> currentThread s" "th_id (threads s (currentThread s)) \<noteq> eb_idGenerator b"
  shows "\<exists>b1 b2. EventBus_unsubscribe b r t = Inr b \<and> EventBus_subscribe new b r t = Inr b1
    \<and> subs b1 = (subs b)((r, t) \<mapsto> new) \<and> watchers b1 = (watchers b)(t := watchers b t @ [new])
    \<and> queued (eb_scheduler b1) new \<and> sched_wf n pinv (eb_scheduler b1)
    \<and> (\<forall>other. EventBus_subscribe other b1 r t = Inl (Thrown ILLEGAL_STATE))
    \<and> EventBus_unsubscribe b1 r t = Inr b2 \<and> bus_inv b2 \<and> subs b2 = subs b \<and> watchers b2 = watchers b
    \<and> eb_objects b2 = eb_objects b \<and> registeredPublishers b2 = registeredPublishers b
    \<and> \<not> queued (eb_scheduler b2) new \<and> sched_wf n pinv (eb_scheduler b2)"
proof -
  obtain s1 where s1: "Thread_start (fst (Thread_new (eb_scheduler b) new 0xFF (eb_idGenerator b))) new = Inr s1"
      "sched_wf n pinv s1" "queued s1 new" "initialized s1" "currentThread s1 = currentThread s"
      "th_id (threads s1 new) = eb_idGenerator b" "threads s1 (currentThread s) = threads s (currentThread s)"
    using publisher_starts [OF s(2-4) p(1,2), of "0xFF" "eb_idGenerator b"] s(1,5) by auto
  obtain b1 where b1: "EventBus_subscribe new b r t = Inr b1" "bus_inv b1" "subs b1 = (subs b)((r, t) \<mapsto> new)"
      "watchers b1 = (watchers b)(t := watchers b t @ [new])"
      "eb_objects b1 = (eb_objects b)(new \<mapsto> \<lparr>eventQueue = LBQ_empty, receiver = r, ep_isRunning = True\<rparr>)"
      "eb_scheduler b1 = s1" "eb_lock b1 = Spinlock_new"
    using subscribe_abs [OF I(1) new I(2) len s1(1)] by blast
  have k: "subs b1 (r, t) = Some new" by (simp add: b1(3))
  obtain s2 where s2: "Scheduler_kill (eb_scheduler b1) new = Inr s2"
    using kill_queued [OF s1(2,4,3)] s1(5-7) p(3) b1(6) by auto
  obtain b2 where b2: "EventBus_unsubscribe b1 r t = Inr b2" "bus_inv b2" "subs b2 = (subs b1)((r, t) := None)"
      "watchers b2 = (watchers b1)(t := remove1 new (watchers b1 t))" "eb_objects b2 = (eb_objects b1)(new := None)"
      "eb_scheduler b2 = s2"
    using unsubscribe_abs [OF b1(2) k b1(7) s2] by blast
  have "new \<notin> set (watchers b t)" using I(1) new(2) bus_object [OF I(1)] by (fastforce simp: bus_inv_def)
  then have W: "watchers b2 = watchers b" by (simp add: b2(4) b1(4) remove1_append)
  have S: "subs b2 = subs b" using new(1) by (auto simp: b2(3) b1(3))
  have "eb_objects b2 = eb_objects b" using new(2) by (auto simp: b2(5) b1(5))
  moreover have "registeredPublishers b2 = registeredPublishers b" using I(1) b2(2) S by (simp add: bus_inv_def)
  moreover have "\<forall>other. EventBus_subscribe other b1 r t = Inl (Thrown ILLEGAL_STATE)"
    using subscribe_again [OF b1(2) k b1(7)] by blast
  moreover have "\<not> queued (eb_scheduler b2) new" "sched_wf n pinv (eb_scheduler b2)"
    using kill_wf(1,3) [OF s1(2)] s2 b1(6) b2(6) by blast+
  ultimately show ?thesis using unsubscribe_absent [OF I(1) new(1) I(2)] b1 b2(1,2) s1(2,3) W S by blast
qed

theorem subscribe_unsubscribe_witness:
  "\<exists>b1 b2. EventBus_subscribe 0x200 demo_bus 0x10 [65] = Inr b1 \<and> queued (eb_scheduler b1) 0x200
     \<and> EventBus_subscribe 0x300 b1 0x10 [65] = Inl (Thrown ILLEGAL_STATE)
     \<and> EventBus_unsubscribe b1 0x10 [65] = Inr b2 \<and> subs b2 = Map.empty \<and> \<not> queued (eb_scheduler b2) 0x200"
proof -
  have p: "(0x200 :: u32) \<noteq> currentThread demo_scheduler"
      "th_id (threads demo_scheduler (currentThread demo_scheduler)) \<noteq> eb_idGenerator demo_bus"
      "initialized demo_scheduler" "eb_objects demo_bus 0x200 = None" "length (watchers demo_bus [65]) < 2147483648"
    by (simp_all add: demo_bus_inv demo_scheduler_def Scheduler_new_def demo_threads_def)
  have "subs demo_bus = Map.empty" using demo_bus_inv(3) by auto
  with subscribe_unsubscribe [where r = "0x10" and t = "[65]", OF demo_bus_inv(1,2,3) p(4,5) demo_bus_inv(9) [symmetric]
      demo_scheduler_wf _ demo_unused(1) p(3) demo_unused(2) p(1,2)]
  show ?thesis by fastforce
qed

end
