(* ===== verification/Spec2Isabelle.thy ===== *)
theory Spec2Isabelle
  imports Prelude Bitmaps Heap_Properties Queues Linked_Queues Frame_Properties Kernel_Memory Process_Scheduling Strings Clocks Interrupts Partition_Properties Event_Properties
begin

text \<open>
  Verification of huyaOS, an operating system in C++ for 32-bit x86. All paths are relative to \<open>src/src\<close>.

  \<^bold>\<open>The program.\<close> The kernel manages memory at several levels: page frames and page tables are handed out by bitmap
  managers (\<open>kernel/memory/manager\<close>), the class \<open>Management\<close> (\<open>kernel/core\<close>) maps and unmaps pages with them, and a
  free list heap serves \<open>new\<close> and \<open>delete\<close>; when a large chunk becomes free the heap asks \<open>Management\<close> to unmap its
  pages. On top of it there are containers (\<open>lib/util\<close>), spinlocks (\<open>lib/async\<close>), strings (\<open>lib/libc\<close>, \<open>lib/string\<close>),
  the schedulers of threads and processes (\<open>kernel/thread\<close>, \<open>kernel/process\<close>), which keep their ready queues in the
  containers and choose the next queue by a priority pattern, the interrupt system (\<open>kernel/interrupt\<close>), which finds the handlers
  of an interrupt in a hash map and defers their work to a polling thread, the event bus (\<open>kernel/service\<close>, \<open>kernel/event\<close>), which
  gives each subscription a thread that forwards events to the receiver, and the drivers, of which the
  keyboard, the clocks and the block devices with their partition tables are modelled.

  \<^bold>\<open>How it is modelled.\<close> Machine integers are words of their width, so additions wrap as in the code. An object is a
  record with the fields of its class, a method is a function of the same name with the class in front
  (\<open>Bitmap::findAndSet\<close> is \<open>Bitmap_findAndSet\<close>), and a loop of the code is a function of its own. What can go wrong is a value of
  \<open>outcome\<close>: \<open>Thrown\<close> is a software exception of the kernel, \<open>BadAccess\<close> an access outside an object or through a
  null or dangling pointer, \<open>Spins\<close> a busy-wait that never ends. Memory that the code reads and writes through pointers is a
  byte memory (\<open>Byte_Memory\<close>), and linked nodes live in a store. Virtual methods and answers of the hardware are arguments.

  \<^bold>\<open>The theories.\<close>
  \<^item> \<open>Prelude\<close>: words, faults, sequencing, checked arrays and the lemmas all components share.
  \<^item> \<open>Bitmaps\<close>: \<open>lib/bit/Bitmap.cpp\<close> and \<open>lib/async/AtomicBitmap.cpp\<close>. First fit search is correct and complete; the
    lock-free search agrees with it for single blocks.
  \<^item> \<open>Byte_Memory\<close>, \<open>Memory_Manager\<close>: \<open>memcpy\<close>, \<open>memmove\<close>, \<open>memset\<close>, \<open>alignUp\<close>, the base class of the managers.
  \<^item> \<open>Free_List\<close>: \<open>FreeListMemoryManager.cpp\<close> on bytes. \<open>Free_List_Chain\<close>, \<open>Free_List_Alloc\<close> and \<open>Free_List_Free\<close> relate the headers in memory
    to the list of free chunks and show what \<open>alloc\<close> and \<open>free\<close> do to it. \<open>Allocator\<close> has the contract of a heap as the
    locale \<open>allocator\<close> and proves once for every heap that clients cannot make it fail or disturb each other;
    \<open>Kernel_Heap\<close> interprets it, \<open>Heap_Properties\<close> states the results.
  \<^item> \<open>Arrays\<close>, \<open>Array_Lists\<close>, \<open>Queues\<close>, \<open>Linked_Queues\<close>, \<open>Hash_Maps\<close>: the containers. The locales \<open>fifo\<close>, \<open>blocking_fifo\<close> and
    \<open>map_contract\<close> are what their users rely on; array queue, ring buffer, linked queue and hash map interpret them.
  \<^item> \<open>Spinlocks\<close>: \<open>lib/async/Atomic.cpp\<close> and \<open>Spinlock.cpp\<close>, threads that share a lock as interleaved steps: the
    condition under which the lock excludes, and a run that violates it in which two threads get inside.
  \<^item> \<open>Bitmap_Managers\<close>, \<open>Frame_Allocation\<close>, \<open>Frame_Properties\<close>: the bitmap based managers, the IO memory manager and the static heap. The locale
    \<open>block_pool\<close> gives exclusive ownership of blocks for all of them.
  \<^item> \<open>Page_Directories\<close>, \<open>Paging_Management\<close>, \<open>Paging_Properties\<close>, \<open>Kernel_Memory\<close>: \<open>PageDirectory.cpp\<close> and the paging part of \<open>Management.cpp\<close>; mapping and
    unmapping, the pages a range covers, the composition of heap and paging, segment descriptors.
  \<^item> \<open>Priority_Patterns\<close>, \<open>Scheduling\<close>, \<open>Scheduling_Properties\<close>, \<open>Process_Scheduling\<close>: the patterns with their fairness contract \<open>priority_pattern\<close>, the thread
    scheduler as a step relation with its invariant and the absence of starvation, the process scheduler. The steps have the
    obligations of the callers as guards; what \<open>setPriority\<close> does without its guard is shown as well.
  \<^item> \<open>C_Strings\<close>, \<open>Strings\<close>: \<open>lib/libc/string.c\<close>, \<open>ctype.c\<close> and \<open>lib/string/String.cpp\<close>.
  \<^item> \<open>Clocks\<close>, \<open>Keyboards\<close>: the timer, the real-time clock with its CMOS registers, and the keyboard driver.
  \<^item> \<open>Listener_Lists\<close>, \<open>Interrupts\<close>: maps from keys to lists of listeners, the interrupt controllers, the dispatcher, the
    system call table and the polling thread with the contract \<open>interrupt_source\<close> of the devices it polls.
  \<^item> \<open>Storage_Devices\<close>, \<open>Partition_Tables\<close>, \<open>Partition_Properties\<close>: block devices (\<open>device/storage/device\<close>) with the contract \<open>sector_device\<close>, which the
    RAM disk and every partition of it fulfil, and the partition tables on any such device; writing and deleting a
    partition changes the list that is read back in exactly one place.
  \<^item> \<open>Event_Bus\<close>, \<open>Event_Properties\<close>: \<open>EventBus.cpp\<close> and \<open>EventPublisher.cpp\<close> over the listener lists, the linked queues and the thread
    scheduler; subscriptions stay consistent, and published events reach their receivers in order.

  \<^bold>\<open>Bounds and fuel.\<close> A loop over an array runs as often as the array has elements, and its function counts these rounds down.
  Loops that may not end are \<open>partial_function (option)\<close>: growing a list beyond 2^31 elements, the walk through linked nodes, the search
  for a ready queue, the polling loop, the walk through the logical partitions, the loops that empty the queues of the event bus; where a property says that such a loop returns, this is proved. Lists hold less than 2^31
  elements and linked queues less than 2^32, the values where the counters of the code wrap. The window
  in which a priority pattern names every priority is 22 calls for the pattern of the kernel.

  \<^bold>\<open>What the properties say where the code does not do what it should.\<close> Some properties have the kind \<open>error\<close>: they exhibit
  an input on which an operation faults, loses data or breaks its invariant. The other properties have hypotheses that exclude such inputs,
  and their texts say so.

  \<^bold>\<open>Not modelled.\<close> Code whose effect is that of hardware (graphics, sound, network, disk controllers, USB, PCI, serial lines, BIOS calls),
  the FAT library, file systems and archives, the ELF loader, formatted output with variable argument lists, floating point
  mathematics and drawing, the debugger, logging, the services other than the event bus, the start of the kernel, the shell and the applications. Interrupts do not
  interleave with the modelled operations except for the threads at a spinlock: in particular no data arrives while the polling
  loop runs, and the clock chip does not advance while the driver waits for it, so that waiting is \<open>Spins\<close>. Buckets of hash maps are
  lists instead of linked nodes. Storage for new objects of the containers is always found.
\<close>

end
